(* ===== verification/Prelude.thy ===== *)
theory Prelude
  imports Main "HOL-Library.Word"
begin

section \<open>Prelude: the Go values the model uses\<close>

text \<open>
  What every component shares: bytes and machine words, instants and durations, decimal
  rendering, big-endian and little-endian integers, and the generic list lemmas the
  component proofs use.

  Instants (\<^verbatim>\<open>time.Time\<close>) are counted in nanoseconds from Go's zero time, so \<open>IsZero\<close> is
  equality with 0; a duration is a number of nanoseconds. Both are unbounded integers. A Go
  \<open>error\<close> result is an option (\<open>None\<close> is nil); a pair \<open>(T, error)\<close> is a sum with
  \<open>Inl\<close> for the error.
\<close>

unbundle bit_operations_syntax

named_theorems wire_simps "header words and byte order"
named_theorems ladder_simps "comparisons of proof rungs"

type_synonym byte = "8 word"
type_synonym bytes = "byte list"
type_synonym Time = int
type_synonym Duration = int

definition IsZero :: "Time \<Rightarrow> bool" where
  "IsZero t = (t = 0)"

definition Millisecond :: Duration where
  "Millisecond = 1000000"

definition Second :: Duration where
  "Second = 1000000000"

definition Minute :: Duration where
  "Minute = 60 * Second"

subsection \<open>Decimal rendering\<close>

definition digit_char :: "nat \<Rightarrow> char" where
  "digit_char d = char_of (48 + d)"

fun utoa :: "nat \<Rightarrow> string" where
  "utoa n = (if n < 10 then [digit_char n] else utoa (n div 10) @ [digit_char (n mod 10)])"

declare utoa.simps [simp del]

definition itoa :: "int \<Rightarrow> string" where
  "itoa i = (if i < 0 then CHR ''-'' # utoa (nat (- i)) else utoa (nat i))"

lemma utoa_nonempty [simp]: "utoa n \<noteq> []"
  by (subst utoa.simps) simp

text \<open>Reading decimal digits back, most significant first.\<close>

definition digits_value :: "string \<Rightarrow> nat" where
  "digits_value s = foldl (\<lambda>n c. 10 * n + (of_char c - 48)) 0 s"

lemma digits_value_utoa [simp]: "digits_value (utoa n) = n"
proof (induction n rule: utoa.induct)
  case (1 n)
  show ?case
  proof (cases "n < 10")
    case True
    then show ?thesis
      by (subst utoa.simps) (simp add: digits_value_def digit_char_def)
  next
    case False
    then have "digits_value (utoa n) = 10 * digits_value (utoa (n div 10)) + n mod 10"
      by (subst utoa.simps) (simp add: digits_value_def digit_char_def)
    then show ?thesis using 1 False by simp
  qed
qed

lemma utoa_inject [simp]: "utoa m = utoa n \<longleftrightarrow> m = n"
  by (metis digits_value_utoa)

subsection \<open>Big-endian 32-bit integers\<close>

text \<open>\<^verbatim>\<open>binary.BigEndian.PutUint32\<close> and \<^verbatim>\<open>binary.BigEndian.Uint32\<close>.\<close>

definition put_be32 :: "32 word \<Rightarrow> bytes" where
  "put_be32 w = [ucast (drop_bit 24 w), ucast (drop_bit 16 w), ucast (drop_bit 8 w), ucast w]"

definition be32 :: "byte \<Rightarrow> byte \<Rightarrow> byte \<Rightarrow> byte \<Rightarrow> 32 word" where
  "be32 a b c d =
     push_bit 24 (ucast a) OR push_bit 16 (ucast b) OR push_bit 8 (ucast c) OR ucast d"

fun uint32_be :: "bytes \<Rightarrow> 32 word" where
  "uint32_be [a, b, c, d] = be32 a b c d"
| "uint32_be _ = 0"

lemma length_put_be32 [simp]: "length (put_be32 w) = 4"
  by (simp add: put_be32_def)

lemma bit_byte_beyond: "8 \<le> n \<Longrightarrow> \<not> bit (b :: byte) n"
  using bit_imp_le_length [of b n] by auto

lemma be32_put_be32:
  "be32 (ucast (drop_bit 24 w)) (ucast (drop_bit 16 w)) (ucast (drop_bit 8 w)) (ucast (w :: 32 word)) = w"
proof (rule bit_word_eqI)
  fix n assume "n < LENGTH(32)"
  then show "bit (be32 (ucast (drop_bit 24 w)) (ucast (drop_bit 16 w)) (ucast (drop_bit 8 w)) (ucast w)) n
      = bit w n"
    by (cases "n < 8"; cases "n < 16"; cases "n < 24")
      (auto simp: be32_def bit_or_iff bit_push_bit_iff bit_ucast_iff bit_drop_bit_eq)
qed

lemma uint32_be_put [simp, wire_simps]: "uint32_be (put_be32 w) = w"
  by (simp add: put_be32_def be32_put_be32)

lemma put_be32_uint32_be:
  assumes "length bs = 4"
  shows "put_be32 (uint32_be bs) = bs"
proof -
  obtain a b c d where bs: "bs = [a, b, c, d]"
    using assms by (auto simp: numeral_eq_Suc length_Suc_conv)
  have "ucast (drop_bit 24 (be32 a b c d)) = a" "ucast (drop_bit 16 (be32 a b c d)) = b"
    "ucast (drop_bit 8 (be32 a b c d)) = c" "ucast (be32 a b c d) = d"
    by (auto intro!: bit_word_eqI simp: be32_def bit_or_iff bit_push_bit_iff bit_ucast_iff
        bit_drop_bit_eq bit_byte_beyond)
  then show ?thesis by (simp add: bs put_be32_def)
qed

lemma put_be32_inject [simp]: "put_be32 v = put_be32 w \<longleftrightarrow> v = w"
  by (metis uint32_be_put)

end
