(* ===== verification/Go_Errors.thy ===== *)
theory Go_Errors
  imports Prelude
begin

section \<open>Errors as values\<close>

text \<open>
  The errors the components return, with \<^verbatim>\<open>errors.Is\<close>, \<^verbatim>\<open>errors.As\<close> and \<^verbatim>\<open>errors.Join\<close> over
  them. A sentinel variable of the source is a constructor; \<open>Errorf ws\<close> is an error built by
  \<^verbatim>\<open>fmt.Errorf\<close> whose \<open>%w\<close> verbs wrap \<open>ws\<close> (the message text is not kept, only what can be
  unwrapped); \<open>ProofErr\<close> is \<^verbatim>\<open>*ProofError\<close> of proof.go, \<open>ProofRefusal\<close> that of proof\_refusal.go.
\<close>

type_synonym Proof = "8 word"

record ProofError =
  peAttribute :: string
  peWant :: Proof
  peGot :: Proof
  peWhy :: string

datatype sentinel =
    ErrNotProven
  | ErrRemotePeer
  | ErrNotServerEnd
  | ErrUnsupportedConn
  | ErrMustReadFirst
  | ErrImpersonationStuck
  | ErrUnimplemented
  | ErrNoBinding
  | ErrPeerGone
  | ErrPeerPending
  | ErrPeerMoved
  | ErrNotLocalPath
  | ErrClosed
  | EOF
  | ErrUnexpectedEOF
  | ErrShortWrite
  | ErrNoProgress
  | ErrClosedPipe
  | Canceled
  | DeadlineExceeded
  | Timeout
  | ErrFrameTooLarge
  | ErrUnexpectedResponse
  | ErrFrameDeadline
  | ErrSessionProtocol
  | ErrSessionExpired
  | ErrServerUntrusted
  | ErrNoSession
  | ErrCallerProofUnmet
  | ErrProofRefusalProtocol
  | ErrMessageLifetime
  | ErrTaken
  | ErrNotExist
  | ErrExist
  | ErrBeyondLoopback
  | ErrNotPrivate
  | ErrNotModelFolder
  | ErrTrust

datatype go_error =
    Err sentinel
  | ProofErr ProofError
  | ProofRefusal string Proof
  | NotLocalPathError string string
  | Errno nat
  | New string
  | Errorf "go_error list"
  | Joined "go_error list"

type_synonym error = "go_error option"

text \<open>
  \<^verbatim>\<open>errors.Is\<close>: an error matches a target it equals, one its \<^verbatim>\<open>Is\<close> method names, or one
  that something it wraps matches. The errno \<^verbatim>\<open>ENOENT\<close>, 2, matches \<^verbatim>\<open>fs.ErrNotExist\<close>, and
  \<^verbatim>\<open>EEXIST\<close> and \<^verbatim>\<open>ENOTEMPTY\<close>, 17 and 39, match \<^verbatim>\<open>fs.ErrExist\<close>; \<^verbatim>\<open>ErrPeerPending\<close> is itself built over \<^verbatim>\<open>ErrPeerGone\<close>
  (bind.go).
\<close>

primrec errors_is :: "go_error \<Rightarrow> go_error \<Rightarrow> bool" where
  "errors_is (Err s) = (\<lambda>t. t = Err s \<or> (s = ErrPeerPending \<and> t = Err ErrPeerGone))"
| "errors_is (ProofErr pe) = (\<lambda>t. t = ProofErr pe \<or> t = Err ErrNotProven)"
| "errors_is (ProofRefusal a r) =
     (\<lambda>t. t = ProofRefusal a r \<or> t = Err ErrCallerProofUnmet \<or> t = Err ErrNotProven)"
| "errors_is (NotLocalPathError p r) = (\<lambda>t. t = NotLocalPathError p r \<or> t = Err ErrNotLocalPath)"
| "errors_is (Errno n) = (\<lambda>t. t = Errno n \<or> (n = 2 \<and> t = Err ErrNotExist) \<or>
     ((n = 17 \<or> n = 39) \<and> t = Err ErrExist))"
| "errors_is (New m) = (\<lambda>t. t = New m)"
| "errors_is (Errorf es) = (\<lambda>t. t = Errorf es \<or> (\<exists>p \<in> set (map errors_is es). p t))"
| "errors_is (Joined es) = (\<lambda>t. t = Joined es \<or> (\<exists>p \<in> set (map errors_is es). p t))"

definition errors_Is :: "error \<Rightarrow> go_error \<Rightarrow> bool" where
  "errors_Is err target = (case err of None \<Rightarrow> False | Some e \<Rightarrow> errors_is e target)"

text \<open>The \<^verbatim>\<open>*ProofError\<close> values of an error's tree, in the order \<^verbatim>\<open>errors.As\<close> visits them.\<close>

primrec proof_errors :: "go_error \<Rightarrow> ProofError list" where
  "proof_errors (Err s) = []"
| "proof_errors (ProofErr pe) = [pe]"
| "proof_errors (ProofRefusal a r) = []"
| "proof_errors (NotLocalPathError p r) = []"
| "proof_errors (Errno n) = []"
| "proof_errors (New m) = []"
| "proof_errors (Errorf es) = concat (map proof_errors es)"
| "proof_errors (Joined es) = concat (map proof_errors es)"

definition errors_join :: "error list \<Rightarrow> error" where
  "errors_join errs = (let es = map the (filter (\<lambda>e. e \<noteq> None) errs) in
     if es = [] then None else Some (Joined es))"

lemma errors_is_refl [simp]: "errors_is e e"
  by (cases e) simp_all

lemma errors_Is_simps [simp]:
  "errors_Is None t = False"
  "errors_Is (Some e) t = errors_is e t"
  by (simp_all add: errors_Is_def)

lemma errors_join_None [simp]: "errors_join errs = None \<longleftrightarrow> (\<forall>e \<in> set errs. e = None)"
  by (auto simp: errors_join_def Let_def filter_empty_conv)

lemma errors_join_Is:
  assumes "\<And>es. t \<noteq> Joined es"
  shows "errors_Is (errors_join errs) t \<longleftrightarrow> (\<exists>e \<in> set errs. errors_Is e t)"
  using assms by (force simp: errors_Is_def errors_join_def Let_def filter_empty_conv split: option.splits)

end
