(* ===== verification/Stream_IO.thy ===== *)
theory Stream_IO
  imports Go_Errors
begin

section \<open>Byte streams\<close>

text \<open>
  What the framing code sees of a connection. Its reading side is the list of what the reads
  will meet: chunks of bytes as the transport delivers them, of any size, and errors (a
  deadline, a reset); after the last of them the peer has closed. A read returns bytes or an
  error, never both, and an error is met once. Its writing side records what was sent and is
  driven by a script of what each \<^verbatim>\<open>Write\<close> does: take the whole buffer, or answer a count and
  an error, counts outside the buffer included; when the script is used up, writes take
  everything.
\<close>

datatype inp = Data bytes | Fault go_error

datatype taken = Takes | Answers int error

record conn =
  inbox :: "inp list"
  sent :: bytes
  accepts :: "taken list"

text \<open>The contract of \<^verbatim>\<open>io.Writer\<close>: a write that takes less than its buffer reports an error.\<close>

fun honest :: "taken \<Rightarrow> bool" where
  "honest Takes = True"
| "honest (Answers n err) = (err \<noteq> None)"

definition writer_contract :: "conn \<Rightarrow> bool" where
  "writer_contract c = list_all honest (accepts c)"

text \<open>\<^verbatim>\<open>Read\<close> into a buffer of \<open>k\<close> bytes.\<close>

fun read_inbox :: "nat \<Rightarrow> inp list \<Rightarrow> bytes \<times> error \<times> inp list" where
  "read_inbox k [] = ([], Some (Err EOF), [])"
| "read_inbox k (Fault e # rest) = ([], Some e, rest)"
| "read_inbox k (Data bs # rest) =
     (if length bs \<le> k then (bs, None, rest) else (take k bs, None, Data (drop k bs) # rest))"

definition conn_read :: "nat \<Rightarrow> conn \<Rightarrow> bytes \<times> error \<times> conn" where
  "conn_read k c = (let (bs, err, ib) = read_inbox k (inbox c) in (bs, err, c\<lparr>inbox := ib\<rparr>))"

definition conn_write :: "bytes \<Rightarrow> conn \<Rightarrow> int \<times> error \<times> conn" where
  "conn_write p c =
     (case accepts c of
        [] \<Rightarrow> (int (length p), None, c\<lparr>sent := sent c @ p\<rparr>)
      | Takes # script \<Rightarrow> (int (length p), None, c\<lparr>sent := sent c @ p, accepts := script\<rparr>)
      | Answers n err # script \<Rightarrow>
          (n, err, c\<lparr>sent := sent c @ take (nat n) p, accepts := script\<rparr>))"

fun inbox_size :: "inp list \<Rightarrow> nat" where
  "inbox_size [] = 0"
| "inbox_size (Fault e # rest) = Suc (inbox_size rest)"
| "inbox_size (Data bs # rest) = Suc (length bs + inbox_size rest)"

lemma read_inbox_smaller:
  "read_inbox k ib = (bs, None, ib') \<Longrightarrow> 0 < k \<Longrightarrow> inbox_size ib' < inbox_size ib"
  by (cases "(k, ib)" rule: read_inbox.cases) (auto split: if_splits)

text \<open>\<^verbatim>\<open>io.ReadFull\<close>: the loop of \<^verbatim>\<open>io.ReadAtLeast\<close>, then its treatment of a short read.\<close>

function read_loop :: "nat \<Rightarrow> bytes \<Rightarrow> inp list \<Rightarrow> bytes \<times> error \<times> inp list" where
  "read_loop need acc ib =
     (if need \<le> length acc then (acc, None, ib)
      else (case read_inbox (need - length acc) ib of
              (bs, err, ib') \<Rightarrow>
                (case err of
                   None \<Rightarrow> read_loop need (acc @ bs) ib'
                 | Some e \<Rightarrow> (acc @ bs, if need \<le> length (acc @ bs) then None else Some e, ib'))))"
  by pat_completeness auto
termination
  by (relation "measure (\<lambda>(need, acc, ib). inbox_size ib)") (auto dest: read_inbox_smaller [OF sym])

declare read_loop.simps [simp del]

definition ReadFull :: "nat \<Rightarrow> conn \<Rightarrow> (go_error + bytes) \<times> conn" where
  "ReadFull n c =
     (let (bs, err, ib) = read_loop n [] (inbox c) in
      (case err of
         None \<Rightarrow> Inr bs
       | Some e \<Rightarrow> Inl (if bs \<noteq> [] \<and> e = Err EOF then Err ErrUnexpectedEOF else e),
       c\<lparr>inbox := ib\<rparr>))"

subsection \<open>Reads do not depend on how the bytes arrive\<close>

text \<open>
  A reading side seen without its chunks: the bytes before the first error, and that error;
  the end of the stream is the error \<^verbatim>\<open>io.EOF\<close>.
\<close>

fun coming :: "inp list \<Rightarrow> bytes" where
  "coming [] = []"
| "coming (Fault e # rest) = []"
| "coming (Data bs # rest) = bs @ coming rest"

fun ends_with :: "inp list \<Rightarrow> go_error" where
  "ends_with [] = Err EOF"
| "ends_with (Fault e # rest) = e"
| "ends_with (Data bs # rest) = ends_with rest"

fun after_fault :: "inp list \<Rightarrow> inp list" where
  "after_fault [] = []"
| "after_fault (Fault e # rest) = rest"
| "after_fault (Data bs # rest) = after_fault rest"

lemma read_inbox_ok:
  assumes "read_inbox k ib = (bs, None, ib')"
  shows "coming ib = bs @ coming ib' \<and> ends_with ib' = ends_with ib \<and> after_fault ib' = after_fault ib \<and>
    length bs \<le> k"
  using assms by (cases "(k, ib)" rule: read_inbox.cases) (auto split: if_splits)

lemma read_inbox_err:
  assumes "read_inbox k ib = (bs, Some e, ib')"
  shows "bs = [] \<and> coming ib = [] \<and> ends_with ib = e \<and> ib' = after_fault ib"
  using assms by (cases "(k, ib)" rule: read_inbox.cases) (auto split: if_splits)

lemma read_loop_spec:
  assumes "read_loop need acc ib = (bs, err, ib')" and "length acc \<le> need"
  shows "case err of
      None \<Rightarrow> \<exists>got. bs = acc @ got \<and> length bs = need \<and> coming ib = got @ coming ib' \<and>
        ends_with ib' = ends_with ib \<and> after_fault ib' = after_fault ib
    | Some e \<Rightarrow> bs = acc @ coming ib \<and> length bs < need \<and> e = ends_with ib \<and> ib' = after_fault ib"
  using assms
proof (induction need acc ib rule: read_loop.induct)
  case (1 need acc ib)
  show ?case
  proof (cases "need \<le> length acc")
    case True
    then show ?thesis using 1(2,3) by (subst (asm) read_loop.simps) auto
  next
    case False
    obtain got e ib1 where r: "read_inbox (need - length acc) ib = (got, e, ib1)"
      by (cases "read_inbox (need - length acc) ib") auto
    show ?thesis
    proof (cases e)
      case None
      have l: "read_loop need (acc @ got) ib1 = (bs, err, ib')"
        using 1(2) False r None by (subst (asm) read_loop.simps) simp
      have "length (acc @ got) \<le> need" using read_inbox_ok r None False by fastforce
      from 1(1) [OF False r [symmetric] refl None l this] read_inbox_ok r None
      show ?thesis by (auto split: option.splits)
    next
      case (Some x)
      then show ?thesis
        using 1(2) False r read_inbox_err by (subst (asm) read_loop.simps) (fastforce split: if_splits)
    qed
  qed
qed

lemma ReadFull_enough:
  assumes "n \<le> length (coming (inbox c))"
  obtains c' where "ReadFull n c = (Inr (take n (coming (inbox c))), c')"
    "coming (inbox c') = drop n (coming (inbox c))" "ends_with (inbox c') = ends_with (inbox c)"
    "sent c' = sent c" "accepts c' = accepts c"
proof -
  obtain bs err ib where r: "read_loop n [] (inbox c) = (bs, err, ib)" by (cases "read_loop n [] (inbox c)")
  from read_loop_spec [OF r] assms have e: "err = None" by (cases err) auto
  with read_loop_spec [OF r] have "length bs = n" "coming (inbox c) = bs @ coming ib"
    "ends_with ib = ends_with (inbox c)" by auto
  then show ?thesis using r e that [of "c\<lparr>inbox := ib\<rparr>"] by (simp add: ReadFull_def)
qed

lemma ReadFull_short:
  assumes "length (coming (inbox c)) < n"
  shows "fst (ReadFull n c) =
    Inl (if coming (inbox c) \<noteq> [] \<and> ends_with (inbox c) = Err EOF then Err ErrUnexpectedEOF
         else ends_with (inbox c))"
proof -
  obtain bs err ib where r: "read_loop n [] (inbox c) = (bs, err, ib)" by (cases "read_loop n [] (inbox c)")
  from read_loop_spec [OF r] assms obtain e where "err = Some e" by (cases err) auto
  with read_loop_spec [OF r] r show ?thesis by (simp add: ReadFull_def)
qed

lemma ReadFull_keeps: "ReadFull n c = (r, c') \<Longrightarrow> sent c' = sent c \<and> accepts c' = accepts c"
  by (auto simp: ReadFull_def split: prod.splits)

lemma ReadFull_length: "ReadFull n c = (Inr bs, c') \<Longrightarrow> length bs = n"
  using read_loop_spec [of n "[]" "inbox c"]
  by (fastforce simp: ReadFull_def split: prod.splits option.splits)

lemma conn_write_None:
  assumes "conn_write p c = (n, None, c')" and "writer_contract c"
  shows "n = int (length p) \<and> sent c' = sent c @ p \<and> inbox c' = inbox c \<and> writer_contract c'"
  using assms by (auto simp: conn_write_def writer_contract_def split: list.splits taken.splits)

lemma conn_write_frame:
  "conn_write p c = (n, err, c') \<Longrightarrow> inbox c' = inbox c \<and> (writer_contract c \<longrightarrow> writer_contract c')"
  by (auto simp: conn_write_def writer_contract_def split: list.splits taken.splits)

lemma conn_write_prefix:
  assumes "conn_write p c = (n, err, c')"
  obtains k where "sent c' = sent c @ take k p"
  using assms that [of "length p"] that [of "nat n"]
  by (auto simp: conn_write_def split: list.splits taken.splits)

text \<open>All bytes a reading side will deliver, errors in between or not.\<close>

fun payload :: "inp list \<Rightarrow> bytes" where
  "payload [] = []"
| "payload (Fault e # rest) = payload rest"
| "payload (Data bs # rest) = bs @ payload rest"

lemma read_inbox_payload:
  "read_inbox k ib = (bs, err, ib') \<Longrightarrow> payload ib = bs @ payload ib' \<and> length bs \<le> k"
  by (cases "(k, ib)" rule: read_inbox.cases) (auto split: if_splits)

lemma conn_read_payload:
  "conn_read k c = (bs, err, c') \<Longrightarrow>
     payload (inbox c) = bs @ payload (inbox c') \<and> length bs \<le> k \<and> sent c' = sent c \<and> accepts c' = accepts c"
  by (auto simp: conn_read_def split: prod.splits dest: read_inbox_payload)

lemma read_loop_payload:
  "read_loop need acc ib = (bs, err, ib') \<Longrightarrow> length acc \<le> need \<Longrightarrow>
     \<exists>got. bs = acc @ got \<and> payload ib = got @ payload ib'"
proof (induction need acc ib rule: read_loop.induct)
  case (1 need acc ib)
  obtain got e ib1 where r: "read_inbox (need - length acc) ib = (got, e, ib1)"
    by (cases "read_inbox (need - length acc) ib") auto
  note p = read_inbox_payload [OF r]
  show ?case
  proof (cases "need \<le> length acc \<or> e \<noteq> None")
    case True
    then show ?thesis
      using 1(2) r p by (subst (asm) read_loop.simps) (auto split: if_splits option.splits)
  next
    case False
    then have l: "read_loop need (acc @ got) ib1 = (bs, err, ib')"
      using 1(2) r by (subst (asm) read_loop.simps) simp
    have "length (acc @ got) \<le> need" using p False by auto
    from 1(1) [OF _ r [symmetric] refl _ l this] False p show ?thesis by auto
  qed
qed

lemma ReadFull_payload:
  "ReadFull n c = (Inr bs, c') \<Longrightarrow> payload (inbox c) = bs @ payload (inbox c')"
  by (auto simp: ReadFull_def split: prod.splits option.splits dest!: read_loop_payload)

end
