(* ===== verification/Proof_Ladder.thy ===== *)
theory Proof_Ladder
  imports Go_Errors
begin

section \<open>The proof ladder and attributes (proof.go)\<close>

text \<open>
  The rungs of \<^verbatim>\<open>Proof\<close>, kept at their width of eight bits, and \<^verbatim>\<open>Attr\<close>: a value that is only
  handed out together with the strength of the evidence for it. \<open>AtLeast\<close> is the one
  operation that decides; the lemmas characterise it completely.
\<close>

definition ProofNone :: Proof where "ProofNone = 0"
definition ProofClaimed :: Proof where "ProofClaimed = 1"
definition ProofInvalid :: Proof where "ProofInvalid = 2"
definition ProofUnsigned :: Proof where "ProofUnsigned = 3"
definition ProofUnmet :: Proof where "ProofUnmet = 4"
definition ProofPID :: Proof where "ProofPID = 5"
definition ProofBound :: Proof where "ProofBound = 6"
definition ProofKernel :: Proof where "ProofKernel = 7"
definition ProofSigned :: Proof where "ProofSigned = 8"

lemmas rung_defs = ProofNone_def ProofClaimed_def ProofInvalid_def ProofUnsigned_def
  ProofUnmet_def ProofPID_def ProofBound_def ProofKernel_def ProofSigned_def

declare rung_defs [ladder_simps]

definition proofNames :: "string list" where
  "proofNames = [''none'', ''claimed'', ''invalid'', ''unsigned'', ''unmet'', ''pid'', ''bound'',
     ''kernel'', ''signed'']"

definition Proof_String :: "Proof \<Rightarrow> string" where
  "Proof_String p =
     (if unat p < length proofNames then proofNames ! unat p
      else ''Proof('' @ utoa (unat p) @ '')'')"

text \<open>The \<open>%q\<close> verb on text that needs no escaping, which every rung's name is.\<close>

definition quoted :: "string \<Rightarrow> string" where
  "quoted s = [char_of (34 :: nat)] @ s @ [char_of (34 :: nat)]"

definition ProofError_Error :: "ProofError \<Rightarrow> string" where
  "ProofError_Error e =
     (let s = ''identity: '' @ peAttribute e @ '' is proven only at '' @ quoted (Proof_String (peGot e))
            @ '', '' @ quoted (Proof_String (peWant e)) @ '' required''
      in if peWhy e \<noteq> [] then s @ '' ('' @ peWhy e @ '')'' else s)"

record 'a Attr =
  attr_name :: string
  attr_value :: 'a
  attr_proof :: Proof
  attr_why :: string

definition attr :: "string \<Rightarrow> 'a \<Rightarrow> Proof \<Rightarrow> string \<Rightarrow> 'a Attr" where
  "attr nm v pr wy = \<lparr>attr_name = nm, attr_value = v, attr_proof = pr, attr_why = wy\<rparr>"

text \<open>Go's zero value of the attribute's type is the first argument of \<open>unknown\<close>.\<close>

definition unknown :: "'a \<Rightarrow> string \<Rightarrow> string \<Rightarrow> 'a Attr" where
  "unknown zero nm wy = \<lparr>attr_name = nm, attr_value = zero, attr_proof = ProofNone, attr_why = wy\<rparr>"

definition Known :: "'a Attr \<Rightarrow> bool" where
  "Known a = (ProofNone < attr_proof a)"

definition AtLeast :: "'a Attr \<Rightarrow> Proof \<Rightarrow> go_error + 'a" where
  "AtLeast a m =
     (if m \<le> attr_proof a \<and> ProofNone < attr_proof a then Inr (attr_value a)
      else Inl (ProofErr \<lparr>peAttribute = attr_name a, peWant = m, peGot = attr_proof a, peWhy = attr_why a\<rparr>))"

definition Attr_String :: "('a \<Rightarrow> string) \<Rightarrow> 'a Attr \<Rightarrow> string" where
  "Attr_String show_value a =
     (if \<not> Known a
      then (if attr_why a \<noteq> [] then attr_name a @ ''=unknown('' @ attr_why a @ '')''
            else attr_name a @ ''=unknown'')
      else attr_name a @ ''='' @ show_value (attr_value a) @ ''['' @ Proof_String (attr_proof a) @ '']'')"

lemma attr_sels [simp]:
  "attr_name (attr nm v pr wy) = nm" "attr_value (attr nm v pr wy) = v"
  "attr_proof (attr nm v pr wy) = pr" "attr_why (attr nm v pr wy) = wy"
  by (simp_all add: attr_def)

lemma unknown_sels [simp]:
  "attr_name (unknown z nm wy) = nm" "attr_value (unknown z nm wy) = z"
  "attr_proof (unknown z nm wy) = ProofNone" "attr_why (unknown z nm wy) = wy"
  by (simp_all add: unknown_def)

lemma AtLeast_Inr_iff:
  "AtLeast a m = Inr v \<longleftrightarrow> m \<le> attr_proof a \<and> Known a \<and> v = attr_value a"
  by (auto simp: AtLeast_def Known_def)

lemma AtLeast_Inl_iff:
  "AtLeast a m = Inl e \<longleftrightarrow>
     (attr_proof a < m \<or> \<not> Known a) \<and>
     e = ProofErr \<lparr>peAttribute = attr_name a, peWant = m, peGot = attr_proof a, peWhy = attr_why a\<rparr>"
  by (auto simp: AtLeast_def Known_def not_le not_less)

lemma AtLeast_needed:
  "ProofNone < m \<Longrightarrow> (\<exists>v. AtLeast a m = Inr v) \<longleftrightarrow> m \<le> attr_proof a"
  by (auto simp: AtLeast_def)

lemma unknown_refused: "\<exists>e. AtLeast (unknown z nm wy) m = Inl e \<and> errors_is e (Err ErrNotProven)"
  by (simp add: AtLeast_def)

lemma Proof_String_cases:
  "Proof_String p = (if p < 9 then proofNames ! unat p else ''Proof('' @ utoa (unat p) @ '')'')"
  by (simp add: Proof_String_def proofNames_def word_less_nat_alt)

lemma proofNames_distinct: "distinct proofNames"
  by (simp add: proofNames_def)

lemma proofNames_no_paren: "n < length proofNames \<Longrightarrow> CHR ''('' \<notin> set (proofNames ! n)"
proof -
  have "\<forall>s \<in> set proofNames. CHR ''('' \<notin> set s" by (simp add: proofNames_def)
  then show "n < length proofNames \<Longrightarrow> CHR ''('' \<notin> set (proofNames ! n)" by simp
qed

lemma Proof_String_inject: "Proof_String p = Proof_String q \<longleftrightarrow> p = q"
proof
  assume eq: "Proof_String p = Proof_String q"
  have paren: "CHR ''('' \<in> set (Proof_String r) \<longleftrightarrow> \<not> unat r < length proofNames" for r
    using proofNames_no_paren [of "unat r"] by (simp add: Proof_String_def)
  have same: "unat p < length proofNames \<longleftrightarrow> unat q < length proofNames"
    using paren [of p] paren [of q] eq by simp
  then have "unat p = unat q"
    using eq proofNames_distinct
    by (cases "unat q < length proofNames") (simp_all add: Proof_String_def nth_eq_iff_index_eq)
  then show "p = q" by (simp add: word_unat_eq_iff)
qed simp

subsection \<open>Properties\<close>

text \<open>
  \<^verbatim>\<open>AtLeast\<close> hands out a value exactly when it is known and proven at least as strongly as
  demanded, and it is then the attribute's own value; in every other case it returns a
  \<^verbatim>\<open>ProofError\<close> that names the attribute, both rungs and the platform's reason. An attribute at
  \<^verbatim>\<open>ProofNone\<close> is never handed out, even to a caller that demands nothing.
\<close>

theorem AtLeast_exact:
  "(AtLeast a m = Inr v \<longleftrightarrow> m \<le> attr_proof a \<and> ProofNone < attr_proof a \<and> v = attr_value a) \<and>
   (AtLeast a m = Inl e \<longleftrightarrow>
      (attr_proof a < m \<or> attr_proof a = ProofNone) \<and>
      e = ProofErr \<lparr>peAttribute = attr_name a, peWant = m, peGot = attr_proof a, peWhy = attr_why a\<rparr>)"
  by (auto simp: AtLeast_def ProofNone_def not_le not_less word_gt_0)

text \<open>
  No two of the 256 values of \<^verbatim>\<open>Proof\<close> print alike, so a log line or an error message
  cannot show a rung as a different one.
\<close>

theorem Proof_String_distinct: "Proof_String p = Proof_String q \<longleftrightarrow> p = q"
  by (rule Proof_String_inject)

end
