(* ===== verification/Framing.thy ===== *)
theory Framing
  imports Stream_IO Proof_Ladder
begin

section \<open>Frames and control words (listen/framed.go, proof\_refusal.go, pool.go)\<close>

text \<open>
  The wire format: a 32-bit big-endian header and a payload. The upper two bits of a header are
  session flags, the lower thirty a length; four words outside the lengths are control words.
  Each function of the source that reads or writes part of a frame is a function on the
  connection. A context is what the code asks of it: its error, and its deadline.
\<close>

definition DefaultMaxFrame :: "32 word" where "DefaultMaxFrame = 1024 * 1024"
definition DefaultFrameTimeout :: Duration where "DefaultFrameTimeout = 5 * Second"

definition sessionFlag :: "32 word" where "sessionFlag = push_bit 31 1"
definition oneWayFlag :: "32 word" where "oneWayFlag = push_bit 30 1"
definition lengthMask :: "32 word" where "lengthMask = oneWayFlag - 1"
definition sessionAccept :: "32 word" where "sessionAccept = sessionFlag"
definition sessionDecline :: "32 word" where "sessionDecline = 0"
definition sessionUnsupported :: "32 word" where "sessionUnsupported = oneWayFlag"
definition sessionClosing :: "32 word" where "sessionClosing = 0xFFFFFFFF"
definition proofRefusalHeader :: "32 word" where "proofRefusalHeader = 0xFFFFFFFE"

lemmas wire_defs = sessionFlag_def oneWayFlag_def lengthMask_def sessionAccept_def sessionDecline_def
  sessionUnsupported_def sessionClosing_def proofRefusalHeader_def

definition frameLimit :: "32 word \<Rightarrow> 32 word" where
  "frameLimit n = (if n = 0 then DefaultMaxFrame else if lengthMask < n then lengthMask else n)"

subsection \<open>Writing\<close>

text \<open>The inner loop of \<^verbatim>\<open>writeHeadedCount\<close> over one part.\<close>

function write_part :: "bytes \<Rightarrow> nat \<Rightarrow> conn \<Rightarrow> nat \<times> error \<times> conn" where
  "write_part part written c =
     (if part = [] then (written, None, c)
      else (case conn_write part c of
              (n, err, c') \<Rightarrow>
                if n < 0 \<or> int (length part) < n then (written, Some (Err ErrShortWrite), c')
                else if err \<noteq> None then (written + nat n, err, c')
                else if n \<le> 0 then (written + nat n, Some (Err ErrShortWrite), c')
                else write_part (drop (nat n) part) (written + nat n) c'))"
  by pat_completeness auto
termination by (relation "measure (\<lambda>(part, written, c). length part)") auto

declare write_part.simps [simp del]

fun write_parts :: "bytes list \<Rightarrow> nat \<Rightarrow> conn \<Rightarrow> nat \<times> error \<times> conn" where
  "write_parts [] written c = (written, None, c)"
| "write_parts (part # parts) written c =
     (case write_part part written c of
        (written', None, c') \<Rightarrow> write_parts parts written' c'
      | (written', Some err, c') \<Rightarrow> (written', Some err, c'))"

definition writeHeadedCount :: "32 word \<Rightarrow> bytes \<Rightarrow> conn \<Rightarrow> nat \<times> error \<times> conn" where
  "writeHeadedCount header frame c =
     (let h = put_be32 header;
          parts = (if length frame \<le> 65536 then [h @ frame] else [h, frame])
      in write_parts parts 0 c)"

definition writeHeaded :: "32 word \<Rightarrow> bytes \<Rightarrow> conn \<Rightarrow> error \<times> conn" where
  "writeHeaded header frame c = (case writeHeadedCount header frame c of (_, err, c') \<Rightarrow> (err, c'))"

definition writeFrame :: "bytes \<Rightarrow> 32 word \<Rightarrow> conn \<Rightarrow> error \<times> conn" where
  "writeFrame frame limit c =
     (if unat limit < length frame then (Some (Err ErrFrameTooLarge), c)
      else writeHeaded (of_nat (length frame)) frame c)"

definition WriteFrameTo :: "bytes \<Rightarrow> 32 word \<Rightarrow> conn \<Rightarrow> error \<times> conn" where
  "WriteFrameTo frame limit c = writeFrame frame (frameLimit limit) c"

definition writeUint32 :: "32 word \<Rightarrow> conn \<Rightarrow> error \<times> conn" where
  "writeUint32 v c = (case conn_write (put_be32 v) c of (_, err, c') \<Rightarrow> (err, c'))"

text \<open>\<^verbatim>\<open>writeAll\<close> slices by the count a write answers; a count beyond the buffer panics.\<close>

function writeAll :: "bytes \<Rightarrow> conn \<Rightarrow> error \<times> conn" where
  "writeAll b c =
     (if b = [] then (None, c)
      else (case conn_write b c of
              (n, err, c') \<Rightarrow>
                if err \<noteq> None then (err, c')
                else if n \<le> 0 then (Some (Err ErrShortWrite), c')
                else if int (length b) < n then (Some (New ''slice bounds out of range''), c')
                else writeAll (drop (nat n) b) c'))"
  by pat_completeness auto
termination by (relation "measure (\<lambda>(b, c). length b)") auto

declare writeAll.simps [simp del]

subsection \<open>Proof refusals\<close>

definition proofAttributes :: "string list" where
  "proofAttributes = [[], ''user'', ''process'', ''path'', ''package'', ''code'']"

text \<open>The loop of \<^verbatim>\<open>proofRefusalBytes\<close> from index \<open>i\<close>: the two token bytes.\<close>

fun refusal_tokens :: "nat \<Rightarrow> string list \<Rightarrow> ProofError \<Rightarrow> bytes" where
  "refusal_tokens i [] pe = [0, 0]"
| "refusal_tokens i (nm # rest) pe =
     (if peAttribute pe = nm \<and> i \<noteq> 0 \<and> ProofNone < peWant pe \<and> peWant pe \<le> ProofSigned
      then [of_nat i, peWant pe]
      else refusal_tokens (Suc i) rest pe)"

definition proofRefusalBytes :: "go_error \<Rightarrow> bytes" where
  "proofRefusalBytes err =
     put_be32 proofRefusalHeader @
     (case proof_errors err of [] \<Rightarrow> [0, 0] | pe # _ \<Rightarrow> refusal_tokens 0 proofAttributes pe)"

definition readProofRefusal :: "conn \<Rightarrow> go_error \<times> conn" where
  "readProofRefusal c =
     (case ReadFull 2 c of
        (Inl err, c') \<Rightarrow> (err, c')
      | (Inr tokens, c') \<Rightarrow>
          (let attribute = tokens ! 0; required = tokens ! 1 in
           if length proofAttributes \<le> unat attribute \<or> ProofSigned < required \<or>
              (attribute = 0) \<noteq> (required = 0)
           then (Err ErrProofRefusalProtocol, c')
           else (ProofRefusal (proofAttributes ! unat attribute) required, c')))"

definition sendProofRefusal :: "go_error \<Rightarrow> conn \<Rightarrow> error \<times> conn" where
  "sendProofRefusal err c = writeAll (proofRefusalBytes err) c"

subsection \<open>Reading\<close>

definition readFrameBody :: "32 word \<Rightarrow> 32 word \<Rightarrow> conn \<Rightarrow> (go_error + bytes) \<times> conn" where
  "readFrameBody n limit c =
     (if limit < n \<or> 2 ^ 63 - 1 < unat n then (Inl (Err ErrFrameTooLarge), c)
      else ReadFull (unat n) c)"

definition readFrame :: "32 word \<Rightarrow> conn \<Rightarrow> (go_error + bytes) \<times> conn" where
  "readFrame limit c =
     (case ReadFull 4 c of
        (Inl err, c') \<Rightarrow> (Inl err, c')
      | (Inr h, c') \<Rightarrow>
          (let n = uint32_be h in
           if n = proofRefusalHeader then (case readProofRefusal c' of (err, c'') \<Rightarrow> (Inl err, c''))
           else readFrameBody n limit c'))"

definition ReadFrameFrom :: "32 word \<Rightarrow> conn \<Rightarrow> (go_error + bytes) \<times> conn" where
  "ReadFrameFrom limit c = readFrame (frameLimit limit) c"

definition waitFrameEOF :: "conn \<Rightarrow> error \<times> conn" where
  "waitFrameEOF c =
     (case conn_read 1 c of
        (b, err, c1) \<Rightarrow>
          if b \<noteq> [] then
            (if hd b = 0xFF then
               (case ReadFull 3 c1 of
                  (Inl readErr, c2) \<Rightarrow> (Some readErr, c2)
                | (Inr rest, c2) \<Rightarrow>
                    if uint32_be (hd b # rest) = proofRefusalHeader
                    then (case readProofRefusal c2 of (e, c3) \<Rightarrow> (Some e, c3))
                    else (Some (Err ErrUnexpectedResponse), c2))
             else (Some (Err ErrUnexpectedResponse), c1))
          else if errors_Is err (Err EOF) then (None, c1)
          else if err = None then (Some (Err ErrNoProgress), c1)
          else (err, c1))"

text \<open>\<^verbatim>\<open>readUint32\<close> also reports how many bytes it read.\<close>

definition readUint32 :: "conn \<Rightarrow> (go_error + 32 word) \<times> nat \<times> conn" where
  "readUint32 c =
     (case read_loop 4 [] (inbox c) of
        (bs, _, _) \<Rightarrow>
          (case ReadFull 4 c of
             (Inl err, c') \<Rightarrow> (Inl err, length bs, c')
           | (Inr b, c') \<Rightarrow> (Inr (uint32_be b), length bs, c')))"

subsection \<open>Contexts and write errors\<close>

record ctx =
  ctxErr :: error
  ctxDeadline :: "Time option"

definition IsTimeout :: "error \<Rightarrow> bool" where
  "IsTimeout err = (err = Some (Err Timeout) \<or> err = Some (Err DeadlineExceeded))"

definition frameError :: "ctx \<Rightarrow> Time \<Rightarrow> error \<Rightarrow> error" where
  "frameError cx now err =
     (if ctxErr cx \<noteq> None then ctxErr cx
      else if IsTimeout err \<and> (case ctxDeadline cx of Some d \<Rightarrow> \<not> now < d | None \<Rightarrow> False)
      then Some (Err DeadlineExceeded)
      else err)"

text \<open>The timeout of a call: zero selects the default; the earlier of it and the parent's wins.\<close>

definition frameContext :: "ctx \<Rightarrow> Duration \<Rightarrow> Time \<Rightarrow> ctx" where
  "frameContext parent timeout now =
     (let d = now + (if timeout = 0 then DefaultFrameTimeout else timeout)
      in parent\<lparr>ctxDeadline := Some (case ctxDeadline parent of Some pd \<Rightarrow> min pd d | None \<Rightarrow> d)\<rparr>)"

text \<open>
  The numbers of \<^verbatim>\<open>EPIPE\<close> and \<^verbatim>\<open>ECONNRESET\<close> are Linux's; \<open>platform\<close> is
  \<^verbatim>\<open>writeSignalsClosedPeerPlatform\<close>, constantly false off Windows.
\<close>

definition writeSignalsClosedPeer :: "(go_error \<Rightarrow> bool) \<Rightarrow> go_error \<Rightarrow> bool" where
  "writeSignalsClosedPeer platform err =
     (errors_is err (Errno 32) \<or> errors_is err (Errno 104) \<or> errors_is err (Err ErrClosedPipe) \<or>
      errors_is err (Err ErrClosed) \<or> platform err)"

definition refusalAfterWriteError :: "(go_error \<Rightarrow> bool) \<Rightarrow> ctx \<Rightarrow> go_error \<Rightarrow> bool \<Rightarrow> conn \<Rightarrow> go_error \<times> conn" where
  "refusalAfterWriteError platform cx writeErr opening c =
     (if ctxErr cx \<noteq> None \<or> \<not> writeSignalsClosedPeer platform writeErr then (writeErr, c)
      else (case readUint32 c of
              (Inl err, _, c1) \<Rightarrow> (writeErr, c1)
            | (Inr header, _, c1) \<Rightarrow>
                (let (r, c2) = (if opening \<and> (header = sessionAccept \<or> header = sessionDecline \<or> header = sessionUnsupported)
                                then (case readUint32 c1 of (r, _, c2) \<Rightarrow> (r, c2))
                                else (Inr header, c1))
                 in case r of
                      Inl err \<Rightarrow> (writeErr, c2)
                    | Inr header2 \<Rightarrow>
                        if header2 \<noteq> proofRefusalHeader then (writeErr, c2)
                        else (case readProofRefusal c2 of
                                (ProofRefusal a r, c3) \<Rightarrow> (ProofRefusal a r, c3)
                              | (_, c3) \<Rightarrow> (writeErr, c3)))))"

definition writeFreshSessionHeader :: "(go_error \<Rightarrow> bool) \<Rightarrow> ctx \<Rightarrow> 32 word \<Rightarrow> conn \<Rightarrow> error \<times> conn" where
  "writeFreshSessionHeader platform cx flags c =
     (case writeUint32 flags c of
        (Some err, c') \<Rightarrow> (case refusalAfterWriteError platform cx err True c' of (e, c'') \<Rightarrow> (Some e, c''))
      | (None, c') \<Rightarrow> (None, c'))"

subsection \<open>What a complete write leaves\<close>

lemma write_part_ok:
  assumes "write_part part written c = (w', None, c')"
  shows "w' = written + length part \<and> sent c' = sent c @ part \<and> inbox c' = inbox c"
  using assms
proof (induction part written c arbitrary: w' c' rule: write_part.induct)
  case (1 part written c)
  show ?case
  proof (cases "part = []")
    case True
    then show ?thesis using 1(2) by (subst (asm) write_part.simps) simp
  next
    case False
    obtain n err c1 where w: "conn_write part c = (n, err, c1)" by (cases "conn_write part c")
    have n: "0 < n" "n \<le> int (length part)" "err = None"
      and rec: "write_part (drop (nat n) part) (written + nat n) c1 = (w', None, c')"
      using 1(2) False w by (subst (asm) write_part.simps; auto split: if_splits)+
    have "sent c1 = sent c @ take (nat n) part" "inbox c1 = inbox c"
      using w n by (auto simp: conn_write_def split: list.splits taken.splits)
    moreover have "w' = written + nat n + length (drop (nat n) part) \<and> sent c' = sent c1 @ drop (nat n) part \<and>
        inbox c' = inbox c1"
      using 1(1) [OF False w [symmetric] refl _ _ _ rec] n by simp
    ultimately show ?thesis using n by simp
  qed
qed

lemma write_parts_ok:
  "write_parts parts written c = (w', None, c') \<Longrightarrow>
     w' = written + length (concat parts) \<and> sent c' = sent c @ concat parts \<and> inbox c' = inbox c"
proof (induction parts arbitrary: written c)
  case (Cons part parts)
  obtain w1 e c1 where w: "write_part part written c = (w1, e, c1)" by (cases "write_part part written c")
  then have e: "e = None" using Cons.prems by (cases e) auto
  then have "write_parts parts w1 c1 = (w', None, c')" using w Cons.prems by simp
  from Cons.IH [OF this] write_part_ok [of part written c w1 c1] w e show ?case by simp
qed simp

lemma writeHeaded_ok:
  "writeHeaded header frame c = (None, c') \<Longrightarrow>
     sent c' = sent c @ put_be32 header @ frame \<and> inbox c' = inbox c"
  by (auto simp: writeHeaded_def writeHeadedCount_def Let_def simp del: write_parts.simps
      split: prod.splits if_splits dest: write_parts_ok)

lemma writeFrame_ok:
  "writeFrame frame limit c = (None, c') \<Longrightarrow>
     length frame \<le> unat limit \<and> sent c' = sent c @ put_be32 (of_nat (length frame)) @ frame \<and> inbox c' = inbox c"
  by (auto simp: writeFrame_def split: if_splits dest: writeHeaded_ok)

text \<open>A transport whose every write takes the whole buffer.\<close>

definition takes_all :: "conn \<Rightarrow> bool" where
  "takes_all c = list_all (\<lambda>a. a = Takes) (accepts c)"

lemma conn_write_takes_all:
  assumes "takes_all c"
  obtains c' where "conn_write p c = (int (length p), None, c')" "takes_all c'" "sent c' = sent c @ p"
    "inbox c' = inbox c"
  using assms by (cases "accepts c") (auto simp: takes_all_def conn_write_def)

lemma write_part_takes_all:
  assumes "takes_all c"
  obtains c' where "write_part part written c = (written + length part, None, c')" "takes_all c'"
proof (cases "part = []")
  case True
  then show ?thesis using assms that [of c] by (simp add: write_part.simps)
next
  case False
  obtain c' where "conn_write part c = (int (length part), None, c')" "takes_all c'"
    using conn_write_takes_all [OF assms] by metis
  then show ?thesis using False that [of c'] by (simp add: write_part.simps)
qed

lemma write_parts_takes_all: "takes_all c \<Longrightarrow> \<exists>w c'. write_parts parts written c = (w, None, c')"
proof (induction parts arbitrary: written c)
  case (Cons part parts)
  obtain c1 where "write_part part written c = (written + length part, None, c1)" "takes_all c1"
    using write_part_takes_all [OF Cons.prems] by metis
  then show ?case using Cons.IH by simp
qed simp

lemma writeFrame_takes_all:
  assumes "takes_all c" and "length frame \<le> unat limit"
  shows "\<exists>c'. writeFrame frame limit c = (None, c')"
proof -
  let ?h = "put_be32 (of_nat (length frame))"
  obtain w c' where "write_parts (if length frame \<le> 65536 then [?h @ frame] else [?h, frame]) 0 c = (w, None, c')"
    using write_parts_takes_all [OF assms(1)] by blast
  then show ?thesis
    using assms(2) by (simp add: writeFrame_def writeHeaded_def writeHeadedCount_def Let_def
        del: write_parts.simps)
qed

lemma writeAll_takes_all:
  assumes "takes_all c"
  obtains c' where "writeAll b c = (None, c')" "sent c' = sent c @ b" "inbox c' = inbox c"
proof (cases "b = []")
  case True
  then show ?thesis using that [of c] by (simp add: writeAll.simps)
next
  case False
  obtain c' where "conn_write b c = (int (length b), None, c')" "sent c' = sent c @ b" "inbox c' = inbox c"
    using conn_write_takes_all [OF assms] by metis
  then show ?thesis using False that [of c'] by (simp add: writeAll.simps)
qed

lemma conn_write_inbox: "inbox (snd (snd (conn_write b c))) = inbox c"
  by (auto simp: conn_write_def split: list.splits taken.splits)

lemma writeAll_inbox: "writeAll b c = (e, c') \<Longrightarrow> inbox c' = inbox c"
proof (induction b c arbitrary: e c' rule: writeAll.induct)
  case (1 b c)
  show ?case
  proof (cases "b = []")
    case True
    then show ?thesis using 1(2) by (simp add: writeAll.simps)
  next
    case False
    obtain n err c1 where w: "conn_write b c = (n, err, c1)" by (cases "conn_write b c")
    have i: "inbox c1 = inbox c" using conn_write_inbox [of b c] w by simp
    show ?thesis
    proof (cases "err = None \<and> 0 < n \<and> n \<le> int (length b)")
      case True
      then have "writeAll (drop (nat n) b) c1 = (e, c')"
        using 1(2) False w by (simp add: writeAll.simps [of b c])
      then show ?thesis using 1(1) [OF False w [symmetric] refl] True i by simp
    next
      case stop: False
      then show ?thesis using 1(2) False w i by (auto simp: writeAll.simps [of b c] split: if_splits)
    qed
  qed
qed

subsection \<open>Reading a frame off a stream\<close>

text \<open>Two connections that will deliver the same bytes and the same error, in whatever chunks.\<close>

definition same_stream :: "conn \<Rightarrow> conn \<Rightarrow> bool" where
  "same_stream c d \<longleftrightarrow> coming (inbox c) = coming (inbox d) \<and> ends_with (inbox c) = ends_with (inbox d)"

lemma ReadFull_same:
  assumes "same_stream c d" and "ReadFull n c = (r, c')" and "ReadFull n d = (r', d')"
  shows "r = r' \<and> (\<exists>e. r = Inl e) \<or> r = r' \<and> same_stream c' d'"
proof (cases "n \<le> length (coming (inbox c))")
  case True
  then have d: "n \<le> length (coming (inbox d))" using assms(1) by (simp add: same_stream_def)
  show ?thesis
    using assms by (rule_tac ReadFull_enough [OF True], rule_tac ReadFull_enough [OF d])
      (simp add: same_stream_def)
next
  case False
  then show ?thesis
    using assms ReadFull_short [of c n] ReadFull_short [of d n] by (simp add: same_stream_def)
qed

lemma readFrameBody_same:
  assumes "same_stream c d" shows "fst (readFrameBody n limit c) = fst (readFrameBody n limit d)"
proof -
  obtain r c' where rc: "ReadFull (unat n) c = (r, c')" by (cases "ReadFull (unat n) c")
  obtain r' d' where rd: "ReadFull (unat n) d = (r', d')" by (cases "ReadFull (unat n) d")
  show ?thesis using ReadFull_same [OF assms rc rd] rc rd by (auto simp: readFrameBody_def)
qed

lemma readProofRefusal_same:
  assumes "same_stream c d" shows "fst (readProofRefusal c) = fst (readProofRefusal d)"
proof -
  obtain r c' where rc: "ReadFull 2 c = (r, c')" by (cases "ReadFull 2 c")
  obtain r' d' where rd: "ReadFull 2 d = (r', d')" by (cases "ReadFull 2 d")
  have "r' = r" using ReadFull_same [OF assms rc rd] by auto
  then show ?thesis using rc rd by (cases r) (simp_all add: readProofRefusal_def Let_def)
qed

lemma readFrame_same:
  assumes "same_stream c d" shows "fst (readFrame limit c) = fst (readFrame limit d)"
proof -
  obtain r c' where rc: "ReadFull 4 c = (r, c')" by (cases "ReadFull 4 c")
  obtain r' d' where rd: "ReadFull 4 d = (r', d')" by (cases "ReadFull 4 d")
  show ?thesis
  proof (cases r)
    case (Inl e)
    then show ?thesis using ReadFull_same [OF assms rc rd] rc rd by (auto simp: readFrame_def)
  next
    case (Inr h)
    then have "r' = Inr h" "same_stream c' d'" using ReadFull_same [OF assms rc rd] by auto
    then show ?thesis
      using Inr rc rd readFrameBody_same [of c' d'] readProofRefusal_same [of c' d']
      by (auto simp: readFrame_def Let_def split: prod.splits)
  qed
qed

lemma readFrame_header:
  assumes "coming (inbox c) = put_be32 n @ rest"
  obtains c' where "ReadFull 4 c = (Inr (put_be32 n), c')" "coming (inbox c') = rest"
    "ends_with (inbox c') = ends_with (inbox c)" "sent c' = sent c"
  using ReadFull_enough [of 4 c] assms by (auto simp: put_be32_def)

lemma lengthMask_lt: "n \<le> lengthMask \<Longrightarrow> n \<noteq> proofRefusalHeader \<and> n \<noteq> sessionClosing"
  by (auto simp: wire_defs word_le_nat_alt)

lemma readFrame_complete:
  assumes c: "coming (inbox c) = put_be32 n @ frame @ rest" and "length frame = unat n"
    and "n \<le> limit" and "n \<noteq> proofRefusalHeader"
  obtains c' where "readFrame limit c = (Inr frame, c')" "coming (inbox c') = rest"
    "ends_with (inbox c') = ends_with (inbox c)"
proof -
  obtain c1 where r: "ReadFull 4 c = (Inr (put_be32 n), c1)" "coming (inbox c1) = frame @ rest"
    "ends_with (inbox c1) = ends_with (inbox c)"
    using readFrame_header [OF c] by metis
  obtain c2 where b: "ReadFull (unat n) c1 = (Inr frame, c2)" "coming (inbox c2) = rest"
    "ends_with (inbox c2) = ends_with (inbox c1)"
    using ReadFull_enough [of "unat n" c1] r(2) assms(2) by auto
  have "unat n < 2 ^ LENGTH(32)" by (rule unsigned_less)
  then have "readFrame limit c = (Inr frame, c2)"
    using r(1) b(1) assms(3,4) by (simp add: readFrame_def readFrameBody_def not_less)
  then show ?thesis using that b r by simp
qed

lemma length_bits:
  assumes "n \<le> lengthMask" shows "\<not> bit n 31" "\<not> bit n 30" "n AND lengthMask = n"
proof -
  have "unat n < 2 ^ 30" using assms by (simp add: wire_defs word_le_nat_alt)
  then have "take_bit 30 (unat n) = unat n" by (rule take_bit_nat_eq_self)
  then have low: "i < 30" if "bit n i" for i
  proof -
    have "bit (unat n) i" using that by (simp add: bit_unsigned_iff)
    with \<open>take_bit 30 (unat n) = unat n\<close> have "bit (take_bit 30 (unat n)) i" by simp
    then show ?thesis by (simp add: bit_take_bit_iff)
  qed
  then show "\<not> bit n 31" "\<not> bit n 30" by fastforce+
  have m: "bit lengthMask i \<longleftrightarrow> i < 30" for i
  proof -
    have eq: "lengthMask = mask 30" by (simp add: wire_defs mask_eq_exp_minus_1)
    show ?thesis unfolding eq bit_mask_iff by auto
  qed
  show "n AND lengthMask = n"
    using low by (auto intro!: bit_word_eqI simp: m bit_and_iff)
qed

lemma control_bits: "bit proofRefusalHeader 31" "bit sessionClosing 31" "bit sessionAccept 31" "bit sessionUnsupported 30"
  by (simp_all add: wire_defs bit_simps)

lemma of_nat_length_le: "length frame \<le> unat limit \<Longrightarrow> limit \<le> l \<Longrightarrow> (of_nat (length frame) :: 32 word) \<le> l"
proof -
  assume a: "length frame \<le> unat limit" "limit \<le> l"
  have "unat limit < 2 ^ LENGTH(32)" by (rule unsigned_less)
  then have "unat (of_nat (length frame) :: 32 word) = length frame"
    using a by (simp add: unsigned_of_nat take_bit_nat_eq_self)
  then show ?thesis using a by (simp add: word_le_nat_alt)
qed

lemma unat_of_nat_length: "length frame \<le> unat (limit :: 32 word) \<Longrightarrow> unat (of_nat (length frame) :: 32 word) = length frame"
proof -
  assume a: "length frame \<le> unat limit"
  have "unat limit < 2 ^ LENGTH(32)" by (rule unsigned_less)
  then show ?thesis using a by (simp add: unsigned_of_nat take_bit_nat_eq_self)
qed

lemma frameLimit_le: "frameLimit l \<le> lengthMask" "0 < frameLimit l"
  by (auto simp: frameLimit_def DefaultMaxFrame_def wire_defs word_gt_0 not_less)

subsection \<open>Properties\<close>

text \<open>
  C5: a frame within the writer's limit arrives. A transport that takes what is written gets one
  header and the payload; a reader that receives these bytes, cut into chunks in any way and
  followed by anything, and whose own limit admits the length, gets exactly the frame and leaves
  exactly what follows.
\<close>

theorem frame_round_trip:
  assumes "takes_all c" and "length frame \<le> unat limit" and "limit \<le> lengthMask"
    and fits: "length frame \<le> unat limit'"
  shows "\<exists>c' out. writeFrame frame limit c = (None, c') \<and> sent c' = sent c @ out \<and>
    (\<forall>r rest. coming (inbox r) = out @ rest \<longrightarrow>
       (\<exists>r'. readFrame limit' r = (Inr frame, r') \<and> coming (inbox r') = rest \<and>
             ends_with (inbox r') = ends_with (inbox r)))"
proof -
  let ?n = "of_nat (length frame) :: 32 word"
  obtain c' where w: "writeFrame frame limit c = (None, c')"
    using writeFrame_takes_all [OF assms(1,2)] by blast
  have "?n \<le> lengthMask" using of_nat_length_le [OF assms(2,3)] .
  then have n: "?n \<noteq> proofRefusalHeader" "length frame = unat ?n" "?n \<le> limit'"
    using lengthMask_lt unat_of_nat_length [OF assms(2)] fits by (simp_all add: word_le_nat_alt)
  have "\<exists>r'. readFrame limit' r = (Inr frame, r') \<and> coming (inbox r') = rest \<and>
      ends_with (inbox r') = ends_with (inbox r)"
    if "coming (inbox r) = (put_be32 ?n @ frame) @ rest" for r rest
    using that n by (metis append.assoc readFrame_complete)
  then show ?thesis using w writeFrame_ok [OF w] by blast
qed

text \<open>
  What \<^verbatim>\<open>readFrame\<close> answers depends only on the bytes that arrive and on the error that ends
  them, never on how the transport cuts them into reads, for frames, refusals and errors alike.
\<close>

theorem readFrame_chunking:
  assumes "same_stream c d"
  shows "fst (readFrame limit c) = fst (readFrame limit d)"
  using assms by (rule readFrame_same)

text \<open>
  An oversized frame is stopped at both ends. A header above the reader's limit is refused
  with \<^verbatim>\<open>ErrFrameTooLarge\<close> after four bytes, with no byte of the payload read; a writer refuses a
  frame above its limit and sends nothing.
\<close>

theorem oversized_refused:
  assumes "coming (inbox c) = put_be32 n @ rest" and "limit < n" and "n \<noteq> proofRefusalHeader"
    and "unat limit < length frame"
  shows "(\<exists>c'. readFrame limit c = (Inl (Err ErrFrameTooLarge), c') \<and> coming (inbox c') = rest) \<and>
    writeFrame frame limit c = (Some (Err ErrFrameTooLarge), c)"
proof -
  obtain c' where "ReadFull 4 c = (Inr (put_be32 n), c')" "coming (inbox c') = rest"
    using readFrame_header [OF assms(1)] by metis
  then show ?thesis using assms by (simp add: readFrame_def readFrameBody_def writeFrame_def)
qed

text \<open>
  No header the framing writes can be taken for a control word. Every effective limit is
  positive and at most thirty bits, and the header of a frame within it has both flag bits clear,
  so it is not the refusal, closing, accept or unsupported word.
\<close>

theorem frame_header_space:
  "0 < frameLimit l \<and> frameLimit l \<le> lengthMask \<and>
   (\<forall>frame :: bytes. length frame \<le> unat (frameLimit l) \<longrightarrow>
      (let h = of_nat (length frame) :: 32 word in
       \<not> bit h 31 \<and> \<not> bit h 30 \<and> h AND lengthMask = h \<and> unat h = length frame \<and>
       h \<notin> {proofRefusalHeader, sessionClosing, sessionAccept, sessionUnsupported}))"
proof (intro conjI allI impI)
  show "0 < frameLimit l" "frameLimit l \<le> lengthMask" by (rule frameLimit_le)+
  fix frame :: bytes assume len: "length frame \<le> unat (frameLimit l)"
  let ?h = "of_nat (length frame) :: 32 word"
  have "?h \<le> lengthMask" using of_nat_length_le [OF len frameLimit_le(1)] .
  note bits = length_bits [OF this]
  then have "?h \<notin> {proofRefusalHeader, sessionClosing, sessionAccept, sessionUnsupported}"
    using control_bits by auto
  then show "let h = ?h in \<not> bit h 31 \<and> \<not> bit h 30 \<and> h AND lengthMask = h \<and> unat h = length frame \<and>
      h \<notin> {proofRefusalHeader, sessionClosing, sessionAccept, sessionUnsupported}"
    using bits unat_of_nat_length [OF len] by (simp add: Let_def)
qed

text \<open>A writer that takes everything, and a reader whose stream arrives in small chunks.\<close>

definition open_writer :: conn where
  "open_writer = \<lparr>inbox = [], sent = [], accepts = [Takes]\<rparr>"

definition chunked :: "bytes \<Rightarrow> conn" where
  "chunked bs = \<lparr>inbox = map (\<lambda>b. Data [b]) bs, sent = [], accepts = []\<rparr>"

lemma coming_chunked [simp]: "coming (inbox (chunked bs)) = bs"
  by (induction bs) (simp_all add: chunked_def)

lemma ends_with_chunked [simp]: "ends_with (inbox (chunked bs)) = Err EOF"
  by (induction bs) (simp_all add: chunked_def)

theorem frame_round_trip_witness:
  "\<exists>c'. writeFrame [7, 8] 16 open_writer = (None, c') \<and>
     (\<exists>r'. readFrame 2 (chunked (sent c' @ [9])) = (Inr [7, 8], r') \<and> coming (inbox r') = [9])"
proof -
  have h: "takes_all open_writer" "length [7, 8 :: byte] \<le> unat (16 :: 32 word)" "(16 :: 32 word) \<le> lengthMask"
    "length [7, 8 :: byte] \<le> unat (2 :: 32 word)"
    by (simp_all add: takes_all_def open_writer_def wire_defs)
  obtain c' out where w: "writeFrame [7, 8] 16 open_writer = (None, c')" "sent c' = sent open_writer @ out"
    and r: "\<And>r rest. coming (inbox r) = out @ rest \<Longrightarrow>
       \<exists>r'. readFrame 2 r = (Inr [7, 8], r') \<and> coming (inbox r') = rest \<and> ends_with (inbox r') = ends_with (inbox r)"
    using frame_round_trip [OF h] by blast
  have "sent c' = out" using w(2) by (simp add: open_writer_def)
  then show ?thesis using w(1) r [of "chunked (sent c' @ [9])" "[9]"] by auto
qed

theorem readFrame_chunking_witness:
  "fst (readFrame 16 (chunked [0, 0, 0, 1, 5])) =
     fst (readFrame 16 \<lparr>inbox = [Data [0, 0], Data [], Data [0, 1, 5]], sent = [], accepts = []\<rparr>)"
proof (rule readFrame_chunking)
  show "same_stream (chunked [0, 0, 0, 1, 5]) \<lparr>inbox = [Data [0, 0], Data [], Data [0, 1, 5]], sent = [], accepts = []\<rparr>"
    by (simp add: same_stream_def)
qed

theorem oversized_refused_witness:
  "\<exists>c'. readFrame 16 (chunked (put_be32 17 @ [1, 2])) = (Inl (Err ErrFrameTooLarge), c') \<and> coming (inbox c') = [1, 2]"
  using oversized_refused [of "chunked (put_be32 17 @ [1, 2])" 17 "[1, 2]" 16 "replicate 17 0"]
  by (simp add: proofRefusalHeader_def)

theorem frame_header_space_witness:
  "\<not> bit (of_nat (length [1, 2, 3 :: byte]) :: 32 word) 31"
proof -
  have len: "length [1, 2, 3 :: byte] \<le> unat (frameLimit 0)" by (simp add: frameLimit_def DefaultMaxFrame_def)
  show ?thesis using frame_header_space [of 0] len unfolding Let_def by blast
qed

subsection \<open>Refusals over the wire\<close>

text \<open>What a refusal tells the caller: an attribute and the rung required, or nothing.\<close>

definition disclosed :: "go_error \<Rightarrow> string \<times> Proof" where
  "disclosed err =
     (case proof_errors err of
        [] \<Rightarrow> ([], 0)
      | pe # _ \<Rightarrow>
          if peAttribute pe \<in> set (tl proofAttributes) \<and> ProofNone < peWant pe \<and> peWant pe \<le> ProofSigned
          then (peAttribute pe, peWant pe) else ([], 0))"

lemma refusal_tokens_disclosed:
  obtains i r where
    "(case proof_errors err of [] \<Rightarrow> [0, 0] | pe # _ \<Rightarrow> refusal_tokens 0 proofAttributes pe) = [i, r]"
    "unat i < length proofAttributes" "r \<le> ProofSigned" "(i = 0) = (r = 0)"
    "disclosed err = (proofAttributes ! unat i, r)"
proof (cases "proof_errors err")
  case Nil
  then show ?thesis using that [of 0 0] by (simp add: disclosed_def proofAttributes_def ProofSigned_def)
next
  case (Cons pe pes)
  let ?ok = "ProofNone < peWant pe \<and> peWant pe \<le> ProofSigned"
  let ?at = "\<lambda>i :: byte. proofAttributes ! unat i = peAttribute pe \<and> ?ok \<and> unat i < 6 \<and> i \<noteq> 0"
  show ?thesis
  proof (cases "peAttribute pe \<in> set (tl proofAttributes) \<and> ?ok")
    case True
    then have nz: "peWant pe \<noteq> 0" by (auto simp: ProofNone_def)
    from True have "peAttribute pe = ''user'' \<or> peAttribute pe = ''process'' \<or> peAttribute pe = ''path'' \<or>
        peAttribute pe = ''package'' \<or> peAttribute pe = ''code''"
      by (simp add: proofAttributes_def)
    then show ?thesis
      using Cons True nz that [of 1 "peWant pe"] that [of 2 "peWant pe"] that [of 3 "peWant pe"]
        that [of 4 "peWant pe"] that [of 5 "peWant pe"]
      by (elim disjE) (simp_all add: disclosed_def proofAttributes_def)
  next
    case False
    then have "refusal_tokens 0 proofAttributes pe = [0, 0]" "disclosed err = ([], 0)"
      using Cons by (auto simp: disclosed_def proofAttributes_def)
    then show ?thesis using Cons that [of 0 0] by (simp add: proofAttributes_def ProofSigned_def)
  qed
qed

lemma readProofRefusal_tokens:
  assumes "coming (inbox c) = [i, r] @ rest" "unat i < length proofAttributes" "r \<le> ProofSigned" "(i = 0) = (r = 0)"
  shows "\<exists>c'. readProofRefusal c = (ProofRefusal (proofAttributes ! unat i) r, c') \<and> coming (inbox c') = rest"
proof -
  obtain c' where "ReadFull 2 c = (Inr [i, r], c')" "coming (inbox c') = rest"
    using ReadFull_enough [of 2 c] assms(1) by (auto simp: numeral_2_eq_2)
  then show ?thesis using assms(2-4) by (simp add: readProofRefusal_def Let_def not_less not_le)
qed

text \<open>
  A refusal sent is the refusal read. Whatever error the receiver reports, six bytes go out,
  and a client that reads them in place of a frame gets a \<^verbatim>\<open>ProofRefusal\<close> with the attribute and
  the required rung of the error's first \<^verbatim>\<open>ProofError\<close>, when these are in the fixed vocabulary,
  and an empty one otherwise. It matches \<^verbatim>\<open>ErrNotProven\<close>.
\<close>

theorem refusal_round_trip:
  assumes "takes_all c"
  shows "\<exists>c' out. sendProofRefusal err c = (None, c') \<and> sent c' = sent c @ out \<and> length out = 6 \<and>
    (\<forall>r rest limit. coming (inbox r) = out @ rest \<longrightarrow>
       (\<exists>r'. readFrame limit r = (Inl (ProofRefusal (fst (disclosed err)) (snd (disclosed err))), r') \<and>
             coming (inbox r') = rest)) \<and>
    errors_is (ProofRefusal (fst (disclosed err)) (snd (disclosed err))) (Err ErrNotProven)"
proof -
  obtain i r where t: "(case proof_errors err of [] \<Rightarrow> [0, 0] | pe # _ \<Rightarrow> refusal_tokens 0 proofAttributes pe) = [i, r]"
    "unat i < length proofAttributes" "r \<le> ProofSigned" "(i = 0) = (r = 0)"
    "disclosed err = (proofAttributes ! unat i, r)"
    by (rule refusal_tokens_disclosed)
  have out: "proofRefusalBytes err = put_be32 proofRefusalHeader @ [i, r]"
    using t(1) by (simp add: proofRefusalBytes_def)
  have rd: "\<exists>c'. readFrame limit q = (Inl (ProofRefusal (proofAttributes ! unat i) r), c') \<and> coming (inbox c') = rest"
    if q: "coming (inbox q) = put_be32 proofRefusalHeader @ [i, r] @ rest" for q rest limit
  proof -
    obtain q1 where "ReadFull 4 q = (Inr (put_be32 proofRefusalHeader), q1)" "coming (inbox q1) = [i, r] @ rest"
      using readFrame_header [OF q] by metis
    then show ?thesis using readProofRefusal_tokens [of q1 i r rest] t(2-4) by (auto simp: readFrame_def)
  qed
  obtain c' where "sendProofRefusal err c = (None, c')" "sent c' = sent c @ proofRefusalBytes err"
    using writeAll_takes_all [OF assms, of "proofRefusalBytes err"] by (metis sendProofRefusal_def)
  then show ?thesis using rd t(5) by (auto simp: out)
qed

theorem refusal_round_trip_witness:
  "\<exists>r'. readFrame 16 (chunked (proofRefusalBytes
       (Joined [ProofErr \<lparr>peAttribute = ''path'', peWant = ProofBound, peGot = ProofPID, peWhy = ''private''\<rparr>]))) =
     (Inl (ProofRefusal ''path'' ProofBound), r')"
proof -
  let ?e = "Joined [ProofErr \<lparr>peAttribute = ''path'', peWant = ProofBound, peGot = ProofPID, peWhy = ''private''\<rparr>]"
  have c: "takes_all open_writer" by (simp add: takes_all_def open_writer_def)
  obtain c' out where s: "sendProofRefusal ?e open_writer = (None, c')" "sent c' = sent open_writer @ out"
    and r: "\<And>r rest limit. coming (inbox r) = out @ rest \<Longrightarrow>
      \<exists>r'. readFrame limit r = (Inl (ProofRefusal (fst (disclosed ?e)) (snd (disclosed ?e))), r')"
    using refusal_round_trip [OF c, of ?e] by blast
  have "sent c' = proofRefusalBytes ?e"
    using writeAll_takes_all [OF c, of "proofRefusalBytes ?e"] s(1)
    by (auto simp: sendProofRefusal_def open_writer_def)
  then have "out = proofRefusalBytes ?e" using s(2) by (simp add: open_writer_def)
  moreover have "disclosed ?e = (''path'', ProofBound)"
    by (simp add: disclosed_def proofAttributes_def rung_defs)
  ultimately show ?thesis using r [of "chunked (proofRefusalBytes ?e)" "[]"] by simp
qed

text \<open>
  C6: a refusal discloses only policy vocabulary. Two refusals whose first \<^verbatim>\<open>ProofError\<close>s name the
  same attribute and the same required rung are the same six bytes, whatever proof was observed,
  whatever explanation the platform gave and whatever else failed.
\<close>

theorem refusal_discloses_only_policy:
  assumes "proof_errors e = pe # pes" and "proof_errors e' = pe' # pes'"
    and "peAttribute pe = peAttribute pe'" and "peWant pe = peWant pe'"
  shows "proofRefusalBytes e = proofRefusalBytes e'"
proof -
  have "refusal_tokens i xs pe = refusal_tokens i xs pe'" for i xs
    by (induction xs arbitrary: i) (simp_all add: assms)
  then show ?thesis by (simp add: proofRefusalBytes_def assms)
qed

theorem refusal_discloses_only_policy_witness:
  "proofRefusalBytes (ProofErr \<lparr>peAttribute = ''user'', peWant = 7, peGot = 0, peWhy = ''no token''\<rparr>) =
   proofRefusalBytes (Joined [ProofErr \<lparr>peAttribute = ''user'', peWant = 7, peGot = 5, peWhy = []\<rparr>, Err ErrClosed])"
  by (rule refusal_discloses_only_policy
      [of _ "\<lparr>peAttribute = ''user'', peWant = 7, peGot = 0, peWhy = ''no token''\<rparr>" "[]" _
        "\<lparr>peAttribute = ''user'', peWant = 7, peGot = 5, peWhy = []\<rparr>" "[]"]) simp_all

end
