(* ===== verification/Session_Call.thy ===== *)
theory Session_Call
  imports Framing
begin

section \<open>One exchange on a session connection (listen/session.go, sessionCall)\<close>

text \<open>
  A session connection carries several exchanges; each is handed to the service as a
  \<^verbatim>\<open>sessionCall\<close>, a connection of its own over the shared one. Its mutex makes \<^verbatim>\<open>Write\<close> one atomic
  step and splits \<^verbatim>\<open>Read\<close> and \<^verbatim>\<open>Close\<close> into two, since the lock is given up while the shared
  connection is read and while \<^verbatim>\<open>Close\<close> waits for such a read to end. Whether the session's
  binding has expired and whether the session is retiring can change at any moment, so every step
  takes the answer it sees as an argument.

  The array \<^verbatim>\<open>out\<close> with its fill position is the list of the bytes filled so far. At most one
  read is in progress, as in every use the package makes of a call.
\<close>

record sessionCall =
  scHeader :: bytes
  scHeaderAt :: nat
  scRemaining :: "32 word"
  scOneWay :: bool
  scOut :: bytes
  scOutLeft :: "32 word"
  scReplied :: bool
  scContinued :: bool
  scClosed :: bool
  scBroken :: bool
  scReading :: nat

text \<open>The call \<^verbatim>\<open>session.run\<close> makes for a request header.\<close>

definition new_call :: "32 word \<Rightarrow> sessionCall" where
  "new_call header =
     \<lparr>scHeader = put_be32 (header AND lengthMask), scHeaderAt = 0, scRemaining = header AND lengthMask,
      scOneWay = (header AND oneWayFlag \<noteq> 0), scOut = [], scOutLeft = 0, scReplied = False,
      scContinued = False, scClosed = False, scBroken = False, scReading = 0\<rparr>"

subsection \<open>Read\<close>

text \<open>
  The first half of \<^verbatim>\<open>Read\<close> either answers at once or goes on to read at most \<open>m\<close> bytes of the
  shared connection; the flag is \<^verbatim>\<open>readingRequest\<close>.
\<close>

datatype read_phase = Answered bytes error | Reads nat bool

definition call_read_begin :: "bool \<Rightarrow> nat \<Rightarrow> sessionCall \<Rightarrow> read_phase \<times> sessionCall" where
  "call_read_begin expired k c =
     (if scClosed c then (Answered [] (Some (Err ErrClosed)), c)
      else if scHeaderAt c < length (scHeader c) then
        (if expired then (Answered [] (Some (Err ErrSessionExpired)), c\<lparr>scBroken := True\<rparr>)
         else (let bs = take k (drop (scHeaderAt c) (scHeader c))
               in (Answered bs None, c\<lparr>scHeaderAt := scHeaderAt c + length bs\<rparr>)))
      else if 0 < scRemaining c then
        (if expired then (Answered [] (Some (Err ErrSessionExpired)), c\<lparr>scBroken := True\<rparr>)
         else (Reads (min k (unat (scRemaining c))) True, c\<lparr>scReading := scReading c + 1\<rparr>))
      else if scReplied c then (Answered [] (Some (Err EOF)), c)
      else (Reads (min k 1) False, c\<lparr>scReading := scReading c + 1\<rparr>))"

definition call_read_finish :: "bool \<Rightarrow> bool \<Rightarrow> bytes \<Rightarrow> error \<Rightarrow> sessionCall \<Rightarrow> bytes \<times> error \<times> sessionCall" where
  "call_read_finish expired readingRequest bs err c0 =
     (let c = c0\<lparr>scReading := scReading c0 - 1\<rparr> in
      if readingRequest \<and> expired then ([], Some (Err ErrSessionExpired), c\<lparr>scBroken := True\<rparr>)
      else if \<not> 0 < scRemaining c \<and> bs \<noteq> [] then (bs, None, c\<lparr>scBroken := True\<rparr>)
      else
        (let c = (if 0 < scRemaining c then c\<lparr>scRemaining := scRemaining c - of_nat (length bs)\<rparr> else c);
             c = (if err \<noteq> None \<and> \<not> IsTimeout err then c\<lparr>scBroken := True\<rparr> else c)
         in (bs, err, c)))"

subsection \<open>Write\<close>

text \<open>The last part of \<^verbatim>\<open>Write\<close>, for what is left of the buffer once the header is complete.\<close>

definition call_write_rest :: "nat \<Rightarrow> bytes \<Rightarrow> sessionCall \<Rightarrow> conn \<Rightarrow> nat \<times> error \<times> sessionCall \<times> conn" where
  "call_write_rest written p c pc =
     (let (stop, written, p, c, pc) =
        (if p \<noteq> [] \<and> 0 < scOutLeft c then
           (case conn_write (take (min (length p) (unat (scOutLeft c))) p) pc of
              (n, err, pc') \<Rightarrow>
                (let c' = c\<lparr>scOutLeft := scOutLeft c - word_of_int n\<rparr> in
                 if err \<noteq> None then (err, written + nat n, p, c'\<lparr>scBroken := True\<rparr>, pc')
                 else (None, written + nat n, drop (nat n) p, c', pc')))
         else (None, written, p, c, pc))
      in if stop \<noteq> None then (written, stop, c, pc)
         else
           (let c = (if scOutLeft c = 0 then c\<lparr>scReplied := True\<rparr> else c) in
            if p \<noteq> [] then (written, Some (Err ErrSessionProtocol), c\<lparr>scBroken := True\<rparr>, pc)
            else (written, None, c, pc)))"

text \<open>The part of \<^verbatim>\<open>Write\<close> that runs once, when the four header bytes are complete.\<close>

definition call_write_header :: "bool \<Rightarrow> nat \<Rightarrow> bytes \<Rightarrow> sessionCall \<Rightarrow> conn \<Rightarrow> nat \<times> error \<times> sessionCall \<times> conn" where
  "call_write_header retiring written p c pc =
     (let len = uint32_be (scOut c) in
      if lengthMask < len then (written, Some (Err ErrFrameTooLarge), c\<lparr>scBroken := True\<rparr>, pc)
      else
        (let hd = (if retiring then len else len OR sessionFlag);
             body = take (min (length p) (unat len)) p;
             (m, err, pc') = conn_write (put_be32 hd @ body) pc
         in if err \<noteq> None then (written, err, c\<lparr>scOutLeft := len, scBroken := True\<rparr>, pc')
            else call_write_rest (written + length body) (drop (length body) p)
                   (c\<lparr>scOutLeft := len - of_nat (length body), scContinued := (hd AND sessionFlag \<noteq> 0)\<rparr>) pc'))"

definition call_write :: "bool \<Rightarrow> bytes \<Rightarrow> sessionCall \<Rightarrow> conn \<Rightarrow> nat \<times> error \<times> sessionCall \<times> conn" where
  "call_write retiring p c pc =
     (if scClosed c then (0, Some (Err ErrClosed), c, pc)
      else if scOneWay c then (0, Some (Err ErrUnexpectedResponse), c\<lparr>scBroken := True\<rparr>, pc)
      else if length (scOut c) < 4 then
        (let n = min (4 - length (scOut c)) (length p);
             out = scOut c @ take n p
         in if length out < 4 then (n, None, c\<lparr>scOut := out\<rparr>, pc)
            else call_write_header retiring n (drop n p) (c\<lparr>scOut := out\<rparr>) pc)
      else call_write_rest 0 p c pc)"

subsection \<open>Close and refusal\<close>

definition call_close_begin :: "sessionCall \<Rightarrow> sessionCall" where
  "call_close_begin c = c\<lparr>scClosed := True\<rparr>"

text \<open>The rest of \<^verbatim>\<open>Close\<close>, once no read is in progress.\<close>

definition call_close_finish :: "bool \<Rightarrow> sessionCall \<Rightarrow> conn \<Rightarrow> sessionCall \<times> conn" where
  "call_close_finish retiring c pc =
     (if scBroken c then (c, pc)
      else if scHeaderAt c < length (scHeader c) \<or> 0 < scRemaining c then (c\<lparr>scBroken := True\<rparr>, pc)
      else if scOneWay c then
        (let complete = (if retiring then 0 else sessionFlag) in
         case writeUint32 complete pc of
           (Some err, pc') \<Rightarrow> (c\<lparr>scBroken := True, scContinued := (complete \<noteq> 0)\<rparr>, pc')
         | (None, pc') \<Rightarrow> (c\<lparr>scContinued := (complete \<noteq> 0)\<rparr>, pc'))
      else if \<not> scReplied c then (c\<lparr>scBroken := True\<rparr>, pc)
      else (c, pc))"

definition refuseProof :: "go_error \<Rightarrow> sessionCall \<Rightarrow> conn \<Rightarrow> error \<times> sessionCall \<times> conn" where
  "refuseProof err c pc =
     (if scClosed c then (Some (Err ErrClosed), c, pc)
      else (case sendProofRefusal err pc of (e, pc') \<Rightarrow> (e, c\<lparr>scBroken := True\<rparr>, pc')))"

subsection \<open>All interleavings\<close>

record exchange =
  xCall :: sessionCall
  xConn :: conn
  xPending :: "(nat \<times> bool) option"
  xDone :: bool

inductive call_step :: "exchange \<Rightarrow> exchange \<Rightarrow> bool" where
  read_begin:
    "xPending x = None \<Longrightarrow> call_read_begin expired k (xCall x) = (Answered bs err, c) \<Longrightarrow>
     call_step x (x\<lparr>xCall := c\<rparr>)"
| read_blocks:
    "xPending x = None \<Longrightarrow> call_read_begin expired k (xCall x) = (Reads m rr, c) \<Longrightarrow>
     call_step x (x\<lparr>xCall := c, xPending := Some (m, rr)\<rparr>)"
| read_finish:
    "xPending x = Some (m, rr) \<Longrightarrow> conn_read m (xConn x) = (bs, err, pc) \<Longrightarrow>
     call_read_finish expired rr bs err (xCall x) = (bs', err', c) \<Longrightarrow>
     call_step x (x\<lparr>xCall := c, xConn := pc, xPending := None\<rparr>)"
| write_step:
    "call_write retiring p (xCall x) (xConn x) = (n, err, c, pc) \<Longrightarrow>
     call_step x (x\<lparr>xCall := c, xConn := pc\<rparr>)"
| refuse:
    "refuseProof e (xCall x) (xConn x) = (err, c, pc) \<Longrightarrow> call_step x (x\<lparr>xCall := c, xConn := pc\<rparr>)"
| close_begin:
    "\<not> scClosed (xCall x) \<Longrightarrow> call_step x (x\<lparr>xCall := call_close_begin (xCall x)\<rparr>)"
| close_finish:
    "scClosed (xCall x) \<Longrightarrow> \<not> xDone x \<Longrightarrow> xPending x = None \<Longrightarrow>
     call_close_finish retiring (xCall x) (xConn x) = (c, pc) \<Longrightarrow>
     call_step x (x\<lparr>xCall := c, xConn := pc, xDone := True\<rparr>)"

definition start_exchange :: "32 word \<Rightarrow> conn \<Rightarrow> exchange" where
  "start_exchange header pc = \<lparr>xCall = new_call header, xConn = pc, xPending = None, xDone = False\<rparr>"

definition reaches :: "exchange \<Rightarrow> exchange \<Rightarrow> bool" where
  "reaches = call_step\<^sup>*\<^sup>*"

subsection \<open>What an exchange leaves of the connection\<close>

lemma unat_minus_of_nat:
  fixes w :: "32 word" assumes "n \<le> unat w"
  shows "unat (w - of_nat n) = unat w - n"
proof -
  have "unat w < 2 ^ LENGTH(32)" by (rule unsigned_less)
  then have n: "unat (of_nat n :: 32 word) = n" using assms by (simp add: unsigned_of_nat take_bit_nat_eq_self)
  then have "(of_nat n :: 32 word) \<le> w" using assms by (simp add: word_le_nat_alt)
  then show ?thesis using n by (simp add: unat_sub)
qed

text \<open>The reply as far as it was written: \<open>s0\<close> was sent before the exchange.\<close>

definition reply_so_far :: "bytes \<Rightarrow> sessionCall \<Rightarrow> bytes \<Rightarrow> bool" where
  "reply_so_far s0 c s \<longleftrightarrow>
     (if length (scOut c) < 4 then s = s0 \<and> \<not> scReplied c \<and> \<not> scContinued c
      else uint32_be (scOut c) \<le> lengthMask \<and>
        (\<exists>body. s = s0 @ put_be32 (if scContinued c then uint32_be (scOut c) OR sessionFlag else uint32_be (scOut c)) @ body \<and>
           length body + unat (scOutLeft c) = unat (uint32_be (scOut c))) \<and>
        (scReplied c \<longrightarrow> scOutLeft c = 0))"

lemma call_write_rest_keeps:
  assumes "call_write_rest w p c pc = (n, err, c', pc')"
  shows "scHeader c' = scHeader c \<and> scHeaderAt c' = scHeaderAt c \<and> scRemaining c' = scRemaining c \<and>
    scOneWay c' = scOneWay c \<and> scOut c' = scOut c \<and> scContinued c' = scContinued c \<and> scClosed c' = scClosed c \<and>
    scReading c' = scReading c \<and> (scBroken c \<longrightarrow> scBroken c') \<and> inbox pc' = inbox pc \<and>
    (writer_contract pc \<longrightarrow> writer_contract pc')"
  using assms
  by (auto simp: call_write_rest_def Let_def split: prod.splits if_splits dest: conn_write_frame)

lemma call_write_rest_reply:
  assumes w: "call_write_rest w p c pc = (n, err, c', pc')" and ok: "\<not> scBroken c'"
    and pc: "writer_contract pc" and len: "\<not> length (scOut c) < 4" and r: "reply_so_far s0 c (sent pc)"
  shows "reply_so_far s0 c' (sent pc')"
proof (cases "p \<noteq> [] \<and> 0 < scOutLeft c")
  case True
  let ?q = "take (min (length p) (unat (scOutLeft c))) p"
  obtain m e pc1 where cw: "conn_write ?q pc = (m, e, pc1)" by (cases "conn_write ?q pc")
  have e: "e = None" using w ok True cw by (auto simp: call_write_rest_def Let_def split: if_splits)
  have m: "m = int (length ?q)" "sent pc1 = sent pc @ ?q"
    using conn_write_None [of ?q pc m pc1] cw e pc by auto
  have "unat (scOutLeft c - word_of_int m) = unat (scOutLeft c) - length ?q"
    using unat_minus_of_nat [of "length ?q" "scOutLeft c"] by (simp add: m)
  then have u: "length ?q + unat (scOutLeft c - word_of_int m) = unat (scOutLeft c)" by simp
  have c': "scOutLeft c' = scOutLeft c - word_of_int m" "pc' = pc1"
    using w True cw e by (auto simp: call_write_rest_def Let_def split: if_splits)
  have rep: "scReplied c' \<longrightarrow> scOutLeft c' = 0"
    using w True cw e r len by (auto simp: call_write_rest_def Let_def reply_so_far_def split: if_splits)
  obtain body where b: "sent pc = s0 @ put_be32 (if scContinued c then uint32_be (scOut c) OR sessionFlag
      else uint32_be (scOut c)) @ body" "length body + unat (scOutLeft c) = unat (uint32_be (scOut c))"
    and l: "uint32_be (scOut c) \<le> lengthMask"
    using r len by (auto simp: reply_so_far_def)
  have "length (body @ ?q) + unat (scOutLeft c') = unat (uint32_be (scOut c))" using b(2) u c' by simp
  then show ?thesis
    using call_write_rest_keeps [OF w] len l rep b(1) m(2) c'
    by (auto simp: reply_so_far_def intro!: exI [of _ "body @ ?q"])
next
  case False
  then have "pc' = pc" "scOutLeft c' = scOutLeft c" "scReplied c' \<longrightarrow> scOutLeft c' = 0 \<or> scReplied c"
    using w by (auto simp: call_write_rest_def Let_def split: if_splits)
  then show ?thesis using call_write_rest_keeps [OF w] r len by (auto simp: reply_so_far_def)
qed

lemma call_write_header_cases:
  assumes w: "call_write_header retiring k p c pc = (n, err, c', pc')"
  obtains (large) "c' = c\<lparr>scBroken := True\<rparr>" "pc' = pc"
  | (failed) bs m e where "conn_write bs pc = (m, Some e, pc')"
      "c' = c\<lparr>scOutLeft := uint32_be (scOut c), scBroken := True\<rparr>"
  | (sent) hd body m pc1 r where "uint32_be (scOut c) \<le> lengthMask"
      "hd = (if retiring then uint32_be (scOut c) else uint32_be (scOut c) OR sessionFlag)"
      "length body \<le> unat (uint32_be (scOut c))" "conn_write (put_be32 hd @ body) pc = (m, None, pc1)"
      "call_write_rest (k + length body) r (c\<lparr>scOutLeft := uint32_be (scOut c) - of_nat (length body),
          scContinued := (hd AND sessionFlag \<noteq> 0)\<rparr>) pc1 = (n, err, c', pc')"
proof (cases "lengthMask < uint32_be (scOut c)")
  case True
  then have "c' = c\<lparr>scBroken := True\<rparr>" "pc' = pc" using w by (simp_all add: call_write_header_def)
  then show ?thesis by (rule large)
next
  case False
  define len where "len = uint32_be (scOut c)"
  define hd where "hd = (if retiring then len else len OR sessionFlag)"
  define body where "body = take (min (length p) (unat len)) p"
  obtain m e pc1 where cw: "conn_write (put_be32 hd @ body) pc = (m, e, pc1)"
    by (cases "conn_write (put_be32 hd @ body) pc")
  have r: "(if e \<noteq> None then (k, e, c\<lparr>scOutLeft := len, scBroken := True\<rparr>, pc1)
      else call_write_rest (k + length body) (drop (length body) p)
        (c\<lparr>scOutLeft := len - of_nat (length body), scContinued := (hd AND sessionFlag \<noteq> 0)\<rparr>) pc1) = (n, err, c', pc')"
    using w False cw unfolding call_write_header_def Let_def len_def [symmetric] hd_def [symmetric] body_def [symmetric]
    by simp
  show ?thesis
  proof (cases e)
    case None
    have "uint32_be (scOut c) \<le> lengthMask" "length body \<le> unat (uint32_be (scOut c))"
      using False by (simp_all add: body_def len_def not_less)
    moreover have "call_write_rest (k + length body) (drop (length body) p)
        (c\<lparr>scOutLeft := uint32_be (scOut c) - of_nat (length body), scContinued := (hd AND sessionFlag \<noteq> 0)\<rparr>) pc1
        = (n, err, c', pc')"
      using r None by (simp add: len_def [symmetric])
    ultimately show ?thesis by (intro sent [OF _ hd_def [unfolded len_def] _ cw [unfolded None]])
  next
    case (Some x)
    then have "pc' = pc1" "c' = c\<lparr>scOutLeft := uint32_be (scOut c), scBroken := True\<rparr>"
      using r by (simp_all add: len_def)
    with cw Some show ?thesis by (intro failed) simp_all
  qed
qed

lemma call_write_header_keeps:
  assumes "call_write_header retiring k p c pc = (n, err, c', pc')"
  shows "scHeader c' = scHeader c \<and> scHeaderAt c' = scHeaderAt c \<and> scRemaining c' = scRemaining c \<and>
    scOneWay c' = scOneWay c \<and> scOut c' = scOut c \<and> scClosed c' = scClosed c \<and> scReading c' = scReading c \<and>
    (scBroken c \<longrightarrow> scBroken c') \<and> inbox pc' = inbox pc \<and> (writer_contract pc \<longrightarrow> writer_contract pc')"
  using assms
proof (cases rule: call_write_header_cases)
  case (failed bs m e)
  then show ?thesis using conn_write_frame [OF failed(1)] by simp
next
  case (sent hd body m pc1 r)
  then show ?thesis using conn_write_frame [OF sent(4)] call_write_rest_keeps [OF sent(5)] by simp
qed simp_all

lemma call_write_keeps:
  assumes "call_write retiring p c pc = (n, err, c', pc')"
  shows "scHeader c' = scHeader c \<and> scHeaderAt c' = scHeaderAt c \<and> scRemaining c' = scRemaining c \<and>
    scOneWay c' = scOneWay c \<and> scClosed c' = scClosed c \<and> scReading c' = scReading c \<and>
    (scBroken c \<longrightarrow> scBroken c') \<and> inbox pc' = inbox pc \<and> (writer_contract pc \<longrightarrow> writer_contract pc') \<and>
    (length (scOut c) \<le> 4 \<longrightarrow> length (scOut c') \<le> 4)"
  using assms
  by (auto simp: call_write_def Let_def split: if_splits dest!: call_write_header_keeps call_write_rest_keeps)

lemma bit_sessionFlag: "bit sessionFlag n \<longleftrightarrow> n = 31"
  unfolding sessionFlag_def bit_push_bit_iff bit_1_iff by auto

lemma flag_set: "len \<le> lengthMask \<Longrightarrow> (len OR sessionFlag) AND sessionFlag \<noteq> 0"
proof
  assume "(len OR sessionFlag) AND sessionFlag = 0"
  then have "bit ((len OR sessionFlag) AND sessionFlag) 31 = bit (0 :: 32 word) 31" by simp
  then show False by (simp add: bit_and_iff bit_or_iff bit_sessionFlag)
qed

lemma flag_clear: "len \<le> lengthMask \<Longrightarrow> len AND sessionFlag = 0"
  using length_bits(1) [of len]
  by (auto intro!: bit_word_eqI simp: bit_and_iff bit_sessionFlag)

lemma call_write_reply:
  assumes w: "call_write retiring p c pc = (n, err, c', pc')" and ok: "\<not> scBroken c'"
    and pc: "writer_contract pc" and r: "reply_so_far s0 c (sent pc)" and ow: "\<not> scOneWay c"
  shows "reply_so_far s0 c' (sent pc')"
proof (cases "scClosed c \<or> \<not> length (scOut c) < 4")
  case True
  then show ?thesis
    using w r ow call_write_rest_reply [OF _ ok pc _ r, of 0 p n err pc']
    by (cases "scClosed c") (simp_all add: call_write_def)
next
  case False
  define k where "k = min (4 - length (scOut c)) (length p)"
  define out where "out = scOut c @ take k p"
  have s: "sent pc = s0" "\<not> scReplied c" "\<not> scContinued c" using r False by (simp_all add: reply_so_far_def)
  have "call_write retiring p c pc = (if length out < 4 then (k, None, c\<lparr>scOut := out\<rparr>, pc)
      else call_write_header retiring k (drop k p) (c\<lparr>scOut := out\<rparr>) pc)"
    unfolding k_def out_def call_write_def Let_def using False ow by simp
  then have w': "(if length out < 4 then (k, None, c\<lparr>scOut := out\<rparr>, pc)
      else call_write_header retiring k (drop k p) (c\<lparr>scOut := out\<rparr>) pc) = (n, err, c', pc')"
    using w by simp
  show ?thesis
  proof (cases "length out < 4")
    case True
    then show ?thesis using w' s by (auto simp: reply_so_far_def)
  next
    case full: False
    then have "call_write_header retiring k (drop k p) (c\<lparr>scOut := out\<rparr>) pc = (n, err, c', pc')" using w' by simp
    then show ?thesis
    proof (cases rule: call_write_header_cases)
      case (sent hd body m pc1 r)
      let ?c = "c\<lparr>scOut := out, scOutLeft := uint32_be out - of_nat (length body), scContinued := (hd AND sessionFlag \<noteq> 0)\<rparr>"
      have l: "uint32_be out \<le> lengthMask" "length body \<le> unat (uint32_be out)"
        using sent by simp_all
      then have hd: "hd = (if scContinued ?c then uint32_be out OR sessionFlag else uint32_be out)"
        using sent(2) flag_set [OF l(1)] flag_clear [OF l(1)] by (cases retiring) simp_all
      have pc1: "sent pc1 = sent pc @ put_be32 hd @ body" "writer_contract pc1"
        using conn_write_None [OF sent(4) pc] by simp_all
      have "reply_so_far s0 ?c (sent pc1)"
        using full l s hd pc1(1) unat_minus_of_nat [OF l(2)] by (auto simp: reply_so_far_def)
      then show ?thesis
        using call_write_rest_reply [OF sent(5) ok pc1(2)] full by simp
    qed (use ok in simp_all)
  qed
qed

subsection \<open>The invariant of an exchange\<close>

definition pending_ok :: "(nat \<times> bool) option \<Rightarrow> 32 word \<Rightarrow> bool" where
  "pending_ok pd remaining =
     (case pd of
        None \<Rightarrow> True
      | Some (m, rr) \<Rightarrow> (if rr then m \<le> unat remaining \<and> 0 < remaining else remaining = 0))"

text \<open>
  As long as the exchange is not broken: the bytes taken off the connection are the request's,
  counted down by \<^verbatim>\<open>remaining\<close>, and the bytes put on it are the reply so far, or, once a one-way
  exchange is done, its completion word.
\<close>

definition sync_ok :: "32 word \<Rightarrow> conn \<Rightarrow> bool \<Rightarrow> sessionCall \<Rightarrow> conn \<Rightarrow> bool" where
  "sync_ok header pc0 fin c pc \<longleftrightarrow>
     (\<exists>got. payload (inbox pc0) = got @ payload (inbox pc) \<and>
            length got + unat (scRemaining c) = unat (header AND lengthMask)) \<and>
     (if scOneWay c
      then sent pc = sent pc0 @ (if fin then put_be32 (if scContinued c then sessionFlag else 0) else []) \<and>
           (\<not> fin \<longrightarrow> \<not> scContinued c)
      else reply_so_far (sent pc0) c (sent pc)) \<and>
     (fin \<longrightarrow> scRemaining c = 0 \<and> (scOneWay c \<or> scReplied c))"

definition in_sync :: "32 word \<Rightarrow> conn \<Rightarrow> exchange \<Rightarrow> bool" where
  "in_sync header pc0 x \<longleftrightarrow>
     writer_contract (xConn x) \<and> pending_ok (xPending x) (scRemaining (xCall x)) \<and>
     scOneWay (xCall x) = (header AND oneWayFlag \<noteq> 0) \<and>
     (xDone x \<longrightarrow> scClosed (xCall x) \<and> xPending x = None) \<and>
     (\<not> scBroken (xCall x) \<longrightarrow> sync_ok header pc0 (xDone x) (xCall x) (xConn x))"

lemma call_read_begin_keeps:
  assumes "call_read_begin expired k c = (ph, c')"
  shows "scOneWay c' = scOneWay c \<and> scHeader c' = scHeader c \<and> scRemaining c' = scRemaining c \<and>
    scOut c' = scOut c \<and> scOutLeft c' = scOutLeft c \<and> scReplied c' = scReplied c \<and>
    scContinued c' = scContinued c \<and> scClosed c' = scClosed c \<and> (scBroken c \<longrightarrow> scBroken c') \<and>
    (case ph of Reads m rr \<Rightarrow> \<not> scClosed c \<and> (if rr then m \<le> unat (scRemaining c) \<and> 0 < scRemaining c else scRemaining c = 0)
     | Answered _ _ \<Rightarrow> True)"
  using assms by (auto simp: call_read_begin_def Let_def word_gt_0 split: if_splits)

lemma call_read_finish_keeps:
  assumes "call_read_finish expired rr bs err c = (bs', err', c')"
  shows "scOneWay c' = scOneWay c \<and> scHeader c' = scHeader c \<and> scOut c' = scOut c \<and>
    scOutLeft c' = scOutLeft c \<and> scReplied c' = scReplied c \<and> scContinued c' = scContinued c \<and>
    scClosed c' = scClosed c \<and> (scBroken c \<longrightarrow> scBroken c') \<and>
    (\<not> scBroken c' \<longrightarrow> (if 0 < scRemaining c then scRemaining c' = scRemaining c - of_nat (length bs)
                       else bs = [] \<and> scRemaining c' = scRemaining c))"
  using assms by (auto simp: call_read_finish_def Let_def split: if_splits)

lemma writeAll_contract: "writeAll b c = (err, c') \<Longrightarrow> writer_contract c \<Longrightarrow> writer_contract c'"
proof (induction b c arbitrary: err c' rule: writeAll.induct)
  case (1 b c)
  show ?case
  proof (cases "b = []")
    case True
    then show ?thesis using 1(2,3) by (simp add: writeAll.simps)
  next
    case False
    obtain n e c1 where w: "conn_write b c = (n, e, c1)" by (cases "conn_write b c")
    then have "writer_contract c1" using 1(3) conn_write_frame by blast
    then show ?thesis
      using 1(1) [OF False w [symmetric] refl] 1(2) False w
      by (subst (asm) (2) writeAll.simps) (auto split: if_splits)
  qed
qed

lemma reply_so_far_cong:
  "scOut c' = scOut c \<Longrightarrow> scOutLeft c' = scOutLeft c \<Longrightarrow> scReplied c' = scReplied c \<Longrightarrow>
   scContinued c' = scContinued c \<Longrightarrow> reply_so_far s0 c' s = reply_so_far s0 c s"
  by (simp add: reply_so_far_def)

lemma sync_ok_cong:
  assumes "scRemaining c' = scRemaining c" "scOneWay c' = scOneWay c" "scOut c' = scOut c"
    "scOutLeft c' = scOutLeft c" "scReplied c' = scReplied c" "scContinued c' = scContinued c"
  shows "sync_ok header pc0 fin c' pc = sync_ok header pc0 fin c pc"
  using assms reply_so_far_cong [of c' c] by (simp add: sync_ok_def)

lemma in_sync_start: "writer_contract pc \<Longrightarrow> in_sync header pc (start_exchange header pc)"
  by (simp add: in_sync_def sync_ok_def pending_ok_def start_exchange_def new_call_def reply_so_far_def)

lemma in_sync_read_begin:
  assumes "in_sync header pc0 x" "xPending x = None" "call_read_begin expired k (xCall x) = (ph, c)"
    "pd = (case ph of Answered _ _ \<Rightarrow> None | Reads m rr \<Rightarrow> Some (m, rr))"
  shows "in_sync header pc0 (x\<lparr>xCall := c, xPending := pd\<rparr>)"
proof -
  note keeps = call_read_begin_keeps [OF assms(3)]
  have "sync_ok header pc0 (xDone x) c (xConn x) = sync_ok header pc0 (xDone x) (xCall x) (xConn x)"
    using keeps by (intro sync_ok_cong) simp_all
  then show ?thesis
    using assms(1,2,4) keeps by (cases ph) (auto simp: in_sync_def pending_ok_def)
qed

lemma sync_ok_read:
  assumes s: "sync_ok header pc0 False c pc" and pd: "pending_ok (Some (m, rr)) (scRemaining c)"
    and r: "conn_read m pc = (bs, err, pc')"
    and f: "call_read_finish expired rr bs err c = (bs', err', c')" and ok: "\<not> scBroken c'"
  shows "sync_ok header pc0 False c' pc'"
proof -
  note keeps = call_read_finish_keeps [OF f] and pay = conn_read_payload [OF r]
  obtain got where g: "payload (inbox pc0) = got @ payload (inbox pc)"
      "length got + unat (scRemaining c) = unat (header AND lengthMask)"
    using s by (auto simp: sync_ok_def)
  have "length bs + unat (scRemaining c') = unat (scRemaining c)"
  proof (cases rr)
    case True
    then have "length bs \<le> unat (scRemaining c)" "0 < scRemaining c"
      using pd pay by (auto simp: pending_ok_def)
    then show ?thesis using keeps ok unat_minus_of_nat [of "length bs" "scRemaining c"] by simp
  next
    case False
    then have "scRemaining c = 0" using pd by (simp add: pending_ok_def)
    then show ?thesis using keeps ok by simp
  qed
  then have "payload (inbox pc0) = (got @ bs) @ payload (inbox pc') \<and>
      length (got @ bs) + unat (scRemaining c') = unat (header AND lengthMask)"
    using g pay by simp
  then have "\<exists>got. payload (inbox pc0) = got @ payload (inbox pc') \<and>
      length got + unat (scRemaining c') = unat (header AND lengthMask)"
    by blast
  moreover have "reply_so_far s0 c' t = reply_so_far s0 c t" for s0 t
    using keeps by (intro reply_so_far_cong) simp_all
  ultimately show ?thesis using s keeps pay by (simp add: sync_ok_def)
qed

lemma in_sync_read_finish:
  assumes s: "in_sync header pc0 x" and pd: "xPending x = Some (m, rr)"
    and r: "conn_read m (xConn x) = (bs, err, pc)"
    and f: "call_read_finish expired rr bs err (xCall x) = (bs', err', c)"
  shows "in_sync header pc0 (x\<lparr>xCall := c, xConn := pc, xPending := None\<rparr>)"
proof -
  have nd: "\<not> xDone x" using s pd by (simp add: in_sync_def)
  have "sync_ok header pc0 False c pc" if "\<not> scBroken c"
    using sync_ok_read [OF _ _ r f that] s pd nd that call_read_finish_keeps [OF f]
    by (auto simp: in_sync_def)
  then show ?thesis
    using s nd call_read_finish_keeps [OF f] conn_read_payload [OF r]
    by (simp add: in_sync_def pending_ok_def writer_contract_def)
qed

lemma in_sync_write:
  assumes s: "in_sync header pc0 x" and w: "call_write retiring p (xCall x) (xConn x) = (n, err, c, pc)"
  shows "in_sync header pc0 (x\<lparr>xCall := c, xConn := pc\<rparr>)"
proof -
  consider "scClosed (xCall x)" | "\<not> scClosed (xCall x)" "scOneWay (xCall x)"
    | "\<not> scClosed (xCall x)" "\<not> scOneWay (xCall x)" by blast
  then show ?thesis
  proof cases
    case 1
    then have "c = xCall x" "pc = xConn x" using w by (simp_all add: call_write_def)
    then show ?thesis using s by simp
  next
    case 2
    then have "c = (xCall x)\<lparr>scBroken := True\<rparr>" "pc = xConn x" using w by (simp_all add: call_write_def)
    then show ?thesis using s 2 by (simp add: in_sync_def)
  next
    case 3
    note keeps = call_write_keeps [OF w]
    have "sync_ok header pc0 False c pc" if ok: "\<not> scBroken c"
    proof -
      have so: "sync_ok header pc0 False (xCall x) (xConn x)" "writer_contract (xConn x)"
        using s ok keeps 3 by (auto simp: in_sync_def)
      then have "reply_so_far (sent pc0) c (sent pc)"
        using call_write_reply [OF w ok] 3 by (simp add: sync_ok_def)
      then show ?thesis using so keeps 3 by (simp add: sync_ok_def)
    qed
    then show ?thesis using s 3 keeps by (simp add: in_sync_def)
  qed
qed

lemma in_sync_close_finish:
  assumes s: "in_sync header pc0 x" and cl: "scClosed (xCall x)" "\<not> xDone x" "xPending x = None"
    and f: "call_close_finish retiring (xCall x) (xConn x) = (c, pc)"
  shows "in_sync header pc0 (x\<lparr>xCall := c, xConn := pc, xDone := True\<rparr>)"
proof (cases "scBroken (xCall x) \<or> scHeaderAt (xCall x) < length (scHeader (xCall x)) \<or> 0 < scRemaining (xCall x) \<or>
    \<not> scOneWay (xCall x)")
  case True
  then have c: "pc = xConn x" "scBroken c \<or> c = xCall x \<and> scReplied (xCall x) \<and> \<not> scOneWay (xCall x) \<and> scRemaining (xCall x) = 0"
      "scOneWay c = scOneWay (xCall x)" "scClosed c = scClosed (xCall x)"
    using f by (auto simp: call_close_finish_def word_gt_0 split: if_splits)
  have "sync_ok header pc0 True c pc" if "\<not> scBroken c"
    using c that s cl by (auto simp: in_sync_def sync_ok_def)
  then show ?thesis using s cl c by (simp add: in_sync_def pending_ok_def)
next
  case False
  let ?w = "if retiring then 0 else sessionFlag"
  obtain m e pc1 where cw: "conn_write (put_be32 ?w) (xConn x) = (m, e, pc1)"
    by (cases "conn_write (put_be32 ?w) (xConn x)")
  have c: "pc = pc1" "c = (if e = None then (xCall x)\<lparr>scContinued := (?w \<noteq> 0)\<rparr>
      else (xCall x)\<lparr>scBroken := True, scContinued := (?w \<noteq> 0)\<rparr>)"
    using f False cw by (auto simp: call_close_finish_def Let_def writeUint32_def split: option.splits)
  have pc1: "inbox pc1 = inbox (xConn x)" "writer_contract pc1"
      "e = None \<longrightarrow> sent pc1 = sent (xConn x) @ put_be32 ?w"
    using conn_write_frame [OF cw] conn_write_None [of "put_be32 ?w" "xConn x" m pc1] cw s
    by (auto simp: in_sync_def)
  have "sync_ok header pc0 True c pc" if ok: "\<not> scBroken c"
  proof -
    have e: "e = None" using c ok by (cases e) simp_all
    have "sync_ok header pc0 False (xCall x) (xConn x)" using s cl False by (simp add: in_sync_def)
    moreover have "sessionFlag \<noteq> 0" by (simp add: sessionFlag_def)
    ultimately show ?thesis using False c e pc1 by (simp add: sync_ok_def word_gt_0)
  qed
  then show ?thesis using s cl c pc1 by (cases e) (simp_all add: in_sync_def pending_ok_def)
qed

lemma in_sync_step: "call_step x y \<Longrightarrow> in_sync header pc0 x \<Longrightarrow> in_sync header pc0 y"
proof (induction rule: call_step.induct)
  case (read_begin x expired k bs err c)
  have "x\<lparr>xCall := c\<rparr> = x\<lparr>xCall := c, xPending := None\<rparr>" using read_begin(1) by (cases x) simp
  then show ?case using in_sync_read_begin [OF read_begin(3,1,2) refl] by simp
next
  case (read_blocks x expired k m rr c)
  then show ?case using in_sync_read_begin [OF read_blocks(3,1,2) refl] by simp
next
  case (read_finish x m rr bs err pc expired bs' err' c)
  then show ?case by (intro in_sync_read_finish)
next
  case (write_step retiring p x n err c pc)
  then show ?case by (intro in_sync_write)
next
  case (refuse e x err c pc)
  then show ?case
    by (cases "scClosed (xCall x)")
      (auto simp: refuseProof_def sendProofRefusal_def in_sync_def split: prod.splits dest: writeAll_contract)
next
  case (close_begin x)
  have "sync_ok header pc0 fin (call_close_begin (xCall x)) pc = sync_ok header pc0 fin (xCall x) pc" for fin pc
    by (rule sync_ok_cong) (simp_all add: call_close_begin_def)
  then show ?case using close_begin by (auto simp: in_sync_def call_close_begin_def)
next
  case (close_finish x retiring c pc)
  then show ?case by (intro in_sync_close_finish)
qed

lemma in_sync_reaches: "reaches x y \<Longrightarrow> in_sync header pc0 x \<Longrightarrow> in_sync header pc0 y"
  unfolding reaches_def by (induction rule: rtranclp_induct) (auto intro: in_sync_step)

lemma in_sync_done:
  assumes s: "in_sync header pc x" and fin: "xDone x" and ok: "\<not> scBroken (xCall x)"
  shows "\<exists>req answer. payload (inbox pc) = req @ payload (inbox (xConn x)) \<and>
    length req = unat (header AND lengthMask) \<and> sent (xConn x) = sent pc @ answer \<and>
    (if header AND oneWayFlag \<noteq> 0
     then answer = put_be32 (if scContinued (xCall x) then sessionFlag else 0)
     else \<exists>len body. answer = put_be32 (if scContinued (xCall x) then len OR sessionFlag else len) @ body \<and>
            len \<le> lengthMask \<and> length body = unat len)"
proof -
  have so: "sync_ok header pc True (xCall x) (xConn x)" and ow: "scOneWay (xCall x) = (header AND oneWayFlag \<noteq> 0)"
    using s fin ok by (auto simp: in_sync_def)
  then obtain req where req: "payload (inbox pc) = req @ payload (inbox (xConn x))"
      "length req = unat (header AND lengthMask)"
    by (auto simp: sync_ok_def)
  show ?thesis
  proof (cases "scOneWay (xCall x)")
    case True
    then show ?thesis using so req ow by (auto simp: sync_ok_def)
  next
    case False
    then have rep: "reply_so_far (sent pc) (xCall x) (sent (xConn x))" "scReplied (xCall x)"
      using so by (simp_all add: sync_ok_def)
    then show ?thesis using False req ow by (fastforce simp: reply_so_far_def split: if_splits)
  qed
qed

subsection \<open>Properties\<close>

text \<open>
  C10: an exchange that ends unbroken leaves the connection at a request boundary, in every
  interleaving of its reads, writes, refusals and its close, with the binding expiring and the
  session retiring at any moment. Exactly the request's bytes were taken off the connection, none
  of the next request's; and exactly one complete answer was put on it: a reply whose header
  announces its length, flagged to continue exactly when the session will read another request,
  or the completion word of a one-way exchange.
\<close>

theorem session_exchange_in_sync:
  assumes pc: "writer_contract pc" and r: "reaches (start_exchange header pc) x"
    and fin: "xDone x" and ok: "\<not> scBroken (xCall x)"
  shows "\<exists>req answer. payload (inbox pc) = req @ payload (inbox (xConn x)) \<and>
    length req = unat (header AND lengthMask) \<and> sent (xConn x) = sent pc @ answer \<and>
    (if header AND oneWayFlag \<noteq> 0
     then answer = put_be32 (if scContinued (xCall x) then sessionFlag else 0)
     else \<exists>len body. answer = put_be32 (if scContinued (xCall x) then len OR sessionFlag else len) @ body \<and>
            len \<le> lengthMask \<and> length body = unat len)"
  by (rule in_sync_done [OF in_sync_reaches [OF r in_sync_start [OF pc]] fin ok])

text \<open>
  A request of one byte, answered with one byte; the client's next request is already on the
  wire.
\<close>

definition demo_pc :: conn where
  "demo_pc = \<lparr>inbox = [Data [5, 128, 0, 0, 0]], sent = [], accepts = []\<rparr>"

lemma demo_exchange:
  assumes pc: "pc = demo_pc\<lparr>sent := s0\<rparr>"
  shows "\<exists>x. reaches (start_exchange 0x80000001 pc) x \<and> xDone x \<and> \<not> scBroken (xCall x) \<and>
     scContinued (xCall x) \<and> payload (inbox (xConn x)) = [128, 0, 0, 0] \<and>
     sent (xConn x) = s0 @ [128, 0, 0, 1, 9] \<and> accepts (xConn x) = []"
proof -
  let ?c = "\<lambda>at rem out rep cont cl rd. \<lparr>scHeader = put_be32 1, scHeaderAt = at, scRemaining = rem, scOneWay = False,
    scOut = out, scOutLeft = 0, scReplied = rep, scContinued = cont, scClosed = cl, scBroken = False, scReading = rd\<rparr>"
  let ?x = "\<lambda>c pc pd fin. \<lparr>xCall = c, xConn = pc, xPending = pd, xDone = fin\<rparr>"
  let ?pc1 = "pc\<lparr>inbox := [Data [128, 0, 0, 0]]\<rparr>"
  let ?pc2 = "\<lparr>inbox = [Data [128, 0, 0, 0]], sent = s0 @ [128, 0, 0, 1, 9], accepts = []\<rparr>"
  have 0: "start_exchange 0x80000001 pc = ?x (?c 0 1 [] False False False 0) pc None False"
    by (simp add: start_exchange_def new_call_def wire_defs)
  have 1: "call_step (?x (?c 0 1 [] False False False 0) pc None False) (?x (?c 4 1 [] False False False 0) pc None False)"
    using call_step.read_begin [of "?x (?c 0 1 [] False False False 0) pc None False" False 4]
    by (simp add: call_read_begin_def Let_def)
  have 2: "call_step (?x (?c 4 1 [] False False False 0) pc None False) (?x (?c 4 1 [] False False False 1) pc (Some (1, True)) False)"
    using call_step.read_blocks [of "?x (?c 4 1 [] False False False 0) pc None False" False 4]
    by (simp add: call_read_begin_def)
  have 3: "call_step (?x (?c 4 1 [] False False False 1) pc (Some (1, True)) False) (?x (?c 4 0 [] False False False 0) ?pc1 None False)"
    using call_step.read_finish [of "?x (?c 4 1 [] False False False 1) pc (Some (1, True)) False" 1 True "[5]" None ?pc1 False]
    by (simp add: conn_read_def pc demo_pc_def call_read_finish_def)
  have w: "call_write False [0, 0, 0, 1, 9] (?c 4 0 [] False False False 0) ?pc1 = (5, None, ?c 4 0 [0, 0, 0, 1] True True False 0, ?pc2)"
    by (simp add: call_write_def call_write_header_def call_write_rest_def conn_write_def pc demo_pc_def wire_defs
        be32_def put_be32_def Let_def)
  have 4: "call_step (?x (?c 4 0 [] False False False 0) ?pc1 None False) (?x (?c 4 0 [0, 0, 0, 1] True True False 0) ?pc2 None False)"
    using call_step.write_step [of False "[0, 0, 0, 1, 9]" "?x (?c 4 0 [] False False False 0) ?pc1 None False"] w by simp
  have 5: "call_step (?x (?c 4 0 [0, 0, 0, 1] True True False 0) ?pc2 None False) (?x (?c 4 0 [0, 0, 0, 1] True True True 0) ?pc2 None False)"
    using call_step.close_begin [of "?x (?c 4 0 [0, 0, 0, 1] True True False 0) ?pc2 None False"]
    by (simp add: call_close_begin_def)
  have 6: "call_step (?x (?c 4 0 [0, 0, 0, 1] True True True 0) ?pc2 None False) (?x (?c 4 0 [0, 0, 0, 1] True True True 0) ?pc2 None True)"
    using call_step.close_finish [of "?x (?c 4 0 [0, 0, 0, 1] True True True 0) ?pc2 None False" False]
    by (simp add: call_close_finish_def)
  have "reaches (start_exchange 0x80000001 pc) (?x (?c 4 0 [0, 0, 0, 1] True True True 0) ?pc2 None True)"
    unfolding reaches_def 0 using 1 2 3 4 5 6 by (meson converse_rtranclp_into_rtranclp rtranclp.rtrancl_refl)
  then show ?thesis by (intro exI) (erule conjI, simp)
qed

theorem session_exchange_in_sync_witness:
  "\<exists>x req. reaches (start_exchange 0x80000001 demo_pc) x \<and> scContinued (xCall x) \<and>
     payload (inbox demo_pc) = req @ payload (inbox (xConn x)) \<and> length req = 1"
proof -
  obtain x where x: "reaches (start_exchange 0x80000001 demo_pc) x" "xDone x" "\<not> scBroken (xCall x)" "scContinued (xCall x)"
    using demo_exchange [of demo_pc "[]"] by (auto simp: demo_pc_def)
  have "writer_contract demo_pc" by (simp add: writer_contract_def demo_pc_def)
  from session_exchange_in_sync [OF this x(1-3)] x
  have "\<exists>req. payload (inbox demo_pc) = req @ payload (inbox (xConn x)) \<and>
      length req = unat ((0x80000001 :: 32 word) AND lengthMask)"
    by blast
  moreover have "unat ((0x80000001 :: 32 word) AND lengthMask) = 1" by (simp add: wire_defs)
  ultimately show ?thesis using x by auto
qed

end
