(* ===== verification/Peers.thy ===== *)
theory Peers
  imports Proof_Ladder
begin

section \<open>Peers, policies and limits (peer.go)\<close>

text \<open>
  \<^verbatim>\<open>Peer\<close> with the value types of its attributes, the policy \<^verbatim>\<open>Need\<close> with \<^verbatim>\<open>Check\<close>, what a
  transport can prove at best (\<^verbatim>\<open>Limits\<close>) with \<^verbatim>\<open>CanEver\<close>, and \<^verbatim>\<open>Options\<close>. The current time
  is an argument where the source calls \<^verbatim>\<open>time.Now\<close>, and the rendering of an instant, which
  depends on the host's time zone, is a parameter of the \<open>String\<close> functions.
\<close>

record User =
  uKind :: string
  uSID :: string
  uName :: string
  uDomain :: string
  uElevated :: bool
  uIntegrity :: string
  uIntegrityRID :: "32 word"
  uRestricted :: bool
  uUID :: int
  uGID :: int
  uSecurityContext :: string
  uAuditSessionID :: "32 word"

definition zero_User :: User where
  "zero_User = \<lparr>uKind = [], uSID = [], uName = [], uDomain = [], uElevated = False,
     uIntegrity = [], uIntegrityRID = 0, uRestricted = False, uUID = 0, uGID = 0,
     uSecurityContext = [], uAuditSessionID = 0\<rparr>"

definition User_String :: "User \<Rightarrow> string" where
  "User_String u =
     (if uKind u = ''windows'' then
        (let s = (if uName u \<noteq> []
                  then (if uDomain u \<noteq> [] then uDomain u @ [char_of (92 :: nat)] @ uName u else uName u)
                       @ '' ('' @ uSID u @ '')''
                  else uSID u);
             s = (if uIntegrity u \<noteq> [] then s @ '' '' @ uIntegrity u @ ''-integrity'' else s);
             s = (if uElevated u then s @ '' elevated'' else s)
         in if uRestricted u then s @ '' restricted'' else s)
      else if uKind u = ''posix'' then
        (let s = ''uid='' @ itoa (uUID u) @ '' gid='' @ itoa (uGID u);
             s = (if uSecurityContext u \<noteq> [] then s @ '' lsm='' @ uSecurityContext u else s)
         in if uAuditSessionID u \<noteq> 0 then s @ '' asid='' @ utoa (unat (uAuditSessionID u)) else s)
      else ''unknown user'')"

record Process =
  prPID :: int
  prStartTime :: Time
  prRecycled :: bool
  prGeneration :: "32 word"

definition zero_Process :: Process where
  "zero_Process = \<lparr>prPID = 0, prStartTime = 0, prRecycled = False, prGeneration = 0\<rparr>"

definition Process_String :: "(Time \<Rightarrow> string) \<Rightarrow> Process \<Rightarrow> string" where
  "Process_String show_time p =
     (let s = ''pid '' @ itoa (prPID p);
          s = (if prGeneration p \<noteq> 0 then s @ ''.'' @ utoa (unat (prGeneration p)) else s);
          s = (if \<not> IsZero (prStartTime p) then s @ '' started '' @ show_time (prStartTime p) else s)
      in if prRecycled p then s @ '' RECYCLED'' else s)"

record Code =
  cSubject :: string
  cIssuer :: string
  cTrusted :: bool
  cStatus :: string
  cCatalog :: bool
  cDescription :: string
  cOriginalName :: string
  cTeamID :: string

definition zero_Code :: Code where
  "zero_Code = \<lparr>cSubject = [], cIssuer = [], cTrusted = False, cStatus = [], cCatalog = False,
     cDescription = [], cOriginalName = [], cTeamID = []\<rparr>"

definition Code_String :: "Code \<Rightarrow> string" where
  "Code_String c =
     (if cSubject c = [] then cStatus c
      else
        (let s = cSubject c;
             s = (if cTeamID c \<noteq> [] then s @ '' [team '' @ cTeamID c @ '']'' else s);
             s = (if cIssuer c \<noteq> [] then s @ '' (issued by '' @ cIssuer c @ '')'' else s);
             s = (if \<not> cTrusted c then s @ '' UNTRUSTED: '' @ cStatus c else s)
         in if cCatalog c then s @ '' via-catalog'' else s))"

record Peer =
  pPlatform :: string
  pTransport :: string
  pObservedAt :: Time
  pUser :: "User Attr"
  pProcess :: "Process Attr"
  pPath :: "string Attr"
  pPackage :: "string Attr"
  pCode :: "Code Attr"
  pNotes :: "string list"
  pEvidenceValidUntil :: Time

definition Peer_String :: "(Time \<Rightarrow> string) \<Rightarrow> Peer \<Rightarrow> string" where
  "Peer_String show_time p =
     pPlatform p @ ''/'' @ pTransport p @ '' '' @ Attr_String User_String (pUser p) @ '' '' @
     Attr_String (Process_String show_time) (pProcess p) @ '' '' @ Attr_String id (pPath p) @ '' '' @
     Attr_String id (pPackage p) @ '' '' @ Attr_String Code_String (pCode p)"

definition add_note :: "string \<Rightarrow> Peer \<Rightarrow> Peer" where
  "add_note s p = p\<lparr>pNotes := pNotes p @ [s]\<rparr>"

definition recordCode :: "Peer \<Rightarrow> Code \<Rightarrow> Proof \<Rightarrow> string \<Rightarrow> Peer" where
  "recordCode p code verdict verifiedWhy =
     (if ProofPID \<le> verdict then p\<lparr>pCode := attr ''code'' code verdict verifiedWhy\<rparr>
      else add_note (''code: '' @ cStatus code @ ''; reported at '' @ quoted (Proof_String verdict)
                 @ '', below every rung that implies verification'')
             (p\<lparr>pCode := attr ''code'' code verdict (cStatus code)\<rparr>))"

record Need =
  nUser :: Proof
  nProcess :: Proof
  nPath :: Proof
  nPackage :: Proof
  nCode :: Proof

definition zero_Need :: Need where
  "zero_Need = \<lparr>nUser = ProofNone, nProcess = ProofNone, nPath = ProofNone, nPackage = ProofNone,
     nCode = ProofNone\<rparr>"

text \<open>One of the five \<^verbatim>\<open>if n.X > ProofNone\<close> blocks of \<^verbatim>\<open>Check\<close>: the errors it appends.\<close>

definition unmet :: "Proof \<Rightarrow> 'a Attr \<Rightarrow> error list" where
  "unmet want a =
     (if ProofNone < want
      then (case AtLeast a want of Inl err \<Rightarrow> [Some err] | Inr _ \<Rightarrow> [])
      else [])"

definition Check :: "Peer \<Rightarrow> Need \<Rightarrow> error" where
  "Check p n = errors_join
     (unmet (nUser n) (pUser p) @ unmet (nProcess n) (pProcess p) @ unmet (nPath n) (pPath p) @
      unmet (nPackage n) (pPackage p) @ unmet (nCode n) (pCode p))"

record Limits =
  lPlatform :: string
  lBest :: Need
  lWhy :: "string \<rightharpoonup> string"
  lTransport :: string
  lBindable :: bool
  lBinding :: string
  lStronger :: string

definition Limits_String :: "Limits \<Rightarrow> string" where
  "Limits_String l =
     lPlatform l @ ''/'' @ lTransport l @ '': user='' @ Proof_String (nUser (lBest l)) @ '' process='' @
     Proof_String (nProcess (lBest l)) @ '' path='' @ Proof_String (nPath (lBest l)) @ '' package='' @
     Proof_String (nPackage (lBest l)) @ '' code='' @ Proof_String (nCode (lBest l)) @ '' '' @
     (if lBindable l then ''bound-by='' else ''binding='') @ lBinding l"

text \<open>The closure \<^verbatim>\<open>cmp\<close> of \<^verbatim>\<open>CanEver\<close>; a key the map lacks reads as the empty string.\<close>

definition cmp :: "Limits \<Rightarrow> string \<Rightarrow> Proof \<Rightarrow> Proof \<Rightarrow> error list" where
  "cmp l nm want best =
     (if best < want
      then [Some (ProofErr \<lparr>peAttribute = nm, peWant = want, peGot = best,
                     peWhy = (case lWhy l nm of None \<Rightarrow> [] | Some w \<Rightarrow> w)\<rparr>)]
      else [])"

definition CanEver :: "Limits \<Rightarrow> Need \<Rightarrow> error" where
  "CanEver l n = errors_join
     (cmp l ''user'' (nUser n) (nUser (lBest l)) @ cmp l ''process'' (nProcess n) (nProcess (lBest l)) @
      cmp l ''path'' (nPath n) (nPath (lBest l)) @ cmp l ''package'' (nPackage n) (nPackage (lBest l)) @
      cmp l ''code'' (nCode n) (nCode (lBest l)))"

record Options =
  oConnectedAt :: Time
  oCheckRevocation :: bool
  oSkipCodeSignature :: bool
  oCodeRequirement :: string

text \<open>The receiver of these methods may be nil; \<open>now\<close> is what \<^verbatim>\<open>time.Now\<close> answers.\<close>

definition connectedAt :: "Options option \<Rightarrow> Time \<Rightarrow> Time" where
  "connectedAt opt now = (case opt of
     Some opts \<Rightarrow> if \<not> IsZero (oConnectedAt opts) then oConnectedAt opts else now
   | None \<Rightarrow> now)"

definition checkRevocation :: "Options option \<Rightarrow> bool" where
  "checkRevocation opt = (case opt of Some opts \<Rightarrow> oCheckRevocation opts | None \<Rightarrow> False)"

definition skipCodeSignature :: "Options option \<Rightarrow> bool" where
  "skipCodeSignature opt = (case opt of Some opts \<Rightarrow> oSkipCodeSignature opts | None \<Rightarrow> False)"

definition codeRequirement :: "Options option \<Rightarrow> string" where
  "codeRequirement opt = (case opt of Some opts \<Rightarrow> oCodeRequirement opts | None \<Rightarrow> [])"

subsection \<open>What a policy means\<close>

text \<open>
  The specification \<^verbatim>\<open>Check\<close> and \<^verbatim>\<open>CanEver\<close> implement: a comparison of rungs, attribute by
  attribute.
\<close>

definition need_le :: "Need \<Rightarrow> Need \<Rightarrow> bool" where
  "need_le m n \<longleftrightarrow> nUser m \<le> nUser n \<and> nProcess m \<le> nProcess n \<and> nPath m \<le> nPath n \<and>
     nPackage m \<le> nPackage n \<and> nCode m \<le> nCode n"

text \<open>The rungs a peer's attributes stand on, as a policy.\<close>

definition rungs :: "Peer \<Rightarrow> Need" where
  "rungs p = \<lparr>nUser = attr_proof (pUser p), nProcess = attr_proof (pProcess p),
     nPath = attr_proof (pPath p), nPackage = attr_proof (pPackage p), nCode = attr_proof (pCode p)\<rparr>"

lemma need_le_refl [simp]: "need_le n n"
  by (simp add: need_le_def)

lemma need_le_trans: "need_le l m \<Longrightarrow> need_le m n \<Longrightarrow> need_le l n"
  by (auto simp: need_le_def)

lemma zero_Need_le [simp]: "need_le zero_Need n"
  by (simp add: need_le_def zero_Need_def ProofNone_def)

text \<open>A shortfall: the attribute's name, the rung wanted and the rung it has.\<close>

definition shortfall :: "Proof \<Rightarrow> 'a Attr \<Rightarrow> ProofError list" where
  "shortfall want a = (if attr_proof a < want
     then [\<lparr>peAttribute = attr_name a, peWant = want, peGot = attr_proof a, peWhy = attr_why a\<rparr>] else [])"

definition shortfalls :: "Peer \<Rightarrow> Need \<Rightarrow> ProofError list" where
  "shortfalls p n = shortfall (nUser n) (pUser p) @ shortfall (nProcess n) (pProcess p) @
     shortfall (nPath n) (pPath p) @ shortfall (nPackage n) (pPackage p) @ shortfall (nCode n) (pCode p)"

lemma unmet_shortfall: "unmet want a = map (Some \<circ> ProofErr) (shortfall want a)"
  by (auto simp: unmet_def AtLeast_def shortfall_def ProofNone_def word_neq_0_conv not_le
      intro: le_less_trans)

lemma errors_join_map_Some:
  "errors_join (map (Some \<circ> f) xs) = (if xs = [] then None else Some (Joined (map f xs)))"
  by (simp add: errors_join_def comp_def)

lemma Check_shortfalls:
  "Check p n = (if shortfalls p n = [] then None else Some (Joined (map ProofErr (shortfalls p n))))"
  unfolding Check_def shortfalls_def unmet_shortfall map_append [symmetric] errors_join_map_Some by simp

lemma shortfalls_empty_iff: "shortfalls p n = [] \<longleftrightarrow> need_le n (rungs p)"
  by (auto simp: shortfalls_def shortfall_def need_le_def rungs_def not_less)

lemma Check_None_iff: "Check p n = None \<longleftrightarrow> need_le n (rungs p)"
  by (simp add: Check_shortfalls shortfalls_empty_iff)

lemma Check_Some_not_proven: "Check p n = Some e \<Longrightarrow> errors_is e (Err ErrNotProven)"
  by (cases "shortfalls p n") (auto simp: Check_shortfalls split: if_splits)

lemma set_cmp_None [simp]: "(\<forall>e \<in> set (cmp l nm want h). e = None) \<longleftrightarrow> want \<le> h"
  by (auto simp: cmp_def)

lemma CanEver_None_iff: "CanEver l n = None \<longleftrightarrow> need_le n (lBest l)"
  by (simp add: CanEver_def need_le_def ball_Un)

lemma CanEver_weaker: "CanEver l n = None \<Longrightarrow> need_le m n \<Longrightarrow> CanEver l m = None"
  by (auto simp: CanEver_None_iff intro: need_le_trans)

lemma add_note_sels [simp]:
  "pUser (add_note s p) = pUser p" "pProcess (add_note s p) = pProcess p" "pPath (add_note s p) = pPath p"
  "pPackage (add_note s p) = pPackage p" "pCode (add_note s p) = pCode p"
  "pPlatform (add_note s p) = pPlatform p" "pTransport (add_note s p) = pTransport p"
  "pObservedAt (add_note s p) = pObservedAt p" "pEvidenceValidUntil (add_note s p) = pEvidenceValidUntil p"
  by (simp_all add: add_note_def)

lemma rungs_add_note [simp]: "rungs (add_note s p) = rungs p"
  by (simp add: rungs_def)

lemma recordCode_sels [simp]:
  "pUser (recordCode p c v w) = pUser p" "pProcess (recordCode p c v w) = pProcess p"
  "pPath (recordCode p c v w) = pPath p" "pPackage (recordCode p c v w) = pPackage p"
  "attr_proof (pCode (recordCode p c v w)) = v" "attr_value (pCode (recordCode p c v w)) = c"
  by (simp_all add: recordCode_def)

subsection \<open>Interface: a transport that keeps within its limits\<close>

text \<open>
  What a service relies on when it calls \<^verbatim>\<open>CanEver\<close> once at start-up: no connection of the
  transport ever produces a peer above the limits. \<open>identify\<close> is the transport's function from
  whatever it reads of the host to a peer; \<open>lim\<close> its ceiling on that host. A transport may rely
  on what another component promises of the host; one that relies on nothing is bounded outright.
\<close>

locale reliant_transport =
  fixes relies :: "'h \<Rightarrow> bool" and lim :: "'h \<Rightarrow> Limits" and identify :: "'h \<Rightarrow> go_error + Peer"
  assumes within_limits: "relies h \<Longrightarrow> identify h = Inr p \<Longrightarrow> need_le (rungs p) (lBest (lim h))"
begin

lemma check_implies_can_ever:
  "relies h \<Longrightarrow> identify h = Inr p \<Longrightarrow> Check p n = None \<Longrightarrow> CanEver (lim h) n = None"
  using within_limits by (auto simp: Check_None_iff CanEver_None_iff intro: need_le_trans)

lemma impossible_policy_refuses_all:
  "relies h \<Longrightarrow> CanEver (lim h) n = Some e \<Longrightarrow> identify h = Inr p \<Longrightarrow> \<exists>e'. Check p n = Some e' \<and> errors_is e' (Err ErrNotProven)"
  using check_implies_can_ever Check_Some_not_proven by (cases "Check p n") fastforce+

end

locale bounded_transport =
  fixes lim :: "'h \<Rightarrow> Limits" and identify :: "'h \<Rightarrow> go_error + Peer"
  assumes always_within: "identify h = Inr p \<Longrightarrow> need_le (rungs p) (lBest (lim h))"

sublocale bounded_transport \<subseteq> reliant_transport "\<lambda>_. True" lim identify
  by unfold_locales (rule always_within)

subsection \<open>Properties\<close>

text \<open>
  C7: \<^verbatim>\<open>Peer.Check\<close> accepts exactly the policies every one of whose five rungs the peer reaches.
  When it refuses, the error carries one \<^verbatim>\<open>ProofError\<close> for each attribute that falls short, for
  all of them and only for them, in the order user, process, path, package, code, and it matches
  \<^verbatim>\<open>ErrNotProven\<close>.
\<close>

theorem Check_exact:
  "case Check p n of
     None \<Rightarrow> need_le n (rungs p)
   | Some e \<Rightarrow> \<not> need_le n (rungs p) \<and> proof_errors e = shortfalls p n \<and> errors_is e (Err ErrNotProven)"
proof -
  have "concat (map (proof_errors \<circ> ProofErr) xs) = xs" for xs
    by (induction xs) simp_all
  then show ?thesis
    using Check_Some_not_proven [of p n]
    by (auto simp: Check_shortfalls shortfalls_empty_iff)
qed

text \<open>
  \<^verbatim>\<open>Limits.CanEver\<close> accepts exactly the policies within the transport's best rungs, its
  refusals match \<^verbatim>\<open>ErrNotProven\<close>, and a policy that is possible stays possible when any of its
  demands is lowered.
\<close>

theorem CanEver_exact:
  "(CanEver l n = None \<longleftrightarrow> need_le n (lBest l)) \<and>
   (CanEver l n = None \<and> need_le m n \<longrightarrow> CanEver l m = None) \<and>
   (CanEver l n \<noteq> None \<longrightarrow> errors_Is (CanEver l n) (Err ErrNotProven))"
proof -
  have "errors_Is (CanEver l n) (Err ErrNotProven)" if "CanEver l n \<noteq> None"
    using that by (auto simp: CanEver_def errors_join_Is cmp_def split: if_splits)
  then show ?thesis using CanEver_weaker by (auto simp: CanEver_None_iff)
qed

definition kernel_user_limits :: Limits where
  "kernel_user_limits = \<lparr>lPlatform = ''linux'', lBest = zero_Need\<lparr>nUser := ProofKernel\<rparr>, lWhy = Map.empty,
     lTransport = ''unix'', lBindable = False, lBinding = [], lStronger = []\<rparr>"

theorem CanEver_exact_witness:
  "CanEver kernel_user_limits (zero_Need\<lparr>nUser := ProofBound\<rparr>) = None \<and>
   CanEver kernel_user_limits (zero_Need\<lparr>nUser := ProofPID\<rparr>) = None \<and>
   errors_Is (CanEver kernel_user_limits (zero_Need\<lparr>nCode := ProofPID\<rparr>)) (Err ErrNotProven)"
proof -
  have le: "need_le (zero_Need\<lparr>nUser := ProofBound\<rparr>) (lBest kernel_user_limits)"
    "need_le (zero_Need\<lparr>nUser := ProofPID\<rparr>) (zero_Need\<lparr>nUser := ProofBound\<rparr>)"
    "\<not> need_le (zero_Need\<lparr>nCode := ProofPID\<rparr>) (lBest kernel_user_limits)"
    by (simp_all add: need_le_def kernel_user_limits_def zero_Need_def rung_defs)
  have "CanEver kernel_user_limits (zero_Need\<lparr>nUser := ProofBound\<rparr>) = None"
    "CanEver kernel_user_limits (zero_Need\<lparr>nCode := ProofPID\<rparr>) \<noteq> None"
    using CanEver_exact le(1,3) by blast+
  then show ?thesis using CanEver_exact le(2) by blast
qed

text \<open>
  A signature the platform examined and did not accept can satisfy no policy that demands
  verified code: after \<^verbatim>\<open>recordCode\<close> with a verdict below \<^verbatim>\<open>ProofPID\<close>, every \<^verbatim>\<open>Need\<close> whose
  \<^verbatim>\<open>Code\<close> is \<^verbatim>\<open>ProofPID\<close> or higher is refused, and the refusal carries the platform's wording.
\<close>

theorem recordCode_verdict_refused:
  assumes "verdict < ProofPID" and "ProofPID \<le> nCode n"
  shows "\<exists>e. Check (recordCode p code verdict why) n = Some e \<and> errors_is e (Err ErrNotProven) \<and>
     \<lparr>peAttribute = ''code'', peWant = nCode n, peGot = verdict, peWhy = cStatus code\<rparr> \<in> set (proof_errors e)"
proof -
  let ?p = "recordCode p code verdict why"
  have lt: "verdict < nCode n" using assms by (rule less_le_trans)
  have pc: "pCode ?p = attr ''code'' code verdict (cStatus code)"
    using assms(1) by (simp add: recordCode_def not_le)
  have sf: "\<lparr>peAttribute = ''code'', peWant = nCode n, peGot = verdict, peWhy = cStatus code\<rparr> \<in> set (shortfalls ?p n)"
    using lt by (simp add: shortfalls_def shortfall_def pc)
  then have "Check ?p n = Some (Joined (map ProofErr (shortfalls ?p n)))"
    by (auto simp: Check_shortfalls)
  then show ?thesis using sf Check_Some_not_proven [of ?p n] by auto
qed

definition silent_peer :: Peer where
  "silent_peer = \<lparr>pPlatform = ''windows'', pTransport = ''npipe'', pObservedAt = 0,
     pUser = unknown zero_User ''user'' [], pProcess = unknown zero_Process ''process'' [],
     pPath = unknown [] ''path'' [], pPackage = unknown [] ''package'' [],
     pCode = unknown zero_Code ''code'' [], pNotes = [], pEvidenceValidUntil = 0\<rparr>"

theorem recordCode_verdict_refused_witness:
  "\<exists>e. Check (recordCode silent_peer (zero_Code\<lparr>cStatus := ''no signature''\<rparr>) ProofUnsigned [])
      (zero_Need\<lparr>nCode := ProofBound\<rparr>) = Some e \<and> errors_is e (Err ErrNotProven)"
  using recordCode_verdict_refused [of ProofUnsigned "zero_Need\<lparr>nCode := ProofBound\<rparr>" silent_peer
      "zero_Code\<lparr>cStatus := ''no signature''\<rparr>" "[]"]
  by (auto simp: rung_defs)

end
