(* ===== verification/Bindings.thy ===== *)
theory Bindings
  imports Peers
begin

section \<open>Bindings and their views (bind.go)\<close>

text \<open>
  A binding is a captured peer plus a platform handle that can be asked again. The Go
  interface \<^verbatim>\<open>Binder\<close> is a table of methods over the handle's state \<open>'s\<close>; the outside world
  \<open>'w\<close> a method observes when it runs is its other argument. \<^verbatim>\<open>bindingState\<close> wraps a platform
  Binder, \<^verbatim>\<open>sharedBinder\<close> makes the views handed to requests. All views of one binding reach one
  state, so the state is passed explicitly and a view only selects the methods.

  The read-write lock of \<^verbatim>\<open>bindingState\<close> makes each of its methods one atomic step, which is
  how an interleaving of several views is a sequence of steps below.
\<close>

record ('w, 's) Binder =
  recheck :: "'w \<Rightarrow> 's \<Rightarrow> error"
  alive :: "'w \<Rightarrow> 's \<Rightarrow> go_error + bool"
  release :: "'w \<Rightarrow> 's \<Rightarrow> error \<times> 's"

record 's bindingState =
  inner :: 's
  closed :: bool
  closeErr :: error

definition new_bindingState :: "'s \<Rightarrow> 's bindingState" where
  "new_bindingState i = \<lparr>inner = i, closed = False, closeErr = None\<rparr>"

definition state_recheck :: "('w, 's) Binder \<Rightarrow> 'w \<Rightarrow> 's bindingState \<Rightarrow> error" where
  "state_recheck B w b = (if closed b then Some (Err ErrClosed) else recheck B w (inner b))"

definition state_alive :: "('w, 's) Binder \<Rightarrow> 'w \<Rightarrow> 's bindingState \<Rightarrow> go_error + bool" where
  "state_alive B w b = (if closed b then Inl (Err ErrClosed) else alive B w (inner b))"

definition state_release :: "('w, 's) Binder \<Rightarrow> 'w \<Rightarrow> 's bindingState \<Rightarrow> error \<times> 's bindingState" where
  "state_release B w b =
     (if closed b then (closeErr b, b)
      else (let (err, i) = release B w (inner b)
            in (err, b\<lparr>inner := i, closeErr := err, closed := True\<rparr>)))"

definition bindingState_binder :: "('w, 's) Binder \<Rightarrow> ('w, 's bindingState) Binder" where
  "bindingState_binder B =
     \<lparr>recheck = state_recheck B, alive = state_alive B, release = state_release B\<rparr>"

text \<open>\<^verbatim>\<open>sharedBinder\<close> embeds a Binder and overrides \<^verbatim>\<open>release\<close>.\<close>

definition sharedBinder :: "('w, 's) Binder \<Rightarrow> ('w, 's) Binder" where
  "sharedBinder B = B\<lparr>release := (\<lambda>w s. (None, s))\<rparr>"

record ('w, 's) Binding =
  bPeer :: Peer
  bBoundAt :: Time
  bInner :: "('w, 's) Binder"

text \<open>
  \<^verbatim>\<open>Bind\<close>: \<open>bindHandle\<close> is the platform's function, \<open>B\<close> the methods of the Binder it returns.
  The result is the binding and the state its views share.
\<close>

definition Bind :: "('w, 's) Binder \<Rightarrow> (go_error + 's \<times> Peer) \<Rightarrow> Time \<Rightarrow>
    go_error + ('w, 's bindingState) Binding \<times> 's bindingState" where
  "Bind B bindHandle now =
     (case bindHandle of
        Inl err \<Rightarrow> Inl err
      | Inr (i, peer) \<Rightarrow>
          Inr (\<lparr>bPeer = peer, bBoundAt = now, bInner = bindingState_binder B\<rparr>, new_bindingState i))"

text \<open>
  \<^verbatim>\<open>BindServer\<close> of server.go: the same capture for the client end. The platform Binder is not
  wrapped in a \<^verbatim>\<open>bindingState\<close>.
\<close>

definition BindServer :: "('w, 's) Binder \<Rightarrow> (go_error + 's \<times> Peer) \<Rightarrow> Time \<Rightarrow>
    go_error + ('w, 's) Binding \<times> 's" where
  "BindServer B bindServerHandle now =
     (case bindServerHandle of
        Inl err \<Rightarrow> Inl err
      | Inr (i, peer) \<Rightarrow> Inr (\<lparr>bPeer = peer, bBoundAt = now, bInner = B\<rparr>, i))"

text \<open>
  What a \<^verbatim>\<open>net.Conn\<close> offers: no descriptor at all, a \<^verbatim>\<open>syscall.Conn\<close> whose \<^verbatim>\<open>SyscallConn\<close> or
  \<^verbatim>\<open>Control\<close> may fail, or an \<^verbatim>\<open>Fd\<close> method.
\<close>

datatype 'h conn_handle =
    NoHandle
  | SyscallConn "go_error + (go_error + 'h)"
  | HasFd 'h

definition OfConn :: "'h conn_handle \<Rightarrow> ('h \<Rightarrow> go_error + Peer) \<Rightarrow> go_error + Peer" where
  "OfConn c ofHandle =
     (case c of
        SyscallConn (Inl err) \<Rightarrow> Inl (Err ErrUnsupportedConn)
      | SyscallConn (Inr (Inl err)) \<Rightarrow> Inl (Err ErrUnsupportedConn)
      | SyscallConn (Inr (Inr fd)) \<Rightarrow> ofHandle fd
      | HasFd fd \<Rightarrow> ofHandle fd
      | NoHandle \<Rightarrow> Inl (Err ErrUnsupportedConn))"

definition BindConn :: "'h conn_handle \<Rightarrow> ('h \<Rightarrow> go_error + 'b) \<Rightarrow> go_error + 'b" where
  "BindConn c bind =
     (case c of
        SyscallConn (Inl err) \<Rightarrow> Inl (Err ErrUnsupportedConn)
      | SyscallConn (Inr (Inl err)) \<Rightarrow> Inl (Err ErrUnsupportedConn)
      | SyscallConn (Inr (Inr fd)) \<Rightarrow> bind fd
      | _ \<Rightarrow> Inl (Err ErrUnsupportedConn))"

definition BindServerConn :: "'h conn_handle \<Rightarrow> ('h \<Rightarrow> go_error + 'b) \<Rightarrow> go_error + 'b" where
  "BindServerConn c bindServer =
     (case c of
        SyscallConn (Inl err) \<Rightarrow> Inl err
      | SyscallConn (Inr (Inl err)) \<Rightarrow> Inl err
      | SyscallConn (Inr (Inr fd)) \<Rightarrow> bindServer fd
      | _ \<Rightarrow> Inl (Err ErrUnsupportedConn))"

definition Binding_Peer :: "('w, 's) Binding \<Rightarrow> 'w \<Rightarrow> 's \<Rightarrow> go_error + Peer" where
  "Binding_Peer b w s = (case recheck (bInner b) w s of Some err \<Rightarrow> Inl err | None \<Rightarrow> Inr (bPeer b))"

definition Alive :: "('w, 's) Binding \<Rightarrow> 'w \<Rightarrow> 's \<Rightarrow> go_error + bool" where
  "Alive b w s = alive (bInner b) w s"

definition Captured :: "('w, 's) Binding \<Rightarrow> Peer" where
  "Captured b = bPeer b"

definition EvidenceValidUntil :: "('w, 's) Binding \<Rightarrow> Time" where
  "EvidenceValidUntil b = pEvidenceValidUntil (bPeer b)"

definition Binding_Check :: "('w, 's) Binding \<Rightarrow> 'w \<Rightarrow> 's \<Rightarrow> Need \<Rightarrow> error" where
  "Binding_Check b w s n = (case Binding_Peer b w s of Inl err \<Rightarrow> Some err | Inr p \<Rightarrow> Check p n)"

definition Binding_Close :: "('w, 's) Binding \<Rightarrow> 'w \<Rightarrow> 's \<Rightarrow> error \<times> 's" where
  "Binding_Close b w s = release (bInner b) w s"

definition Shared :: "('w, 's) Binding \<Rightarrow> ('w, 's) Binding" where
  "Shared b = \<lparr>bPeer = bPeer b, bBoundAt = bBoundAt b, bInner = sharedBinder (bInner b)\<rparr>"

subsection \<open>Interfaces: owning a handle, and refusing after close\<close>

text \<open>
  \<open>handle_owner\<close> is what every platform's method table promises about its handle: release gives
  it up, and releasing again changes nothing. \<open>closing_handle\<close> adds what the documentation of
  \<^verbatim>\<open>Binding\<close> promises its users: a released handle refuses every later question.
\<close>

locale handle_owner =
  fixes B :: "('w, 's) Binder" and released :: "'s \<Rightarrow> bool"
  assumes release_releases: "released (snd (release B w s))"
    and release_again: "released s \<Longrightarrow> snd (release B w s) = s"
begin

lemma release_twice: "snd (release B w' (snd (release B w s))) = snd (release B w s)"
  by (rule release_again) (rule release_releases)

end

locale closing_handle = handle_owner +
  assumes closed_recheck: "released s \<Longrightarrow> recheck B w s = Some (Err ErrClosed)"
    and closed_alive: "released s \<Longrightarrow> alive B w s = Inl (Err ErrClosed)"
begin

text \<open>A view of the handle: its owner, or a shared view of some depth.\<close>

lemma closed_views_refuse:
  assumes "released s" and view: "bInner b = (sharedBinder ^^ k) B"
  shows "Binding_Peer b w s = Inl (Err ErrClosed)" "Alive b w s = Inl (Err ErrClosed)"
    "Binding_Check b w s n = Some (Err ErrClosed)"
proof -
  have "recheck ((sharedBinder ^^ k) B) = recheck B \<and> alive ((sharedBinder ^^ k) B) = alive B"
    by (induction k) (simp_all add: sharedBinder_def)
  then show "Binding_Peer b w s = Inl (Err ErrClosed)" "Alive b w s = Inl (Err ErrClosed)"
    "Binding_Check b w s n = Some (Err ErrClosed)"
    using closed_recheck [OF assms(1)] closed_alive [OF assms(1)] view
    by (simp_all add: Binding_Peer_def Alive_def Binding_Check_def)
qed

end

interpretation bs: closing_handle "bindingState_binder B" closed
  by unfold_locales
    (auto simp: bindingState_binder_def state_release_def state_recheck_def state_alive_def
      split: prod.splits)

subsection \<open>Sequences of operations on the views of one binding\<close>

datatype view_op =
    OpPeer
  | OpAlive
  | OpClose
  | OpSharedClose

text \<open>What one operation leaves of the shared state; questions leave it alone.\<close>

definition view_step :: "('w, 's) Binding \<Rightarrow> 'w \<Rightarrow> view_op \<Rightarrow> 's \<Rightarrow> 's" where
  "view_step b w opn s =
     (case opn of
        OpPeer \<Rightarrow> s
      | OpAlive \<Rightarrow> s
      | OpClose \<Rightarrow> snd (Binding_Close b w s)
      | OpSharedClose \<Rightarrow> snd (Binding_Close (Shared b) w s))"

fun run_views :: "('w, 's) Binding \<Rightarrow> ('w \<times> view_op) list \<Rightarrow> 's \<Rightarrow> 's" where
  "run_views b [] s = s"
| "run_views b ((w, opn) # rest) s = run_views b rest (view_step b w opn s)"

text \<open>A platform handle that also counts how often it is released.\<close>

definition counted :: "('w, 's) Binder \<Rightarrow> ('w, 's \<times> nat) Binder" where
  "counted B = \<lparr>recheck = (\<lambda>w (s, n). recheck B w s), alive = (\<lambda>w (s, n). alive B w s),
     release = (\<lambda>w (s, n). let (err, s') = release B w s in (err, (s', Suc n)))\<rparr>"

lemma shared_close [simp]: "Binding_Close (Shared b) w s = (None, s)"
  by (simp add: Binding_Close_def Shared_def sharedBinder_def)

lemma view_step_simps [simp]:
  "view_step b w OpPeer s = s" "view_step b w OpAlive s = s" "view_step b w OpSharedClose s = s"
  "view_step b w OpClose s = snd (release (bInner b) w s)"
  by (simp_all add: view_step_def) (simp add: Binding_Close_def)

lemma run_views_closed:
  assumes "bInner b = bindingState_binder B" and "closed s"
  shows "run_views b ops s = s"
  using assms(2)
proof (induction ops)
  case (Cons a ops)
  obtain w opn where "a = (w, opn)" by (cases a)
  then show ?case
    using Cons assms(1) bs.release_again [of s B w] by (cases opn) simp_all
qed simp

lemma run_views_open:
  assumes "bInner b = bindingState_binder B" and "\<not> closed s" and "\<forall>(w, opn) \<in> set ops. opn \<noteq> OpClose"
  shows "run_views b ops s = s"
  using assms(3)
proof (induction ops)
  case (Cons a ops)
  then show ?case by (cases a; cases "snd a") auto
qed simp

lemma run_views_close_once:
  assumes b: "bInner b = bindingState_binder (counted B)" and "\<not> closed s"
    and ex: "\<exists>(w, opn) \<in> set ops. opn = OpClose"
  shows "closed (run_views b ops s) \<and> snd (inner (run_views b ops s)) = Suc (snd (inner s))"
proof -
  obtain us w vs where ops: "ops = us @ (w, OpClose) # vs" and us: "\<forall>(w, opn) \<in> set us. opn \<noteq> OpClose"
    using ex split_list_first_prop [of ops "\<lambda>(w, opn). opn = OpClose"] by fastforce
  have app: "run_views b (xs @ ys) s = run_views b ys (run_views b xs s)" for xs ys s
    by (induction xs arbitrary: s) auto
  let ?s = "snd (state_release (counted B) w s)"
  have "run_views b ops s = run_views b vs ?s"
    by (simp add: ops app run_views_open [OF b assms(2) us] b bindingState_binder_def)
  moreover have "closed ?s" and "snd (inner ?s) = Suc (snd (inner s))"
    using assms(2) by (auto simp: state_release_def counted_def split: prod.splits)
  ultimately show ?thesis using run_views_closed [OF b] by simp
qed

subsection \<open>Properties\<close>

text \<open>
  C3: once the owner of a binding made by \<^verbatim>\<open>Bind\<close> has closed it, every view of it, the owner
  itself and shared views of any depth, answers \<^verbatim>\<open>net.ErrClosed\<close> to \<^verbatim>\<open>Peer\<close>, \<^verbatim>\<open>Alive\<close> and
  \<^verbatim>\<open>Check\<close>, whatever the platform would answer and whatever operations on the views come in
  between.
\<close>

theorem closed_binding_refuses:
  assumes B: "Bind B (Inr (i, p)) now = Inr (b, st)"
    and closed: "st' = snd (Binding_Close b w (run_views b before st))"
    and view: "v = (Shared ^^ k) b"
  shows "Binding_Peer v w' (run_views b after st') = Inl (Err ErrClosed) \<and>
    Alive v w' (run_views b after st') = Inl (Err ErrClosed) \<and>
    Binding_Check v w' (run_views b after st') n = Some (Err ErrClosed)"
proof -
  have b: "bInner b = bindingState_binder B" using B by (auto simp: Bind_def)
  have cl: "bindingState.closed st'"
    using bs.release_releases [of B w "run_views b before st"] by (simp add: closed b Binding_Close_def)
  have "bInner ((Shared ^^ j) b) = (sharedBinder ^^ j) (bindingState_binder B)" for j
    by (induction j) (simp_all add: Shared_def b)
  then show ?thesis
    using bs.closed_views_refuse [OF cl, of v k B] by (simp add: view run_views_closed [OF b cl])
qed

text \<open>A platform handle that always answers, for the witnesses.\<close>

definition steady :: "(unit, bool) Binder" where
  "steady = \<lparr>recheck = (\<lambda>w s. None), alive = (\<lambda>w s. Inr True), release = (\<lambda>w s. (None, True))\<rparr>"

theorem closed_binding_refuses_witness:
  "\<exists>b st. Bind steady (Inr (False, silent_peer)) 1 = Inr (b, st) \<and>
     Binding_Peer b () st = Inr silent_peer \<and>
     Binding_Peer (Shared (Shared b)) () (snd (Binding_Close b () st)) = Inl (Err ErrClosed)"
proof -
  obtain b st where B: "Bind steady (Inr (False, silent_peer)) 1 = Inr (b, st)"
    by (simp add: Bind_def)
  have "Binding_Peer b () st = Inr silent_peer"
    using B by (auto simp: Bind_def Binding_Peer_def bindingState_binder_def state_recheck_def
        new_bindingState_def steady_def)
  moreover have "Binding_Peer (Shared (Shared b)) () (snd (Binding_Close b () st)) = Inl (Err ErrClosed)"
    using closed_binding_refuses [OF B refl refl, where w = "()" and before = "[]" and k = 2 and w' = "()" and after = "[]"]
    by (simp add: numeral_2_eq_2)
  ultimately show ?thesis using B by blast
qed

text \<open>
  C4: the platform handle behind a binding is released exactly once if its owner ever closes
  it, however often and in whatever order the owner and its shared views are closed, and never
  otherwise: closing a shared view releases nothing.
\<close>

theorem released_exactly_once:
  assumes "Bind (counted B) (Inr ((i, 0), p)) now = Inr (b, st)"
  shows "snd (inner (run_views b ops st)) = (if OpClose \<in> snd ` set ops then 1 else 0)"
proof -
  have b: "bInner b = bindingState_binder (counted B)" and st: "st = new_bindingState (i, 0)"
    using assms by (auto simp: Bind_def)
  have op: "\<not> closed st" "snd (inner st) = 0" by (simp_all add: st new_bindingState_def)
  show ?thesis
  proof (cases "OpClose \<in> snd ` set ops")
    case True
    then have "\<exists>(w, opn) \<in> set ops. opn = OpClose" by force
    then show ?thesis using run_views_close_once [OF b op(1)] op(2) True by simp
  next
    case False
    then have "\<forall>(w, opn) \<in> set ops. opn \<noteq> OpClose" by force
    then show ?thesis using run_views_open [OF b op(1)] op(2) False by simp
  qed
qed

theorem released_exactly_once_witness:
  "\<exists>b st. Bind (counted steady) (Inr ((False, 0), silent_peer)) 1 = Inr (b, st) \<and>
     snd (inner (run_views b [((), OpSharedClose), ((), OpClose), ((), OpPeer), ((), OpClose)] st)) = 1"
proof -
  obtain b st where B: "Bind (counted steady) (Inr ((False, 0), silent_peer)) 1 = Inr (b, st)"
    by (simp add: Bind_def)
  then show ?thesis
    using released_exactly_once [OF B, of "[((), OpSharedClose), ((), OpClose), ((), OpPeer), ((), OpClose)]"]
    by simp
qed

end
