(* ===== verification/Session.thy ===== *)
theory Session
  imports Session_Call Bindings
begin

section \<open>The server side of a session connection (listen/session.go, session)\<close>

text \<open>
  \<^verbatim>\<open>session.run\<close> answers the first header with the accept word, binds the peer once, and then
  serves one exchange after another until an exchange breaks or ends the session, the session is
  retired, or the client stops. The loop is a step relation in which the steps of the running
  exchange (\<^verbatim>\<open>call_step\<close>) and retirement by another goroutine interleave freely.
\<close>

definition DefaultSessionIdle :: Duration where "DefaultSessionIdle = 30 * Second"
definition DefaultSessionMaxAge :: Duration where "DefaultSessionMaxAge = 5 * Minute"
definition DefaultMaxSessions :: int where "DefaultMaxSessions = 64"

record SessionOptions =
  soIdle :: Duration
  soMaxAge :: Duration
  soMaxSessions :: int
  soFirstRequest :: Duration

text \<open>The defaults \<^verbatim>\<open>Sessions\<close> applies before it starts the accept loop.\<close>

definition Sessions :: "SessionOptions \<Rightarrow> SessionOptions" where
  "Sessions opts =
     (let opts = (if soIdle opts \<le> 0 then opts\<lparr>soIdle := DefaultSessionIdle\<rparr> else opts);
          opts = (if soMaxAge opts \<le> 0 \<or> DefaultSessionMaxAge < soMaxAge opts
                  then opts\<lparr>soMaxAge := DefaultSessionMaxAge\<rparr> else opts);
          opts = (if soMaxSessions opts \<le> 0 then opts\<lparr>soMaxSessions := DefaultMaxSessions\<rparr> else opts)
      in if soFirstRequest opts \<le> 0 then opts\<lparr>soFirstRequest := DefaultFrameTimeout\<rparr> else opts)"

definition sessionDeadline :: "Time \<Rightarrow> Duration \<Rightarrow> Time \<Rightarrow> Time" where
  "sessionDeadline boundAt maxAge evidenceUntil =
     (let deadline = boundAt + maxAge
      in if \<not> IsZero evidenceUntil \<and> evidenceUntil < deadline then evidenceUntil else deadline)"

definition expired :: "Time \<Rightarrow> Time \<Rightarrow> bool" where
  "expired expires now = (\<not> IsZero expires \<and> \<not> now < expires)"

text \<open>
  What \<^verbatim>\<open>run\<close> computes once after it accepted the session: the binding or the error of \<^verbatim>\<open>Bind\<close>,
  and when the session expires.
\<close>

definition session_expires :: "SessionOptions \<Rightarrow> (go_error + ('w, 's) Binding) \<Rightarrow> Time \<Rightarrow> Time" where
  "session_expires opts bound now =
     (case bound of
        Inr b \<Rightarrow> sessionDeadline (bBoundAt b) (soMaxAge opts) (EvidenceValidUntil b)
      | Inl _ \<Rightarrow> sessionDeadline now (soMaxAge opts) 0)"

text \<open>\<^verbatim>\<open>requestValid\<close> and \<^verbatim>\<open>Bind\<close> of an exchange: a shared view of the session's one binding.\<close>

definition requestValid :: "Time \<Rightarrow> Time \<Rightarrow> error" where
  "requestValid expires now = (if expired expires now then Some (Err ErrSessionExpired) else None)"

definition call_Bind :: "Time \<Rightarrow> (go_error + ('w, 's) Binding) \<Rightarrow> Time \<Rightarrow> go_error + ('w, 's) Binding" where
  "call_Bind expires bound now =
     (case requestValid expires now of
        Some err \<Rightarrow> Inl err
      | None \<Rightarrow> (case bound of Inl err \<Rightarrow> Inl err | Inr b \<Rightarrow> Inr (Shared b)))"

text \<open>The deadline of the wait for the next request.\<close>

definition idle_deadline :: "SessionOptions \<Rightarrow> Time \<Rightarrow> Time \<Rightarrow> Time" where
  "idle_deadline opts expires now =
     (let deadline = now + soIdle opts in if expires < deadline then expires else deadline)"

text \<open>
  \<^verbatim>\<open>nextHeader\<close>: \<open>ended\<close> is \<^verbatim>\<open>retiring\<close>, read under the lock after the header; \<open>late\<close> the last
  look at the expiry.
\<close>

definition nextHeader :: "bool \<Rightarrow> bool \<Rightarrow> conn \<Rightarrow> 32 word option \<times> conn" where
  "nextHeader ended late pc =
     (let (h, err, ib) = read_loop 4 [] (inbox pc);
          pc1 = pc\<lparr>inbox := ib\<rparr>
      in if ended then (None, if h = [] then snd (writeUint32 sessionClosing pc1) else pc1)
         else if h = [] then (None, if IsTimeout err then snd (writeUint32 sessionClosing pc1) else pc1)
         else if err \<noteq> None then
           (if \<not> IsTimeout err then (None, pc1)
            else (case ReadFull (4 - length h) pc1 of
                    (Inl e, pc2) \<Rightarrow> (None, pc2)
                  | (Inr rest, pc2) \<Rightarrow> if late then (None, pc2) else (Some (uint32_be (h @ rest)), pc2)))
         else if late then (None, pc1)
         else (Some (uint32_be h), pc1))"

subsection \<open>The loop\<close>

datatype phase =
    Accepting "32 word"
  | Opened "32 word"
  | Serving "32 word" exchange
  | Waiting
  | Ended

record sess =
  sPhase :: phase
  sConn :: conn
  sRetiring :: bool
  sDispatched :: "32 word list"
  sMarker :: bool

definition start_session :: "32 word \<Rightarrow> conn \<Rightarrow> sess" where
  "start_session header pc =
     \<lparr>sPhase = Accepting header, sConn = pc, sRetiring = False, sDispatched = [], sMarker = False\<rparr>"

inductive session_step :: "sess \<Rightarrow> sess \<Rightarrow> bool" where
  accepted:
    "sPhase s = Accepting h \<Longrightarrow> writeUint32 sessionAccept (sConn s) = (None, pc) \<Longrightarrow>
     session_step s (s\<lparr>sPhase := Opened h, sConn := pc\<rparr>)"
| accept_failed:
    "sPhase s = Accepting h \<Longrightarrow> writeUint32 sessionAccept (sConn s) = (Some err, pc) \<Longrightarrow>
     session_step s (s\<lparr>sPhase := Ended, sConn := pc\<rparr>)"
| not_a_request:
    "sPhase s = Opened h \<Longrightarrow> h AND sessionFlag = 0 \<or> h = sessionClosing \<Longrightarrow>
     session_step s (s\<lparr>sPhase := Ended\<rparr>)"
| undelivered:
    "sPhase s = Opened h \<Longrightarrow> session_step s (s\<lparr>sPhase := Ended\<rparr>)"
| dispatched:
    "sPhase s = Opened h \<Longrightarrow> h AND sessionFlag \<noteq> 0 \<Longrightarrow> h \<noteq> sessionClosing \<Longrightarrow>
     session_step s (s\<lparr>sPhase := Serving h (start_exchange h (sConn s)), sDispatched := sDispatched s @ [h]\<rparr>)"
| serving:
    "sPhase s = Serving h x \<Longrightarrow> call_step x y \<Longrightarrow>
     session_step s (s\<lparr>sPhase := Serving h y, sConn := xConn y\<rparr>)"
| call_ended:
    "sPhase s = Serving h x \<Longrightarrow> xDone x \<Longrightarrow> scBroken (xCall x) \<or> \<not> scContinued (xCall x) \<Longrightarrow>
     session_step s (s\<lparr>sPhase := Ended, sConn := xConn x\<rparr>)"
| retired_after_call:
    "sPhase s = Serving h x \<Longrightarrow> xDone x \<Longrightarrow> \<not> scBroken (xCall x) \<Longrightarrow> scContinued (xCall x) \<Longrightarrow>
     writeUint32 sessionClosing (xConn x) = (err, pc) \<Longrightarrow>
     session_step s (s\<lparr>sPhase := Ended, sConn := pc, sRetiring := True, sMarker := True\<rparr>)"
| idles:
    "sPhase s = Serving h x \<Longrightarrow> xDone x \<Longrightarrow> \<not> scBroken (xCall x) \<Longrightarrow> scContinued (xCall x) \<Longrightarrow>
     \<not> sRetiring s \<Longrightarrow> session_step s (s\<lparr>sPhase := Waiting, sConn := xConn x\<rparr>)"
| idle_failed:
    "sPhase s = Serving h x \<Longrightarrow> xDone x \<Longrightarrow> \<not> scBroken (xCall x) \<Longrightarrow> scContinued (xCall x) \<Longrightarrow>
     session_step s (s\<lparr>sPhase := Ended, sConn := xConn x, sRetiring := True\<rparr>)"
| next_request:
    "sPhase s = Waiting \<Longrightarrow> nextHeader ended late (sConn s) = (Some h, pc) \<Longrightarrow> (sRetiring s \<longrightarrow> ended) \<Longrightarrow>
     session_step s (s\<lparr>sPhase := Opened h, sConn := pc\<rparr>)"
| no_request:
    "sPhase s = Waiting \<Longrightarrow> nextHeader ended late (sConn s) = (None, pc) \<Longrightarrow> (sRetiring s \<longrightarrow> ended) \<Longrightarrow>
     session_step s (s\<lparr>sPhase := Ended, sConn := pc, sMarker := (sent pc \<noteq> sent (sConn s))\<rparr>)"
| retire:
    "session_step s (s\<lparr>sRetiring := True\<rparr>)"

subsection \<open>Reading the next header\<close>

lemma writeUint32_frame:
  assumes "writeUint32 v c = (err, c')"
  shows "inbox c' = inbox c \<and> (writer_contract c \<longrightarrow> writer_contract c') \<and>
    (\<exists>k. sent c' = sent c @ take k (put_be32 v)) \<and> (err = None \<and> writer_contract c \<longrightarrow> sent c' = sent c @ put_be32 v)"
proof -
  obtain n e where w: "conn_write (put_be32 v) c = (n, e, c')" "err = e"
    using assms by (auto simp: writeUint32_def split: prod.splits)
  obtain k where "sent c' = sent c @ take k (put_be32 v)" using conn_write_prefix [OF w(1)] by blast
  then show ?thesis using conn_write_frame [OF w(1)] conn_write_None [of "put_be32 v" c n c'] w by auto
qed

lemma nextHeader_read:
  assumes "read_loop 4 [] (inbox pc) = (h, err, ib)" and "pc1 = pc\<lparr>inbox := ib\<rparr>"
  shows "nextHeader ended late pc =
     (if ended then (None, if h = [] then snd (writeUint32 sessionClosing pc1) else pc1)
      else if h = [] then (None, if IsTimeout err then snd (writeUint32 sessionClosing pc1) else pc1)
      else if err = None then (if late then None else Some (uint32_be h), pc1)
      else if \<not> IsTimeout err then (None, pc1)
      else (case ReadFull (4 - length h) pc1 of
              (Inl e, pc2) \<Rightarrow> (None, pc2)
            | (Inr rest, pc2) \<Rightarrow> (if late then None else Some (uint32_be (h @ rest)), pc2)))"
  using assms by (auto simp: nextHeader_def Let_def split: sum.splits prod.splits)

lemma nextHeader_Some:
  assumes "nextHeader ended late pc = (Some h, pc')"
  shows "payload (inbox pc) = put_be32 h @ payload (inbox pc') \<and> sent pc' = sent pc \<and> accepts pc' = accepts pc"
proof -
  obtain hs err ib where r: "read_loop 4 [] (inbox pc) = (hs, err, ib)" by (cases "read_loop 4 [] (inbox pc)")
  have pay: "payload (inbox pc) = hs @ payload ib" using read_loop_payload [OF r] by simp
  show ?thesis
  proof (cases err)
    case None
    then have "length hs = 4" using read_loop_spec [OF r] by auto
    then show ?thesis
      using assms None pay put_be32_uint32_be [of hs] unfolding nextHeader_read [OF r refl]
      by (auto split: if_splits)
  next
    case (Some e)
    obtain q pc2 where f: "ReadFull (4 - length hs) (pc\<lparr>inbox := ib\<rparr>) = (Inr q, pc2)" "h = uint32_be (hs @ q)" "pc' = pc2"
      using assms Some unfolding nextHeader_read [OF r refl] by (auto split: if_splits sum.splits prod.splits)
    have "length hs < 4" using read_loop_spec [OF r] Some by auto
    then have "length (hs @ q) = 4" using ReadFull_length [OF f(1)] by simp
    then show ?thesis
      using f pay put_be32_uint32_be [of "hs @ q"] ReadFull_payload [OF f(1)] ReadFull_keeps [OF f(1)] by simp
  qed
qed

lemma nextHeader_None:
  assumes "nextHeader ended late pc = (None, pc')"
  shows "(writer_contract pc \<longrightarrow> writer_contract pc') \<and>
    (sent pc' = sent pc \<or>
     payload (inbox pc') = payload (inbox pc) \<and> (\<exists>k. sent pc' = sent pc @ take k (put_be32 sessionClosing)))"
proof -
  obtain hs err ib where r: "read_loop 4 [] (inbox pc) = (hs, err, ib)" by (cases "read_loop 4 [] (inbox pc)")
  have pay: "payload (inbox pc) = hs @ payload ib" using read_loop_payload [OF r] by simp
  obtain e1 pc1 where w: "writeUint32 sessionClosing (pc\<lparr>inbox := ib\<rparr>) = (e1, pc1)"
    by (cases "writeUint32 sessionClosing (pc\<lparr>inbox := ib\<rparr>)")
  obtain q pc2 where f: "ReadFull (4 - length hs) (pc\<lparr>inbox := ib\<rparr>) = (q, pc2)"
    by (cases "ReadFull (4 - length hs) (pc\<lparr>inbox := ib\<rparr>)")
  have "pc' = pc1 \<and> hs = [] \<or> pc' = pc\<lparr>inbox := ib\<rparr> \<or> pc' = pc2"
    using assms w f unfolding nextHeader_read [OF r refl] by (cases q) (auto split: if_splits)
  then consider (marker) "pc' = pc1" "hs = []" | (quiet) "sent pc' = sent pc" "accepts pc' = accepts pc"
    using ReadFull_keeps [OF f] by auto
  then show ?thesis
  proof cases
    case marker
    then show ?thesis using writeUint32_frame [OF w] pay by (auto simp: writer_contract_def)
  next
    case quiet
    then show ?thesis by (simp add: writer_contract_def)
  qed
qed

subsection \<open>Where the connection stands\<close>

text \<open>
  The requests on the wire, each a header and as many bytes as it announces, and the complete
  answer of an exchange after which the session goes on.
\<close>

definition wire_requests :: "(32 word \<times> bytes) list \<Rightarrow> bytes" where
  "wire_requests reqs = concat (map (\<lambda>(h, b). put_be32 h @ b) reqs)"

definition complete_request :: "32 word \<times> bytes \<Rightarrow> bool" where
  "complete_request = (\<lambda>(h, b). length b = unat (h AND lengthMask))"

definition complete_answer :: "32 word \<times> bytes \<Rightarrow> bytes \<Rightarrow> bool" where
  "complete_answer = (\<lambda>(h, b) answer.
     if h AND oneWayFlag \<noteq> 0 then answer = put_be32 sessionFlag
     else \<exists>len body. answer = put_be32 (len OR sessionFlag) @ body \<and> len \<le> lengthMask \<and> length body = unat len)"

text \<open>
  Between exchanges: the dispatched requests were read completely and answered completely, of
  what follows only \<open>pend\<close> was read, and \<open>trail\<close> was written after the answers.
\<close>

definition at_point :: "32 word \<Rightarrow> conn \<Rightarrow> 32 word list \<Rightarrow> bytes \<Rightarrow> conn \<Rightarrow> bytes \<Rightarrow> bool" where
  "at_point h1 pc0 dispatched pend pc trail \<longleftrightarrow>
     (\<exists>reqs answers. put_be32 h1 @ payload (inbox pc0) = wire_requests reqs @ pend @ payload (inbox pc) \<and>
        map fst reqs = dispatched \<and> list_all complete_request reqs \<and> list_all2 complete_answer reqs answers \<and>
        sent pc = sent pc0 @ put_be32 sessionAccept @ concat answers @ trail)"

lemma at_point_next:
  assumes "at_point h1 pc0 d (put_be32 h) pc []" and "payload (inbox pc) = req @ payload (inbox pc')"
    and "complete_request (h, req)" and "complete_answer (h, req) answer" and "sent pc' = sent pc @ answer"
  shows "at_point h1 pc0 (d @ [h]) [] pc' []"
proof -
  obtain reqs answers where p: "put_be32 h1 @ payload (inbox pc0) = wire_requests reqs @ put_be32 h @ payload (inbox pc)"
      "map fst reqs = d" "list_all complete_request reqs" "list_all2 complete_answer reqs answers"
      "sent pc = sent pc0 @ put_be32 sessionAccept @ concat answers"
    using assms(1) by (auto simp: at_point_def)
  show ?thesis unfolding at_point_def
    using p assms(2-5)
    by (intro exI [of _ "reqs @ [(h, req)]"] exI [of _ "answers @ [answer]"])
      (auto simp: wire_requests_def intro!: list_all2_appendI)
qed

definition session_inv :: "32 word \<Rightarrow> conn \<Rightarrow> sess \<Rightarrow> bool" where
  "session_inv h1 pc0 s \<longleftrightarrow>
     (case sPhase s of
        Accepting h \<Rightarrow> h = h1 \<and> sConn s = pc0 \<and> writer_contract pc0 \<and> sDispatched s = [] \<and> \<not> sMarker s
      | Opened h \<Rightarrow> writer_contract (sConn s) \<and> at_point h1 pc0 (sDispatched s) (put_be32 h) (sConn s) [] \<and> \<not> sMarker s
      | Serving h x \<Rightarrow> (\<exists>pc d. writer_contract pc \<and> at_point h1 pc0 d (put_be32 h) pc [] \<and> sDispatched s = d @ [h] \<and>
            reaches (start_exchange h pc) x) \<and> \<not> sMarker s
      | Waiting \<Rightarrow> writer_contract (sConn s) \<and> at_point h1 pc0 (sDispatched s) [] (sConn s) [] \<and> \<not> sMarker s
      | Ended \<Rightarrow> sMarker s \<longrightarrow>
          (\<exists>k. at_point h1 pc0 (sDispatched s) [] (sConn s) (take k (put_be32 sessionClosing))))"

lemma session_inv_start: "writer_contract pc \<Longrightarrow> session_inv h pc (start_session h pc)"
  by (simp add: session_inv_def start_session_def)

lemma continued_boundary:
  assumes "writer_contract pc" "at_point h1 pc0 d (put_be32 h) pc []" "reaches (start_exchange h pc) x"
    "xDone x" "\<not> scBroken (xCall x)" "scContinued (xCall x)"
  shows "at_point h1 pc0 (d @ [h]) [] (xConn x) []" and "writer_contract (xConn x)"
proof -
  have sy: "in_sync h pc x" by (rule in_sync_reaches [OF assms(3) in_sync_start [OF assms(1)]])
  then show "writer_contract (xConn x)" by (simp add: in_sync_def)
  have "\<exists>req answer. payload (inbox pc) = req @ payload (inbox (xConn x)) \<and> complete_request (h, req) \<and>
      sent (xConn x) = sent pc @ answer \<and> complete_answer (h, req) answer"
    using in_sync_done [OF sy assms(4,5)] assms(6)
    by (simp add: complete_request_def complete_answer_def cong: if_cong split del: if_split)
  then obtain req answer where "payload (inbox pc) = req @ payload (inbox (xConn x))" "complete_request (h, req)"
      "complete_answer (h, req) answer" "sent (xConn x) = sent pc @ answer"
    by blast
  then show "at_point h1 pc0 (d @ [h]) [] (xConn x) []" by (rule at_point_next [OF assms(2)])
qed

lemma at_point_marker:
  assumes "at_point h1 pc0 d [] pc []" "payload (inbox pc') = payload (inbox pc)" "sent pc' = sent pc @ trail"
  shows "at_point h1 pc0 d [] pc' trail"
  using assms by (auto simp: at_point_def)

lemma session_inv_step: "session_step s t \<Longrightarrow> session_inv h1 pc0 s \<Longrightarrow> session_inv h1 pc0 t"
proof (induction rule: session_step.induct)
  case (accepted s h pc)
  have "at_point h1 pc0 [] (put_be32 h1) pc []"
    using writeUint32_frame [OF accepted(2)] accepted(1,3)
    by (auto simp: session_inv_def at_point_def wire_requests_def)
  then show ?case using accepted writeUint32_frame [OF accepted(2)] by (simp add: session_inv_def)
next
  case (dispatched s h)
  then show ?case by (auto simp: session_inv_def reaches_def)
next
  case (serving s h x y)
  then obtain pc d where "writer_contract pc" "at_point h1 pc0 d (put_be32 h) pc []" "sDispatched s = d @ [h]"
      "reaches (start_exchange h pc) x" "\<not> sMarker s"
    by (auto simp: session_inv_def)
  moreover from this have "reaches (start_exchange h pc) y"
    using serving(2) by (simp add: reaches_def)
  ultimately show ?case by (auto simp: session_inv_def)
next
  case (retired_after_call s h x err pc)
  then obtain pcb d where "writer_contract pcb" "at_point h1 pc0 d (put_be32 h) pcb []" and d: "sDispatched s = d @ [h]"
      and "reaches (start_exchange h pcb) x"
    by (auto simp: session_inv_def)
  then have b: "at_point h1 pc0 (d @ [h]) [] (xConn x) []"
    using retired_after_call(2-4) by (intro continued_boundary(1))
  obtain k where "inbox pc = inbox (xConn x)" "sent pc = sent (xConn x) @ take k (put_be32 sessionClosing)"
    using writeUint32_frame [OF retired_after_call(5)] by blast
  then have "at_point h1 pc0 (d @ [h]) [] pc (take k (put_be32 sessionClosing))"
    by (intro at_point_marker [OF b]) simp_all
  then show ?case using d by (auto simp: session_inv_def)
next
  case (idles s h x)
  then obtain pcb d where "writer_contract pcb" "at_point h1 pc0 d (put_be32 h) pcb []" and d: "sDispatched s = d @ [h]"
      and "reaches (start_exchange h pcb) x" "\<not> sMarker s"
    by (auto simp: session_inv_def)
  then show ?case
    using continued_boundary [of pcb h1 pc0 d h x] idles(2-4) by (simp add: session_inv_def)
next
  case (next_request s ended late h pc)
  then show ?case
    using nextHeader_Some [OF next_request(2)]
    by (auto simp: session_inv_def at_point_def writer_contract_def)
next
  case (no_request s ended late pc)
  then have b: "at_point h1 pc0 (sDispatched s) [] (sConn s) []" by (simp add: session_inv_def)
  consider "sent pc = sent (sConn s)"
    | k where "payload (inbox pc) = payload (inbox (sConn s))" "sent pc = sent (sConn s) @ take k (put_be32 sessionClosing)"
    using nextHeader_None [OF no_request(2)] by blast
  then show ?case
    using at_point_marker [OF b] by cases (auto simp: session_inv_def)
next
  case (retire s)
  then show ?case by (cases "sPhase s") (auto simp: session_inv_def)
qed (auto simp: session_inv_def)

lemma session_inv_reaches:
  "session_step\<^sup>*\<^sup>* s t \<Longrightarrow> session_inv h1 pc0 s \<Longrightarrow> session_inv h1 pc0 t"
  by (induction rule: rtranclp_induct) (auto intro: session_inv_step)

subsection \<open>Properties\<close>

text \<open>
  The closing marker is honest. Whenever a session has written it, in any interleaving of
  exchanges, expiry and retirement, the bytes the server took off the connection are exactly the
  requests it dispatched, each with its whole body, and not one byte of a further request; and it
  has written the accept word and one complete answer for each dispatched request before the
  marker. So a client that meets the marker in place of an answer may repeat its request
  elsewhere: this session has not read it and never will.
\<close>

theorem closing_marker_honest:
  assumes "writer_contract pc" and "session_step\<^sup>*\<^sup>* (start_session header pc) s" and "sMarker s"
  shows "\<exists>reqs answers k.
    put_be32 header @ payload (inbox pc) = wire_requests reqs @ payload (inbox (sConn s)) \<and>
    map fst reqs = sDispatched s \<and> list_all complete_request reqs \<and>
    list_all2 complete_answer reqs answers \<and>
    sent (sConn s) = sent pc @ put_be32 sessionAccept @ concat answers @ take k (put_be32 sessionClosing)"
proof -
  have "session_inv header pc s"
    by (rule session_inv_reaches [OF assms(2) session_inv_start [OF assms(1)]])
  then obtain k where "at_point header pc (sDispatched s) [] (sConn s) (take k (put_be32 sessionClosing))"
    using assms(3) by (cases "sPhase s") (auto simp: session_inv_def)
  then show ?thesis unfolding at_point_def append_Nil by blast
qed

lemma serving_steps:
  assumes "call_step\<^sup>*\<^sup>* x y" and "sPhase s = Serving h x" and "sConn s = xConn x"
  shows "session_step\<^sup>*\<^sup>* s (s\<lparr>sPhase := Serving h y, sConn := xConn y\<rparr>)"
  using assms(1)
proof (induction rule: rtranclp_induct)
  case base
  have "s\<lparr>sPhase := Serving h x, sConn := xConn x\<rparr> = s" using assms(2,3) by (cases s) simp
  then show ?case by simp
next
  case (step y z)
  have "session_step (s\<lparr>sPhase := Serving h y, sConn := xConn y\<rparr>) (s\<lparr>sPhase := Serving h z, sConn := xConn z\<rparr>)"
    using session_step.serving [of "s\<lparr>sPhase := Serving h y, sConn := xConn y\<rparr>" h y z] step(2) by simp
  with step(3) show ?case by (rule rtranclp.rtrancl_into_rtrancl)
qed

text \<open>A session that serves one request and is then retired: its last state and what it wrote.\<close>

lemma demo_session:
  "\<exists>s. session_step\<^sup>*\<^sup>* (start_session 0x80000001 demo_pc) s \<and> sMarker s \<and> sDispatched s = [0x80000001] \<and>
     sent (sConn s) = put_be32 sessionAccept @ [128, 0, 0, 1, 9] @ put_be32 sessionClosing"
proof -
  let ?pc = "demo_pc\<lparr>sent := put_be32 sessionAccept\<rparr>"
  let ?h = "0x80000001 :: 32 word"
  let ?s0 = "start_session ?h demo_pc"
  let ?s1 = "?s0\<lparr>sPhase := Opened ?h, sConn := ?pc\<rparr>"
  let ?s2 = "?s1\<lparr>sPhase := Serving ?h (start_exchange ?h ?pc), sDispatched := [?h]\<rparr>"
  obtain x where x: "reaches (start_exchange ?h ?pc) x" "xDone x" "\<not> scBroken (xCall x)" "scContinued (xCall x)"
      "sent (xConn x) = put_be32 sessionAccept @ [128, 0, 0, 1, 9]" "accepts (xConn x) = []"
    using demo_exchange [of ?pc "put_be32 sessionAccept"] by auto
  obtain pc' where w: "writeUint32 sessionClosing (xConn x) = (None, pc')"
      "sent pc' = put_be32 sessionAccept @ [128, 0, 0, 1, 9] @ put_be32 sessionClosing"
    using x(5,6) by (auto simp: writeUint32_def conn_write_def)
  let ?s3 = "?s2\<lparr>sPhase := Serving ?h x, sConn := xConn x\<rparr>"
  let ?s4 = "?s3\<lparr>sPhase := Ended, sConn := pc', sRetiring := True, sMarker := True\<rparr>"
  have 1: "session_step ?s0 ?s1"
    using session_step.accepted [of ?s0 ?h ?pc]
    by (simp add: start_session_def writeUint32_def conn_write_def demo_pc_def)
  have 2: "session_step ?s1 ?s2"
    using session_step.dispatched [of ?s1 ?h] by (simp add: wire_defs start_session_def)
  have 3: "session_step\<^sup>*\<^sup>* ?s2 ?s3"
    by (rule serving_steps [OF x(1) [unfolded reaches_def]]) (simp_all add: start_exchange_def)
  have 4: "session_step ?s3 ?s4"
    using session_step.retired_after_call [of ?s3 ?h x None pc'] x w by simp
  have "session_step\<^sup>*\<^sup>* ?s0 ?s4"
    using 1 2 3 4 by (meson converse_rtranclp_into_rtranclp rtranclp.rtrancl_into_rtrancl)
  then show ?thesis using w by (intro exI [of _ ?s4]) simp
qed

theorem closing_marker_honest_witness:
  "\<exists>s reqs. session_step\<^sup>*\<^sup>* (start_session 0x80000001 demo_pc) s \<and> sMarker s \<and>
     put_be32 0x80000001 @ payload (inbox demo_pc) = wire_requests reqs @ payload (inbox (sConn s)) \<and>
     map fst reqs = [0x80000001]"
proof -
  obtain s where s: "session_step\<^sup>*\<^sup>* (start_session 0x80000001 demo_pc) s" "sMarker s" "sDispatched s = [0x80000001]"
    using demo_session by blast
  have "writer_contract demo_pc" by (simp add: writer_contract_def demo_pc_def)
  from closing_marker_honest [OF this s(1,2)] s show ?thesis by (intro exI [of _ s]) auto
qed

text \<open>
  The age of a session is bounded by its evidence. With the options \<^verbatim>\<open>Sessions\<close> settles on, a
  session expires after its binding was taken, at most five minutes after, and no later than the
  captured evidence expires; an exchange offered at or after that instant gets no binding, and one
  before it gets a shared view of the session's own.
\<close>

theorem session_age_bounded:
  fixes b :: "('w, 's) Binding"
  assumes "e = session_expires (Sessions opts) (Inr b) now" and "0 < bBoundAt b"
    and "IsZero (EvidenceValidUntil b) \<or> bBoundAt b < EvidenceValidUntil b"
  shows "bBoundAt b < e \<and> e \<le> bBoundAt b + DefaultSessionMaxAge \<and>
    (\<not> IsZero (EvidenceValidUntil b) \<longrightarrow> e \<le> EvidenceValidUntil b) \<and>
    call_Bind e (Inr b) t = (if t < e then Inr (Shared b) else Inl (Err ErrSessionExpired))"
proof -
  have m: "0 < soMaxAge (Sessions opts)" "soMaxAge (Sessions opts) \<le> DefaultSessionMaxAge"
    by (auto simp: Sessions_def Let_def DefaultSessionMaxAge_def Minute_def Second_def)
  then have "bBoundAt b < e" "e \<le> bBoundAt b + DefaultSessionMaxAge"
      "\<not> IsZero (EvidenceValidUntil b) \<longrightarrow> e \<le> EvidenceValidUntil b"
    using assms(1,3) by (auto simp: session_expires_def sessionDeadline_def Let_def)
  moreover have "\<not> IsZero e" using calculation(1) assms(2) by (simp add: IsZero_def)
  ultimately show ?thesis by (simp add: call_Bind_def requestValid_def expired_def)
qed

theorem session_age_bounded_witness:
  "\<exists>b :: (unit, bool bindingState) Binding. bBoundAt b = 10 \<and>
     call_Bind (session_expires (Sessions \<lparr>soIdle = 0, soMaxAge = 0, soMaxSessions = 0, soFirstRequest = 0\<rparr>) (Inr b) 10)
       (Inr b) (10 + DefaultSessionMaxAge) = Inl (Err ErrSessionExpired)"
proof -
  let ?b = "\<lparr>bPeer = silent_peer, bBoundAt = 10, bInner = bindingState_binder steady\<rparr>"
  let ?o = "\<lparr>soIdle = 0, soMaxAge = 0, soMaxSessions = 0, soFirstRequest = 0\<rparr>"
  have z: "EvidenceValidUntil ?b = 0" by (simp add: EvidenceValidUntil_def silent_peer_def)
  have "call_Bind (session_expires (Sessions ?o) (Inr ?b) 10) (Inr ?b) (10 + DefaultSessionMaxAge) = Inl (Err ErrSessionExpired)"
    using session_age_bounded [OF refl, of ?b ?o 10 "10 + DefaultSessionMaxAge"] z by (simp add: IsZero_def)
  then show ?thesis by (intro exI [of _ ?b]) simp
qed

end
