(* ===== verification/Session_Listener.thy ===== *)
theory Session_Listener
  imports Session "HOL-Library.Multiset"
begin

section \<open>The session listener (listen/session.go, sessionListener)\<close>

text \<open>
  How a connection enters: \<^verbatim>\<open>acceptLoop\<close> counts the connections that have not sent a header,
  \<^verbatim>\<open>firstHeader\<close> tells sessions from single exchanges by the first byte, \<^verbatim>\<open>prepare\<close> admits or
  declines a session, and \<^verbatim>\<open>replayConn\<close> hands a connection that is no session to the service with
  the bytes already read put back. The goroutine hand-over between \<^verbatim>\<open>prepare\<close> and \<^verbatim>\<open>shutdown\<close> is
  the pair of flags of \<^verbatim>\<open>pendingSessionConn\<close>.
\<close>

subsection \<open>Putting bytes back\<close>

record replayConn =
  rcPrefix :: bytes
  rcConn :: conn

definition replay_read :: "nat \<Rightarrow> replayConn \<Rightarrow> bytes \<times> error \<times> replayConn" where
  "replay_read k c =
     (if rcPrefix c \<noteq> [] then (take k (rcPrefix c), None, c\<lparr>rcPrefix := drop k (rcPrefix c)\<rparr>)
      else (case conn_read k (rcConn c) of (bs, err, pc) \<Rightarrow> (bs, err, c\<lparr>rcConn := pc\<rparr>)))"

text \<open>The plain connection a service reads through a \<^verbatim>\<open>replayConn\<close>.\<close>

definition as_conn :: "replayConn \<Rightarrow> conn" where
  "as_conn c = (rcConn c)\<lparr>inbox := (if rcPrefix c = [] then [] else [Data (rcPrefix c)]) @ inbox (rcConn c)\<rparr>"

lemma replay_read_refines:
  "0 < k \<Longrightarrow> replay_read k c = (bs, err, c') \<Longrightarrow> conn_read k (as_conn c) = (bs, err, as_conn c')"
  by (auto simp: replay_read_def as_conn_def conn_read_def split: prod.splits if_splits)

subsection \<open>The first header\<close>

datatype first = Dropped | Plain replayConn | Asks "32 word" conn

text \<open>\<open>deadline\<close> is the answer of \<^verbatim>\<open>SetDeadline\<close>; a dropped connection was closed.\<close>

definition firstHeader :: "error \<Rightarrow> conn \<Rightarrow> first" where
  "firstHeader deadline pc =
     (if deadline \<noteq> None then Dropped
      else (case ReadFull 1 pc of
              (Inl err, _) \<Rightarrow> Dropped
            | (Inr h, pc1) \<Rightarrow>
                if hd h AND 0x80 = 0 then Plain \<lparr>rcPrefix = [hd h], rcConn = pc1\<rparr>
                else (case ReadFull 3 pc1 of
                        (Inl err, _) \<Rightarrow> Dropped
                      | (Inr rest, pc2) \<Rightarrow>
                          (let header = uint32_be (hd h # rest) in
                           if header = sessionClosing then Dropped else Asks header pc2))))"

text \<open>What \<^verbatim>\<open>prepare\<close> delivers for a declined session: the plain header, then the rest.\<close>

definition declined :: "32 word \<Rightarrow> conn \<Rightarrow> replayConn option" where
  "declined header pc =
     (case writeUint32 sessionDecline pc of
        (Some err, _) \<Rightarrow> None
      | (None, pc1) \<Rightarrow> Some \<lparr>rcPrefix = put_be32 (header AND lengthMask), rcConn = pc1\<rparr>)"

subsection \<open>Admission\<close>

record lsession =
  lsIdle :: bool
  lsRetiring :: bool

text \<open>\<^verbatim>\<open>session.retire\<close>: mark the session, and report whether it was idle.\<close>

definition session_retire :: "lsession \<Rightarrow> bool \<times> lsession" where
  "session_retire s = (lsIdle s, s\<lparr>lsRetiring := True\<rparr>)"

text \<open>The search of \<^verbatim>\<open>prepare\<close>, over the sessions in the order the map is iterated.\<close>

fun retire_one :: "lsession list \<Rightarrow> bool \<times> lsession list" where
  "retire_one [] = (False, [])"
| "retire_one (other # rest) =
     (case session_retire other of
        (True, other') \<Rightarrow> (True, other' # rest)
      | (False, other') \<Rightarrow> (case retire_one rest of (found, rest') \<Rightarrow> (found, other' # rest')))"

definition new_session :: lsession where
  "new_session = \<lparr>lsIdle = False, lsRetiring = False\<rparr>"

definition prepare_admit :: "int \<Rightarrow> bool \<Rightarrow> lsession list \<Rightarrow> bool \<times> lsession list" where
  "prepare_admit maxSessions listenerDone sessions =
     (let (admitted, sessions) =
            (if int (length sessions) < maxSessions then (True, sessions) else retire_one sessions);
          admitted = (if listenerDone then False else admitted)
      in (admitted, if admitted then sessions @ [new_session] else sessions))"

subsection \<open>Waiting connections\<close>

record pendingSessionConn =
  pOwned :: bool
  pClosed :: bool

definition pending_release :: "pendingSessionConn \<Rightarrow> bool \<times> pendingSessionConn" where
  "pending_release p = (if pClosed p then (False, p) else (True, p\<lparr>pOwned := False\<rparr>))"

text \<open>\<^verbatim>\<open>interrupt\<close> reports here whether it closes the connection.\<close>

definition pending_interrupt :: "pendingSessionConn \<Rightarrow> bool \<times> pendingSessionConn" where
  "pending_interrupt p = (if \<not> pOwned p \<or> pClosed p then (False, p) else (True, p\<lparr>pClosed := True\<rparr>))"

text \<open>
  What becomes of a connection in \<^verbatim>\<open>prepare\<close>: handed to \<^verbatim>\<open>Accept\<close> as it came or with bytes put back,
  a session to run from its first header, closed, or left to the interrupt that already closed it.
\<close>

datatype prepared = Passed conn | Replayed replayConn | Runs "32 word" conn | Closes | Interrupted

definition hand_over :: "prepared \<Rightarrow> pendingSessionConn \<Rightarrow> prepared" where
  "hand_over result p = (if fst (pending_release p) then result else Interrupted)"

text \<open>
  \<open>receiver\<close> and \<open>has_deadline\<close> are the dynamic type of the connection (a \<^verbatim>\<open>messageReceiver\<close>, a
  \<^verbatim>\<open>deadlineConn\<close>), \<open>p\<close> the flags as the hand-over finds them. An admitted session runs whether or
  not its release succeeds: its reads then fail on the closed connection.
\<close>

definition prepare ::
  "bool \<Rightarrow> bool \<Rightarrow> error \<Rightarrow> pendingSessionConn \<Rightarrow> int \<Rightarrow> bool \<Rightarrow> lsession list \<Rightarrow> conn \<Rightarrow> prepared \<times> lsession list" where
  "prepare receiver has_deadline deadline p maxSessions listenerDone sessions c =
     (if receiver \<or> \<not> has_deadline then (hand_over (Passed c) p, sessions)
      else (case firstHeader deadline c of
              Dropped \<Rightarrow> (Closes, sessions)
            | Plain rc \<Rightarrow> (hand_over (Replayed rc) p, sessions)
            | Asks header pc \<Rightarrow>
                (case prepare_admit maxSessions listenerDone sessions of
                   (True, sessions') \<Rightarrow> (Runs header pc, sessions')
                 | (False, sessions') \<Rightarrow>
                     (case declined header pc of
                        None \<Rightarrow> (Closes, sessions')
                      | Some rc \<Rightarrow> (hand_over (Replayed rc) p, sessions')))))"

text \<open>
  The counter of \<^verbatim>\<open>acceptLoop\<close>: a connection beyond twice \<^verbatim>\<open>MaxSessions\<close> waiting ones is closed
  at once.
\<close>

definition accept_conn :: "SessionOptions \<Rightarrow> int \<Rightarrow> bool \<times> int" where
  "accept_conn opts waiting = (if 2 * soMaxSessions opts \<le> waiting then (False, waiting) else (True, waiting + 1))"

record listener =
  liWaiting :: int
  liSessions :: "lsession list"
  liDone :: bool

text \<open>
  The steps of the listener's goroutines, each one critical section. The two \<open>prepared\<close>
  steps end a connection's wait, without and with a session request; the order in which the map of
  sessions is iterated is arbitrary.
\<close>

inductive listener_step :: "SessionOptions \<Rightarrow> listener \<Rightarrow> listener \<Rightarrow> bool" for opts where
  accepts_conn:
    "\<not> liDone l \<Longrightarrow> accept_conn opts (liWaiting l) = (True, w) \<Longrightarrow>
     listener_step opts l (l\<lparr>liWaiting := w\<rparr>)"
| prepared_plain:
    "0 < liWaiting l \<Longrightarrow> listener_step opts l (l\<lparr>liWaiting := liWaiting l - 1\<rparr>)"
| prepared_session:
    "0 < liWaiting l \<Longrightarrow> mset order = mset (liSessions l) \<Longrightarrow>
     prepare_admit (soMaxSessions opts) (liDone l) order = (admitted, sessions) \<Longrightarrow>
     listener_step opts l
       (l\<lparr>liWaiting := liWaiting l - 1, liSessions := sessions\<rparr>)"
| session_moves:
    "liSessions l = us @ s # vs \<Longrightarrow>
     listener_step opts l (l\<lparr>liSessions := us @ s\<lparr>lsIdle := idle\<rparr> # vs\<rparr>)"
| session_ends:
    "liSessions l = us @ s # vs \<Longrightarrow> listener_step opts l (l\<lparr>liSessions := us @ vs\<rparr>)"
| shutdown:
    "listener_step opts l
       (l\<lparr>liDone := True, liSessions := map (\<lambda>s. snd (session_retire s)) (liSessions l)\<rparr>)"

definition new_listener :: listener where
  "new_listener = \<lparr>liWaiting = 0, liSessions = [], liDone = False\<rparr>"

subsection \<open>Properties\<close>

lemma firstHeader_plain:
  assumes "coming (inbox pc) = b # rest" and "b AND 0x80 = 0"
  obtains rc where "firstHeader None pc = Plain rc" "same_stream (as_conn rc) pc" "sent (rcConn rc) = sent pc"
proof -
  have "1 \<le> length (coming (inbox pc))" using assms(1) by simp
  then obtain pc1 where r: "ReadFull 1 pc = (Inr (take 1 (coming (inbox pc))), pc1)"
      "coming (inbox pc1) = drop 1 (coming (inbox pc))" "ends_with (inbox pc1) = ends_with (inbox pc)" "sent pc1 = sent pc"
    using ReadFull_enough [of 1 pc] by metis
  then show ?thesis
    using assms that [of "\<lparr>rcPrefix = [b], rcConn = pc1\<rparr>"]
    by (simp add: firstHeader_def same_stream_def as_conn_def)
qed

text \<open>
  A connection that does not open a session is served exactly as without sessions. When the
  first byte has its top bit clear, the service gets a connection on which the same bytes and the
  same end arrive, each of its reads answers as a read of that connection, the frame it reads is
  the one the plain connection would have given, and nothing was sent.
\<close>

theorem plain_connection_unchanged:
  assumes "coming (inbox pc) = b # rest" and "b AND 0x80 = 0"
  shows "\<exists>rc. firstHeader None pc = Plain rc \<and> same_stream (as_conn rc) pc \<and> sent (as_conn rc) = sent pc \<and>
    fst (readFrame limit (as_conn rc)) = fst (readFrame limit pc) \<and>
    (\<forall>k q bs err q'. 0 < k \<and> replay_read k q = (bs, err, q') \<longrightarrow> conn_read k (as_conn q) = (bs, err, as_conn q'))"
proof -
  obtain rc where rc: "firstHeader None pc = Plain rc" "same_stream (as_conn rc) pc" "sent (rcConn rc) = sent pc"
    using firstHeader_plain [OF assms] by metis
  then show ?thesis
    using readFrame_same [OF rc(2)] replay_read_refines by (auto simp: as_conn_def)
qed

theorem plain_connection_unchanged_witness:
  "\<exists>rc. firstHeader None (chunked [0, 0, 0, 1, 5]) = Plain rc \<and>
     fst (readFrame 16 (as_conn rc)) = fst (readFrame 16 (chunked [0, 0, 0, 1, 5]))"
  using plain_connection_unchanged [of "chunked [0, 0, 0, 1, 5]" 0 "[0, 0, 1, 5]" 16] by auto

lemma put_be32_flag:
  obtains b rest where "put_be32 w = b # rest" "length rest = 3" "(b AND 0x80 = 0) = (w AND sessionFlag = 0)"
proof -
  have f: "sessionFlag = 2 ^ 31" and m: "(0x80 :: 8 word) = 2 ^ 7" by (simp_all add: sessionFlag_def)
  have "(w AND sessionFlag = 0) = (\<not> bit w 31)"
    unfolding f by (rule and_exp_eq_0_iff_not_bit)
  moreover have "((ucast (drop_bit 24 w) :: 8 word) AND 0x80 = 0) = (\<not> bit w 31)"
    unfolding m and_exp_eq_0_iff_not_bit by (simp add: bit_simps)
  ultimately show ?thesis
    using that [of "ucast (drop_bit 24 w)" "[ucast (drop_bit 16 w), ucast (drop_bit 8 w), ucast w]"]
    by (simp add: put_be32_def)
qed

lemma firstHeader_asks:
  assumes c: "coming (inbox pc) = put_be32 header @ rest" and h: "header AND sessionFlag \<noteq> 0" "header \<noteq> sessionClosing"
  obtains pc' where "firstHeader None pc = Asks header pc'" "coming (inbox pc') = rest"
    "sent pc' = sent pc" "accepts pc' = accepts pc"
proof -
  obtain b bs where b: "put_be32 header = b # bs" "length bs = 3" "b AND 0x80 \<noteq> 0"
    using put_be32_flag [of header] h(1) by metis
  have l1: "1 \<le> length (coming (inbox pc))" using c b(1) by simp
  obtain pc1 where r1: "ReadFull 1 pc = (Inr [b], pc1)" "coming (inbox pc1) = bs @ rest" "sent pc1 = sent pc" "accepts pc1 = accepts pc"
    using ReadFull_enough [OF l1] c b(1) by (auto simp: b(1))
  have l3: "3 \<le> length (coming (inbox pc1))" using r1(2) b(2) by simp
  obtain pc2 where r2: "ReadFull 3 pc1 = (Inr bs, pc2)" "coming (inbox pc2) = rest" "sent pc2 = sent pc1" "accepts pc2 = accepts pc1"
    using ReadFull_enough [OF l3] r1(2) b(2) by auto
  have "uint32_be (b # bs) = header" using b(1) uint32_be_put by metis
  then show ?thesis using that [of pc2] r1 r2 b(3) h(2) by (simp add: firstHeader_def)
qed

text \<open>
  A session request that is not admitted is served as one plain exchange. The client gets the
  decline word, and the service reads, through the connection it is given, the request as a frame
  with the flags removed from its header; what follows is untouched.
\<close>

theorem declined_served_once:
  assumes pc: "takes_all pc" and coming: "coming (inbox pc) = put_be32 header @ body @ rest"
    and header: "header AND sessionFlag \<noteq> 0" "header \<noteq> sessionClosing"
    and len: "length body = unat (header AND lengthMask)" and fits: "header AND lengthMask \<le> limit"
    and full: "prepare_admit maxSessions listenerDone sessions = (False, sessions')" and held: "\<not> pClosed p"
  shows "\<exists>rc q. prepare False True None p maxSessions listenerDone sessions pc = (Replayed rc, sessions') \<and>
    sent (as_conn rc) = sent pc @ put_be32 sessionDecline \<and>
    readFrame limit (as_conn rc) = (Inr body, q) \<and> coming (inbox q) = rest"
proof -
  obtain pc1 where f: "firstHeader None pc = Asks header pc1" "coming (inbox pc1) = body @ rest"
      "sent pc1 = sent pc" "accepts pc1 = accepts pc"
    using firstHeader_asks [OF coming header] by metis
  have "takes_all pc1" using pc f(4) by (simp add: takes_all_def)
  then obtain pc2 where w: "conn_write (put_be32 sessionDecline) pc1 = (int (length (put_be32 sessionDecline)), None, pc2)"
      "sent pc2 = sent pc1 @ put_be32 sessionDecline" "inbox pc2 = inbox pc1"
    using conn_write_takes_all by metis
  let ?rc = "\<lparr>rcPrefix = put_be32 (header AND lengthMask), rcConn = pc2\<rparr>"
  have d: "declined header pc1 = Some ?rc" using w by (simp add: declined_def writeUint32_def)
  have "put_be32 (header AND lengthMask) \<noteq> []" by (simp add: put_be32_def)
  then have c: "coming (inbox (as_conn ?rc)) = put_be32 (header AND lengthMask) @ body @ rest"
    using w f(2) by (simp add: as_conn_def)
  have "header AND lengthMask \<le> lengthMask" by (simp add: word_and_le1)
  then have "header AND lengthMask \<noteq> proofRefusalHeader" using lengthMask_lt by blast
  then obtain q where "readFrame limit (as_conn ?rc) = (Inr body, q)" "coming (inbox q) = rest"
    using readFrame_complete [OF c len fits] by metis
  then show ?thesis
    using d w(2) f full held by (auto simp: as_conn_def prepare_def hand_over_def pending_release_def)
qed

theorem declined_served_once_witness:
  "\<exists>rc q. prepare False True None \<lparr>pOwned = True, pClosed = False\<rparr> 1 False [new_session] (chunked [128, 0, 0, 2, 7, 8]) =
       (Replayed rc, [new_session\<lparr>lsRetiring := True\<rparr>]) \<and> readFrame 16 (as_conn rc) = (Inr [7, 8], q)"
proof -
  have "put_be32 0x80000002 = [128, 0, 0, 2]" by (simp add: put_be32_def)
  then show ?thesis
    using declined_served_once [of "chunked [128, 0, 0, 2, 7, 8]" "0x80000002" "[7, 8]" "[]" 16 1 False "[new_session]"
        "[new_session\<lparr>lsRetiring := True\<rparr>]" "\<lparr>pOwned = True, pClosed = False\<rparr>"]
    by (auto simp: takes_all_def chunked_def wire_defs prepare_admit_def session_retire_def new_session_def)
qed

subsubsection \<open>Handing a pending connection over\<close>

datatype pending_op = Release | Interrupt

text \<open>How often the connection is closed by interrupts and how often a release succeeds.\<close>

fun run_pending :: "pending_op list \<Rightarrow> pendingSessionConn \<Rightarrow> nat \<times> bool" where
  "run_pending [] p = (0, False)"
| "run_pending (Release # ops) p =
     (case pending_release p of (ok, p') \<Rightarrow> (case run_pending ops p' of (n, rel) \<Rightarrow> (n, ok \<or> rel)))"
| "run_pending (Interrupt # ops) p =
     (case pending_interrupt p of (closes, p') \<Rightarrow>
        (case run_pending ops p' of (n, rel) \<Rightarrow> (if closes then Suc n else n, rel)))"

lemma run_pending_closed: "pClosed p \<Longrightarrow> run_pending ops p = (0, False)"
proof (induction ops)
  case (Cons a ops)
  then show ?case by (cases a) (simp_all add: pending_release_def pending_interrupt_def)
qed simp

lemma run_pending_released: "\<not> pOwned p \<Longrightarrow> \<not> pClosed p \<Longrightarrow> fst (run_pending ops p) = 0"
proof (induction ops arbitrary: p)
  case (Cons a ops)
  show ?case
    using Cons.IH [of "p\<lparr>pOwned := False\<rparr>"] Cons.IH [of p] Cons.prems
    by (cases a) (auto simp: pending_release_def pending_interrupt_def split: prod.splits)
qed simp

text \<open>
  A connection waiting for its first header has one owner. Over any sequence of attempts to
  hand it over and of interrupts by a listener shutting down, either it is handed over and never
  closed by an interrupt, or it is closed once and never handed over afterwards.
\<close>

theorem pending_single_owner:
  "case run_pending ops \<lparr>pOwned = True, pClosed = False\<rparr> of
     (closes, handed) \<Rightarrow> closes + (if handed then 1 else 0) \<le> 1"
proof (induction ops)
  case (Cons a ops)
  show ?case
  proof (cases a)
    case Release
    then show ?thesis
      using run_pending_released [of "\<lparr>pOwned = False, pClosed = False\<rparr>" ops]
      by (auto simp: pending_release_def split: prod.splits)
  next
    case Interrupt
    then show ?thesis
      using run_pending_closed [of "\<lparr>pOwned = True, pClosed = True\<rparr>" ops]
      by (auto simp: pending_interrupt_def split: prod.splits)
  qed
qed simp

subsubsection \<open>The bounds of a listener\<close>

lemma waiting_step:
  "listener_step opts l l' \<Longrightarrow> 0 \<le> liWaiting l \<and> liWaiting l \<le> 2 * soMaxSessions opts \<Longrightarrow>
   0 \<le> liWaiting l' \<and> liWaiting l' \<le> 2 * soMaxSessions opts"
  by (induction rule: listener_step.induct) (auto simp: accept_conn_def split: if_splits)

text \<open>
  A listener never has more than twice \<^verbatim>\<open>MaxSessions\<close> connections waiting to send their first
  header, whatever arrives and however its goroutines interleave.
\<close>

theorem waiting_bounded:
  assumes "0 < soMaxSessions opts" and "(listener_step opts)\<^sup>*\<^sup>* new_listener l"
  shows "0 \<le> liWaiting l \<and> liWaiting l \<le> 2 * soMaxSessions opts"
  using assms(2)
proof (induction rule: rtranclp_induct)
  case base
  then show ?case using assms(1) by (simp add: new_listener_def)
next
  case (step y z)
  then show ?case using waiting_step by blast
qed

text \<open>
  C12: \<^verbatim>\<open>MaxSessions\<close> does not bound the sessions a listener holds. While one idle session that was
  told to retire has not ended yet, it lets in any number of further connections: with \<open>m\<close> sessions
  of which one is idle, \<open>n\<close> more are admitted in a row, and afterwards \<open>m - 1 + n\<close> sessions are not
  even retiring.
\<close>

theorem session_cap_exceeded:
  assumes "0 < m"
    and "sessions = \<lparr>lsIdle = True, lsRetiring = False\<rparr> # replicate (m - 1) \<lparr>lsIdle = False, lsRetiring = False\<rparr>"
  shows "\<exists>ss. ((\<lambda>ss. snd (prepare_admit (int m) False ss)) ^^ n) sessions = ss \<and>
    (0 < n \<longrightarrow> length (filter (\<lambda>s. \<not> lsRetiring s) ss) = m - 1 + n) \<and> length ss = m + n"
proof -
  let ?idle = "\<lambda>r. \<lparr>lsIdle = True, lsRetiring = r\<rparr>"
  have "((\<lambda>ss. snd (prepare_admit (int m) False ss)) ^^ n) sessions =
      ?idle (0 < n) # replicate (m - 1) new_session @ replicate n new_session"
  proof (induction n)
    case 0
    then show ?case by (simp add: assms(2) new_session_def)
  next
    case (Suc n)
    then show ?case
      using assms(1) by (simp add: prepare_admit_def session_retire_def Let_def replicate_append_same)
  qed
  then show ?thesis using assms(1) by (auto simp: new_session_def)
qed

text \<open>
  C11: declining a connection retires the sessions in use. When all sessions are active, the search
  for an idle one marks every one of them as retiring before the newcomer is declined, so each of
  them ends after its current exchange.
\<close>

theorem decline_retires_active:
  assumes "\<forall>s \<in> set sessions. \<not> lsIdle s" and "m \<le> int (length sessions)"
  shows "prepare_admit m listenerDone sessions = (False, map (\<lambda>s. s\<lparr>lsRetiring := True\<rparr>) sessions)"
proof -
  have "retire_one ss = (False, map (\<lambda>s. s\<lparr>lsRetiring := True\<rparr>) ss)" if "\<forall>s \<in> set ss. \<not> lsIdle s" for ss
    using that by (induction ss) (simp_all add: session_retire_def)
  then show ?thesis using assms by (simp add: prepare_admit_def)
qed

theorem decline_retires_active_witness:
  "prepare_admit 2 False [new_session, new_session] =
     (False, [new_session\<lparr>lsRetiring := True\<rparr>, new_session\<lparr>lsRetiring := True\<rparr>])"
  using decline_retires_active [of "[new_session, new_session]" 2 False] by (simp add: new_session_def)

theorem session_cap_exceeded_witness:
  "length (filter (\<lambda>s. \<not> lsRetiring s)
     (((\<lambda>ss. snd (prepare_admit 1 False ss)) ^^ 5) [\<lparr>lsIdle = True, lsRetiring = False\<rparr>])) = 5"
  using session_cap_exceeded [of 1 "[\<lparr>lsIdle = True, lsRetiring = False\<rparr>]" 5] by simp

theorem waiting_bounded_witness:
  "\<exists>l. (listener_step \<lparr>soIdle = 1, soMaxAge = 1, soMaxSessions = 1, soFirstRequest = 1\<rparr>)\<^sup>*\<^sup>* new_listener l \<and>
     liWaiting l = 1 \<and> liWaiting l \<le> 2"
proof -
  let ?o = "\<lparr>soIdle = 1, soMaxAge = 1, soMaxSessions = 1, soFirstRequest = 1\<rparr>"
  have s: "listener_step ?o new_listener (new_listener\<lparr>liWaiting := 1\<rparr>)"
    using listener_step.accepts_conn [of new_listener ?o 1] by (simp add: new_listener_def accept_conn_def)
  then have "(listener_step ?o)\<^sup>*\<^sup>* new_listener (new_listener\<lparr>liWaiting := 1\<rparr>)" by blast
  with waiting_bounded [OF _ this] show ?thesis by auto
qed

end
