(* ===== verification/Go_Strings.thy ===== *)
theory Go_Strings
  imports Prelude
begin

section \<open>The string functions of Go's standard library\<close>

text \<open>
  The functions of packages \<^verbatim>\<open>strings\<close> and \<^verbatim>\<open>strconv\<close> that the sources call, over strings as
  lists of bytes. White space is the ASCII set; the files and names the sources trim are
  written in it.
\<close>

definition HasPrefix :: "string \<Rightarrow> string \<Rightarrow> bool" where
  "HasPrefix s p = (take (length p) s = p)"

definition HasSuffix :: "string \<Rightarrow> string \<Rightarrow> bool" where
  "HasSuffix s p = (length p \<le> length s \<and> drop (length s - length p) s = p)"

definition CutPrefix :: "string \<Rightarrow> string \<Rightarrow> string \<times> bool" where
  "CutPrefix s p = (if HasPrefix s p then (drop (length p) s, True) else (s, False))"

definition CutSuffix :: "string \<Rightarrow> string \<Rightarrow> string \<times> bool" where
  "CutSuffix s p = (if HasSuffix s p then (take (length s - length p) s, True) else (s, False))"

definition TrimSuffix :: "string \<Rightarrow> string \<Rightarrow> string" where
  "TrimSuffix s p = fst (CutSuffix s p)"

definition TrimLeft :: "string \<Rightarrow> string \<Rightarrow> string" where
  "TrimLeft s cutset = dropWhile (\<lambda>c. c \<in> set cutset) s"

definition TrimRight :: "string \<Rightarrow> string \<Rightarrow> string" where
  "TrimRight s cutset = rev (dropWhile (\<lambda>c. c \<in> set cutset) (rev s))"

definition ContainsAny :: "string \<Rightarrow> string \<Rightarrow> bool" where
  "ContainsAny s chars = list_ex (\<lambda>c. c \<in> set chars) s"

text \<open>\<open>None\<close> is Go's index \<open>-1\<close>.\<close>

fun Index :: "string \<Rightarrow> string \<Rightarrow> nat option" where
  "Index [] sub = (if sub = [] then Some 0 else None)"
| "Index (c # cs) sub = (if HasPrefix (c # cs) sub then Some 0 else map_option Suc (Index cs sub))"

definition Contains :: "string \<Rightarrow> string \<Rightarrow> bool" where
  "Contains s sub = (Index s sub \<noteq> None)"

fun IndexByte :: "string \<Rightarrow> char \<Rightarrow> nat option" where
  "IndexByte [] b = None"
| "IndexByte (c # cs) b = (if c = b then Some 0 else map_option Suc (IndexByte cs b))"

fun LastIndexByte :: "string \<Rightarrow> char \<Rightarrow> nat option" where
  "LastIndexByte [] b = None"
| "LastIndexByte (c # cs) b =
     (case LastIndexByte cs b of
        Some i \<Rightarrow> Some (Suc i)
      | None \<Rightarrow> if c = b then Some 0 else None)"

text \<open>Splitting around every byte a predicate accepts, and \<^verbatim>\<open>Split\<close> by a one-byte separator.\<close>

fun split_by :: "(char \<Rightarrow> bool) \<Rightarrow> string \<Rightarrow> string list" where
  "split_by P [] = [[]]"
| "split_by P (c # cs) =
     (if P c then [] # split_by P cs
      else (case split_by P cs of [] \<Rightarrow> [[c]] | w # ws \<Rightarrow> (c # w) # ws))"

definition Split :: "string \<Rightarrow> char \<Rightarrow> string list" where
  "Split s sep = split_by (\<lambda>c. c = sep) s"

definition FieldsFunc :: "string \<Rightarrow> (char \<Rightarrow> bool) \<Rightarrow> string list" where
  "FieldsFunc s P = filter (\<lambda>w. w \<noteq> []) (split_by P s)"

definition is_space :: "char \<Rightarrow> bool" where
  "is_space c = (of_char c \<in> {9, 10, 11, 12, 13, 32 :: nat})"

definition Fields :: "string \<Rightarrow> string list" where
  "Fields s = FieldsFunc s is_space"

definition TrimSpace :: "string \<Rightarrow> string" where
  "TrimSpace s = rev (dropWhile is_space (rev (dropWhile is_space s)))"

fun Join :: "string list \<Rightarrow> string \<Rightarrow> string" where
  "Join [] sep = []"
| "Join [w] sep = w"
| "Join (w # ws) sep = w @ sep @ Join ws sep"

definition Cut :: "string \<Rightarrow> char \<Rightarrow> string \<times> string \<times> bool" where
  "Cut s sep = (case IndexByte s sep of
     None \<Rightarrow> (s, [], False)
   | Some i \<Rightarrow> (take i s, drop (Suc i) s, True))"

definition newline :: char where
  "newline = char_of (10 :: nat)"

subsection \<open>Reading integers\<close>

definition is_digit :: "char \<Rightarrow> bool" where
  "is_digit c = (48 \<le> (of_char c :: nat) \<and> (of_char c :: nat) \<le> 57)"

definition digits_int :: "string \<Rightarrow> int" where
  "digits_int s = foldl (\<lambda>n c. 10 * n + (of_char c - 48)) 0 s"

text \<open>\<^verbatim>\<open>strconv.ParseInt(s, 10, 64)\<close>: an optional sign, digits, and the range of an int64.\<close>

definition ParseInt64 :: "string \<Rightarrow> int option" where
  "ParseInt64 s =
     (let neg = (s \<noteq> [] \<and> hd s = CHR ''-'');
          ds = (if s \<noteq> [] \<and> (hd s = CHR ''-'' \<or> hd s = CHR ''+'') then tl s else s);
          n = digits_int ds
      in if ds = [] \<or> \<not> list_all is_digit ds then None
         else if neg then (if n \<le> 2 ^ 63 then Some (- n) else None)
         else (if n < 2 ^ 63 then Some n else None))"

subsection \<open>Lemmas\<close>

lemma split_by_nonempty [simp]: "split_by P s \<noteq> []"
  by (induction s) (auto split: list.splits)

lemma Split_nonempty [simp]: "Split s c \<noteq> []"
  by (simp add: Split_def)

lemma split_by_pieces: "w \<in> set (split_by P s) \<Longrightarrow> c \<in> set w \<Longrightarrow> \<not> P c \<and> c \<in> set s"
proof (induction s arbitrary: w)
  case (Cons a s)
  obtain w0 ws where "split_by P s = w0 # ws"
    using split_by_nonempty by (meson neq_Nil_conv)
  then show ?case
    using Cons.prems Cons.IH [of w0] Cons.IH [of w] by (auto split: if_splits)
qed simp

lemma Join_Cons: "ws \<noteq> [] \<Longrightarrow> Join (w # ws) sep = w @ sep @ Join ws sep"
  by (cases ws) simp_all

lemma Join_append: "xs \<noteq> [] \<Longrightarrow> ys \<noteq> [] \<Longrightarrow> Join (xs @ ys) sep = Join xs sep @ sep @ Join ys sep"
  by (induction xs rule: induct_list012) (simp_all add: Join_Cons)

lemma Join_Split: "Join (Split s c) [c] = s"
proof (induction s)
  case (Cons a s)
  obtain w ws where ws: "split_by (\<lambda>x. x = c) s = w # ws"
    using split_by_nonempty by (meson neq_Nil_conv)
  then show ?case
    using Cons by (cases ws) (auto simp: Split_def Join_Cons)
qed (simp add: Split_def)

lemma split_by_none: "(\<And>c. c \<in> set s \<Longrightarrow> \<not> P c) \<Longrightarrow> split_by P s = [s]"
  by (induction s) auto

lemma split_by_append:
  assumes "P c"
  shows "split_by P (s @ c # t) = split_by P s @ split_by P t"
proof (induction s)
  case (Cons a s)
  then show ?case by (cases "split_by P s") (auto split: list.splits)
qed (simp add: assms)

lemma split_by_Join:
  assumes "ws \<noteq> []" and "P c" and "\<And>w x. w \<in> set ws \<Longrightarrow> x \<in> set w \<Longrightarrow> \<not> P x"
  shows "split_by P (Join ws [c]) = ws"
  using assms
proof (induction ws rule: induct_list012)
  case (2 w)
  then show ?case using split_by_none [of w P] by simp
next
  case (3 w v ws)
  have "split_by P w = [w]" using 3(5) by (intro split_by_none) auto
  moreover have "split_by P (Join (v # ws) [c]) = v # ws" by (rule "3.IH"(2)) (use "3.prems" in auto)
  ultimately show ?case using \<open>P c\<close> by (simp add: split_by_append)
qed simp

lemma Split_Join:
  assumes "ws \<noteq> []" and "\<And>w. w \<in> set ws \<Longrightarrow> c \<notin> set w"
  shows "Split (Join ws [c]) c = ws"
  unfolding Split_def using assms by (intro split_by_Join) auto

lemma Fields_Join:
  assumes "ws \<noteq> []" and "\<And>w. w \<in> set ws \<Longrightarrow> w \<noteq> [] \<and> list_all (\<lambda>c. \<not> is_space c) w"
  shows "Fields (Join ws '' '') = ws"
proof -
  have "split_by is_space (Join ws '' '') = ws"
    using assms by (intro split_by_Join) (auto simp: is_space_def list_all_iff)
  then show ?thesis using assms by (simp add: Fields_def FieldsFunc_def filter_id_conv)
qed

lemma CutSuffix_append [simp]: "CutSuffix (s @ p) p = (s, True)"
  by (simp add: CutSuffix_def HasSuffix_def)

lemma HasPrefix_append [simp]: "HasPrefix (p @ s) p"
  by (simp add: HasPrefix_def)

lemma HasPrefix_iff: "HasPrefix s p \<longleftrightarrow> (\<exists>t. s = p @ t)"
  by (auto simp: HasPrefix_def) (metis append_take_drop_id)

lemma list_all_is_digit_utoa [simp]: "list_all is_digit (utoa n)"
proof (induction n rule: utoa.induct)
  case (1 n)
  have d: "is_digit (digit_char (m mod 10))" for m
  proof -
    have "m mod 10 < 10" by simp
    then have "48 + m mod 10 < 256" by linarith
    then show ?thesis using \<open>m mod 10 < 10\<close> by (simp add: is_digit_def digit_char_def)
  qed
  show ?case using 1 d [of n] by (cases "n < 10") (subst utoa.simps, simp)+
qed

lemma digits_int_value: "list_all is_digit s \<Longrightarrow> digits_int s = int (digits_value s)"
proof (induction s rule: rev_induct)
  case (snoc c s)
  have "(of_char c - 48 :: int) = int (of_char c - 48)" if "is_digit c"
    using that by (simp add: is_digit_def of_nat_diff of_nat_of_char)
  then show ?case using snoc by (simp add: digits_int_def digits_value_def)
qed (simp add: digits_int_def digits_value_def)

lemma utoa_no_sign: "hd (utoa n) \<noteq> CHR ''-''" "hd (utoa n) \<noteq> CHR ''+''"
proof -
  have "is_digit (hd (utoa n))"
    using list_all_is_digit_utoa [of n] utoa_nonempty [of n] by (metis hd_in_set list.pred_set)
  then show "hd (utoa n) \<noteq> CHR ''-''" "hd (utoa n) \<noteq> CHR ''+''"
    by (auto simp: is_digit_def)
qed

lemma ParseInt64_itoa:
  assumes "- (2 ^ 63) \<le> i" "i < 2 ^ 63"
  shows "ParseInt64 (itoa i) = Some i"
  using assms utoa_no_sign [of "nat i"] by (auto simp: ParseInt64_def itoa_def Let_def digits_int_value)

end
