(* ===== verification/File_Paths.thy ===== *)
theory File_Paths
  imports Go_Strings
begin

section \<open>The path functions of Go's standard library on Unix\<close>

text \<open>
  Package \<^verbatim>\<open>path/filepath\<close> as the sources use it on Linux and macOS: \<^verbatim>\<open>IsAbs\<close>, \<^verbatim>\<open>Clean\<close>, \<^verbatim>\<open>Dir\<close>,
  \<^verbatim>\<open>Base\<close>, \<^verbatim>\<open>Join\<close>. The lemmas give the shape of clean absolute paths (a list of names) and the
  measure by which walking up with \<^verbatim>\<open>Dir\<close> ends.
\<close>

abbreviation slash :: char where "slash \<equiv> CHR ''/''"

definition IsAbs :: "string \<Rightarrow> bool" where
  "IsAbs p = HasPrefix p ''/''"

text \<open>The names kept so far, innermost first, are the second argument.\<close>

fun clean_names :: "bool \<Rightarrow> string list \<Rightarrow> string list \<Rightarrow> string list" where
  "clean_names rooted st [] = rev st"
| "clean_names rooted st (c # cs) =
     (if c = [] \<or> c = ''.'' then clean_names rooted st cs
      else if c = ''..'' then
        (case st of
           [] \<Rightarrow> clean_names rooted (if rooted then [] else [''..'']) cs
         | t # st' \<Rightarrow> clean_names rooted (if t = ''..'' then ''..'' # st else st') cs)
      else clean_names rooted (c # st) cs)"

definition Clean :: "string \<Rightarrow> string" where
  "Clean p =
     (let rooted = IsAbs p;
          body = Join (clean_names rooted [] (Split p slash)) ''/''
      in if rooted then ''/'' @ body else if body = [] then ''.'' else body)"

definition Dir :: "string \<Rightarrow> string" where
  "Dir p = (case LastIndexByte p slash of None \<Rightarrow> Clean [] | Some i \<Rightarrow> Clean (take (Suc i) p))"

definition Base :: "string \<Rightarrow> string" where
  "Base p =
     (if p = [] then ''.''
      else (let q = TrimRight p ''/'';
                b = (case LastIndexByte q slash of None \<Rightarrow> q | Some i \<Rightarrow> drop (Suc i) q)
            in if b = [] then ''/'' else b))"

definition filepath_Join :: "string \<Rightarrow> string \<Rightarrow> string" where
  "filepath_Join a b =
     (if a \<noteq> [] then Clean (a @ ''/'' @ b) else if b \<noteq> [] then Clean b else [])"

text \<open>\<^verbatim>\<open>Abs\<close> asks the operating system only for the working directory.\<close>

definition filepath_Abs :: "'e + string \<Rightarrow> string \<Rightarrow> 'e + string" where
  "filepath_Abs getwd path =
     (if IsAbs path then Inr (Clean path)
      else (case getwd of Inl err \<Rightarrow> Inl err | Inr wd \<Rightarrow> Inr (filepath_Join wd path)))"

subsection \<open>Walking up ends\<close>

definition names_size :: "string list \<Rightarrow> nat" where
  "names_size cs = sum_list (map (\<lambda>c. Suc (length c)) cs)"

lemma names_size_simps [simp]:
  "names_size [] = 0" "names_size (c # cs) = Suc (length c) + names_size cs"
  "names_size (cs @ ds) = names_size cs + names_size ds" "names_size (rev cs) = names_size cs"
  by (simp_all add: names_size_def rev_map [symmetric])

lemma clean_names_size: "names_size (clean_names r st cs) \<le> names_size st + names_size cs"
  by (induction r st cs rule: clean_names.induct) (auto split: list.splits)

lemma length_Join_slash: "ws \<noteq> [] \<Longrightarrow> Suc (length (Join ws ''/'')) = names_size ws"
  by (induction ws rule: induct_list012) simp_all

lemma length_Join_le: "length (Join ws ''/'') \<le> names_size ws - 1"
  using length_Join_slash [of ws] by (cases "ws = []") auto

lemma names_size_Split: "names_size (Split s slash) = Suc (length s)"
proof -
  have "Suc (length (Join (Split s slash) ''/'')) = names_size (Split s slash)"
    by (rule length_Join_slash) simp
  then show ?thesis by (simp add: Join_Split)
qed

lemma clean_names_skip: "clean_names r st (cs @ [[]]) = clean_names r st cs"
  by (induction r st cs rule: clean_names.induct) (auto split: list.splits)

lemma Split_last_slash: "Split (q @ ''/'') slash = Split q slash @ [[]]"
  by (simp add: Split_def split_by_append)

lemma Split_first_slash: "Split (slash # q) slash = [] # Split q slash"
  by (simp add: Split_def)

lemma IsAbs_iff: "IsAbs p \<longleftrightarrow> (\<exists>q. p = slash # q)"
  by (auto simp: IsAbs_def HasPrefix_iff)

lemma Clean_length: "p \<noteq> [] \<Longrightarrow> length (Clean p) \<le> length p"
proof (cases "IsAbs p")
  case True
  then obtain q where q: "p = slash # q" by (auto simp: IsAbs_iff)
  have "names_size (clean_names True [] (Split q slash)) \<le> Suc (length q)"
    using clean_names_size [of True "[]" "Split q slash"] by (simp add: names_size_Split)
  then show ?thesis
    using True length_Join_le [of "clean_names True [] (Split q slash)"]
    by (simp add: Clean_def Let_def q Split_first_slash)
next
  case False
  assume p: "p \<noteq> []"
  have "names_size (clean_names False [] (Split p slash)) \<le> Suc (length p)"
    using clean_names_size [of False "[]" "Split p slash"] by (simp add: names_size_Split)
  then show ?thesis
    using False p length_Join_le [of "clean_names False [] (Split p slash)"]
    by (cases p) (auto simp: Clean_def Let_def)
qed

lemma Clean_trailing_slash:
  assumes "q \<noteq> []" shows "length (Clean (q @ ''/'')) < length (q @ ''/'')"
proof -
  have "IsAbs (q @ ''/'') = IsAbs q" using assms by (cases q) (auto simp: IsAbs_iff)
  then have "Clean (q @ ''/'') = Clean q" by (simp add: Clean_def Split_last_slash clean_names_skip)
  then show ?thesis using Clean_length [OF assms] by simp
qed

lemma Clean_empty [simp]: "Clean [] = ''.''"
  by (simp add: Clean_def IsAbs_iff Split_def)

lemma LastIndexByte_Some:
  "LastIndexByte s b = Some i \<Longrightarrow> i < length s \<and> s ! i = b \<and> b \<notin> set (drop (Suc i) s)"
proof (induction s arbitrary: i)
  case (Cons c s)
  have "LastIndexByte s b = None \<Longrightarrow> b \<notin> set s"
    by (induction s) (auto split: option.splits if_splits)
  then show ?case using Cons by (auto split: option.splits if_splits)
qed simp

lemma Clean_root [simp]: "Clean ''/'' = ''/''"
  by (simp add: Clean_def IsAbs_iff Split_def)

definition up_measure :: "string \<Rightarrow> nat" where
  "up_measure p = (if p = [] then 2 else if p = ''.'' then 0 else length p)"

lemma Dir_up: "Dir p \<noteq> p \<Longrightarrow> up_measure (Dir p) < up_measure p"
proof (cases "LastIndexByte p slash")
  case None
  moreover assume "Dir p \<noteq> p"
  ultimately show ?thesis by (auto simp: Dir_def up_measure_def)
next
  case (Some i)
  assume moved: "Dir p \<noteq> p"
  from LastIndexByte_Some [OF Some] have i: "i < length p" "p ! i = slash" by auto
  have t: "take (Suc i) p = take i p @ ''/''" using i by (simp add: take_Suc_conv_app_nth)
  have d: "Dir p = Clean (take i p @ ''/'')" by (simp add: Dir_def Some t)
  have "length (Dir p) < length p"
  proof (cases "take i p = []")
    case True
    then have "Dir p = ''/''" unfolding d by (simp only: append_Nil Clean_root)
    moreover have "hd p = slash" using True i by (cases p) auto
    ultimately show ?thesis using moved i by (cases p) auto
  next
    case False
    then have "length (Dir p) < length (take i p @ ''/'')" unfolding d by (rule Clean_trailing_slash)
    then show ?thesis using i by simp
  qed
  moreover have "p \<noteq> ''.''" using i by (cases i) auto
  moreover have "p \<noteq> []" using i by auto
  moreover have "Dir p \<noteq> []" using d by (auto simp: Clean_def Let_def split: if_splits)
  ultimately show ?thesis by (simp add: up_measure_def)
qed

subsection \<open>Clean absolute paths\<close>

definition name_ok :: "string \<Rightarrow> bool" where
  "name_ok c = (c \<noteq> [] \<and> c \<noteq> ''.'' \<and> c \<noteq> ''..'' \<and> slash \<notin> set c)"

definition abs_path :: "string list \<Rightarrow> string" where
  "abs_path cs = ''/'' @ Join cs ''/''"

lemma clean_names_ok: "list_all name_ok cs \<Longrightarrow> clean_names r st cs = rev st @ cs"
  by (induction cs arbitrary: st) (simp_all add: name_ok_def)

lemma clean_names_rooted:
  "list_all name_ok st \<Longrightarrow> (\<And>c. c \<in> set cs \<Longrightarrow> slash \<notin> set c) \<Longrightarrow> list_all name_ok (clean_names True st cs)"
proof (induction cs arbitrary: st)
  case (Cons c cs)
  then show ?case by (cases st) (auto simp: name_ok_def)
qed (simp add: list_all_rev)

lemma Split_Join_names: "list_all name_ok cs \<Longrightarrow> cs \<noteq> [] \<Longrightarrow> Split (Join cs ''/'') slash = cs"
  by (rule Split_Join) (auto simp: list_all_iff name_ok_def)

lemma IsAbs_abs_path [simp]: "IsAbs (abs_path cs)"
  by (simp add: abs_path_def IsAbs_iff)

lemma Clean_abs_path: "list_all name_ok cs \<Longrightarrow> Clean (abs_path cs) = abs_path cs"
proof (cases "cs = []")
  case False
  assume "list_all name_ok cs"
  then show ?thesis
    using False by (simp add: Clean_def Let_def abs_path_def Split_first_slash Split_Join_names clean_names_ok IsAbs_iff)
qed (simp add: abs_path_def)

lemma Clean_IsAbs:
  assumes "IsAbs p"
  obtains cs where "list_all name_ok cs" "Clean p = abs_path cs"
proof
  show "list_all name_ok (clean_names True [] (Split p slash))"
    by (rule clean_names_rooted) (auto simp: Split_def dest: split_by_pieces)
  show "Clean p = abs_path (clean_names True [] (Split p slash))"
    using assms by (simp add: Clean_def abs_path_def)
qed

lemma clean_absolute_iff: "IsAbs p \<and> Clean p = p \<longleftrightarrow> (\<exists>cs. list_all name_ok cs \<and> p = abs_path cs)"
proof
  assume p: "IsAbs p \<and> Clean p = p"
  then obtain cs where "list_all name_ok cs" "Clean p = abs_path cs" using Clean_IsAbs by blast
  then show "\<exists>cs. list_all name_ok cs \<and> p = abs_path cs" using p by auto
next
  assume "\<exists>cs. list_all name_ok cs \<and> p = abs_path cs"
  then show "IsAbs p \<and> Clean p = p" using Clean_abs_path by auto
qed

lemma Clean_idem_abs: "IsAbs p \<Longrightarrow> Clean (Clean p) = Clean p"
  by (erule Clean_IsAbs) (simp add: Clean_abs_path)

lemma IsAbs_Clean: "IsAbs p \<Longrightarrow> IsAbs (Clean p)"
  by (erule Clean_IsAbs) simp

lemma abs_path_inject:
  assumes "list_all name_ok cs" "list_all name_ok ds"
  shows "abs_path cs = abs_path ds \<longleftrightarrow> cs = ds"
proof -
  have j: "Join ws ''/'' = [] \<longleftrightarrow> ws = []" if "list_all name_ok ws" for ws
    using that by (induction ws rule: induct_list012) (simp_all add: name_ok_def)
  have "cs = ds" if "Join cs ''/'' = Join ds ''/''"
  proof (cases "cs = []")
    case True
    then show ?thesis using that j [OF assms(2)] by simp
  next
    case False
    then have "ds \<noteq> []" using that j [OF assms(1)] by auto
    then show ?thesis
      using Split_Join_names [OF assms(1) False] Split_Join_names [OF assms(2)] that by metis
  qed
  then show ?thesis by (auto simp: abs_path_def)
qed

lemma Join_snoc: "cs \<noteq> [] \<Longrightarrow> Join (cs @ [c]) sep = Join cs sep @ sep @ c"
  by (induction cs rule: induct_list012) (simp_all add: Join_Cons)

lemma LastIndexByte_append:
  "b \<notin> set t \<Longrightarrow> LastIndexByte (s @ b # t) b = Some (length s)"
proof (induction s)
  case Nil
  have "b \<notin> set t \<Longrightarrow> LastIndexByte t b = None" by (induction t) auto
  then show ?case using Nil by simp
qed simp

lemma Dir_abs_path:
  assumes "list_all name_ok (cs @ [c])" shows "Dir (abs_path (cs @ [c])) = abs_path cs"
proof (cases "cs = []")
  case True
  have "slash \<notin> set c" using assms by (simp add: name_ok_def)
  then have "LastIndexByte (slash # c) slash = Some 0" using LastIndexByte_append [of slash c "[]"] by simp
  then show ?thesis by (simp add: Dir_def True abs_path_def)
next
  case False
  let ?p = "slash # Join cs ''/''"
  have c: "slash \<notin> set c" and ok: "list_all name_ok cs" using assms by (simp_all add: name_ok_def)
  have p: "abs_path (cs @ [c]) = ?p @ slash # c" using False by (simp add: abs_path_def Join_snoc)
  have "Dir (abs_path (cs @ [c])) = Clean (?p @ ''/'')"
    unfolding p Dir_def LastIndexByte_append [OF c, of ?p] by simp
  also have "\<dots> = Clean ?p"
    using Split_last_slash [of ?p] by (simp add: Clean_def IsAbs_iff clean_names_skip)
  finally show ?thesis using Clean_abs_path [OF ok] by (simp add: abs_path_def)
qed

lemma Dir_root [simp]: "Dir (abs_path []) = abs_path []"
  by (simp add: Dir_def abs_path_def)

lemma clean_names_filter: "clean_names r st (filter (\<lambda>c. c \<noteq> []) cs) = clean_names r st cs"
  by (induction r st cs rule: clean_names.induct) (auto split: list.splits)

lemma Split_names: "list_all name_ok cs \<Longrightarrow> filter (\<lambda>c. c \<noteq> []) (Split (Join cs ''/'') slash) = cs"
proof (cases "cs = []")
  case False
  assume "list_all name_ok cs"
  then show ?thesis using False by (simp add: Split_Join_names filter_id_conv list_all_iff name_ok_def)
qed (simp add: Split_def)

lemma Split_slash: "Split (a @ slash # b) slash = Split a slash @ Split b slash"
  by (simp add: Split_def split_by_append)

lemma Join_abs_path:
  assumes "list_all name_ok ds" "list_all name_ok cs"
  shows "filepath_Join (abs_path ds) (Join cs ''/'') = abs_path (ds @ cs)"
proof -
  let ?p = "abs_path ds @ slash # Join cs ''/''"
  have "filter (\<lambda>c. c \<noteq> []) (Split ?p slash) = ds @ cs"
    using assms unfolding Split_slash by (simp add: abs_path_def Split_first_slash Split_names)
  then have "clean_names True [] (Split ?p slash) = clean_names True [] (ds @ cs)"
    using clean_names_filter [of True "[]" "Split ?p slash"] by simp
  moreover have "IsAbs ?p" by (simp add: abs_path_def IsAbs_iff)
  ultimately have "Clean ?p = abs_path (ds @ cs)"
    using assms by (simp add: Clean_def abs_path_def clean_names_ok)
  then show ?thesis by (simp add: filepath_Join_def abs_path_def)
qed

lemma Join_names:
  assumes "name_ok c" "list_all name_ok cs"
  shows "filepath_Join c (Join cs ''/'') = Join (c # cs) ''/''"
proof -
  let ?p = "c @ slash # Join cs ''/''"
  have c: "c \<noteq> []" "slash \<notin> set c" using assms(1) by (simp_all add: name_ok_def)
  have "Split c slash = [c]" using c(2) by (simp add: Split_def) (rule split_by_none, auto)
  then have "filter (\<lambda>w. w \<noteq> []) (Split ?p slash) = c # cs"
    using assms c unfolding Split_slash by (simp add: Split_names)
  then have "clean_names False [] (Split ?p slash) = c # cs"
    using clean_names_filter [of False "[]" "Split ?p slash"] clean_names_ok [of "c # cs" False "[]"] assms by simp
  moreover have "\<not> IsAbs ?p" using c by (cases c) (auto simp: IsAbs_iff)
  moreover have "Join (c # cs) ''/'' \<noteq> []" using c by (cases cs) simp_all
  ultimately have "Clean ?p = Join (c # cs) ''/''" by (simp add: Clean_def)
  then show ?thesis using c by (simp add: filepath_Join_def)
qed

lemma Base_abs_path:
  assumes "name_ok c" shows "Base (abs_path (cs @ [c])) = c"
proof -
  have c: "c \<noteq> []" "slash \<notin> set c" using assms by (simp_all add: name_ok_def)
  obtain q where q: "abs_path (cs @ [c]) = q @ slash # c"
    by (cases "cs = []") (auto simp: abs_path_def Join_snoc)
  have "last c \<noteq> slash" using c by (metis last_in_set)
  then have "TrimRight (q @ slash # c) ''/'' = q @ slash # c"
    using c(1) by (cases c rule: rev_cases) (simp_all add: TrimRight_def)
  then show ?thesis
    using c LastIndexByte_append [OF c(2), of q] by (simp add: Base_def q Let_def)
qed

lemma filepath_Abs_absolute:
  assumes "filepath_Abs wd path = Inr a" and "\<And>d. wd = Inr d \<Longrightarrow> IsAbs d"
  obtains cs where "list_all name_ok cs" "Clean a = abs_path cs"
proof -
  have "IsAbs a"
  proof (cases "IsAbs path")
    case True
    then obtain cs where "Clean path = abs_path cs" using Clean_IsAbs by blast
    moreover have "a = Clean path" using assms(1) True by (simp add: filepath_Abs_def)
    ultimately show ?thesis using IsAbs_abs_path by metis
  next
    case False
    then obtain d where d: "wd = Inr d" "a = filepath_Join d path"
      using assms(1) by (auto simp: filepath_Abs_def split: sum.splits)
    then have "IsAbs (d @ ''/'' @ path)" "d \<noteq> []" using assms(2) by (auto simp: IsAbs_iff)
    moreover from this(1) obtain cs where "Clean (d @ ''/'' @ path) = abs_path cs" using Clean_IsAbs by blast
    moreover have "a = Clean (d @ ''/'' @ path)" using d(2) \<open>d \<noteq> []\<close> by (simp add: filepath_Join_def)
    ultimately show ?thesis using IsAbs_abs_path by metis
  qed
  then show ?thesis using that Clean_IsAbs by blast
qed

definition plain_name :: "string \<Rightarrow> bool" where
  "plain_name c = (c \<noteq> [] \<and> c \<noteq> ''.'' \<and> slash \<notin> set c)"

lemma clean_names_plain:
  "list_all plain_name st \<Longrightarrow> (\<And>c. c \<in> set cs \<Longrightarrow> slash \<notin> set c) \<Longrightarrow> list_all plain_name (clean_names r st cs)"
proof (induction cs arbitrary: st)
  case (Cons c cs)
  have "plain_name ''..''" by (simp add: plain_name_def)
  then show ?case using Cons by (cases st) (auto simp: plain_name_def)
qed simp

lemma Clean_no_dot_slash: "\<not> HasPrefix (Clean p) ''./''"
proof (cases "IsAbs p")
  case True
  then show ?thesis by (simp add: Clean_def HasPrefix_iff)
next
  case False
  let ?ws = "clean_names False [] (Split p slash)"
  have "list_all plain_name ?ws" by (rule clean_names_plain) (auto simp: Split_def dest: split_by_pieces)
  then have plain: "c \<noteq> [] \<and> c \<noteq> ''.'' \<and> slash \<notin> set c" if "c \<in> set ?ws" for c
    using that by (auto simp: list_all_iff plain_name_def)
  show ?thesis
  proof (cases ?ws)
    case Nil
    then show ?thesis using False by (simp add: Clean_def HasPrefix_iff)
  next
    case (Cons w ws)
    obtain x w' where w: "w = x # w'" using plain [of w] Cons by (cases w) auto
    have w': "x = CHR ''.'' \<Longrightarrow> w' \<noteq> [] \<and> hd w' \<noteq> slash" using plain [of w] Cons w by (cases w') auto
    show ?thesis
    proof (cases ws)
      case Nil
      then show ?thesis using False Cons w w' by (cases w') (auto simp: Clean_def HasPrefix_iff)
    next
      case (Cons v vs)
      then show ?thesis
        using False \<open>?ws = w # ws\<close> w w' by (cases w') (auto simp: Clean_def HasPrefix_iff)
    qed
  qed
qed

lemma clean_names_subset: "set (clean_names True st cs) \<subseteq> set st \<union> set cs"
proof (induction cs arbitrary: st)
  case (Cons c cs)
  show ?case
  proof (cases st)
    case Nil
    then show ?thesis using Cons.IH [of "[]"] Cons.IH [of "[c]"] by auto
  next
    case (Cons t u)
    then show ?thesis
      using Cons.IH [of st] Cons.IH [of u] Cons.IH [of "c # st"] Cons.IH [of "''..'' # st"] by auto
  qed
qed simp

lemma Clean_chars:
  assumes "IsAbs p" "c \<in> set (Clean p)" shows "c = slash \<or> c \<in> set p"
proof -
  have "c = slash \<or> c \<in> set (Join (clean_names True [] (Split p slash)) ''/'')"
    using assms by (auto simp: Clean_def)
  moreover have "c \<in> set (Join ws ''/'') \<Longrightarrow> c = slash \<or> (\<exists>w \<in> set ws. c \<in> set w)" for ws
    by (induction ws rule: induct_list012) auto
  ultimately consider "c = slash" | w where "w \<in> set (Split p slash)" "c \<in> set w"
    using clean_names_subset [of "[]" "Split p slash"] by auto
  then show ?thesis by cases (auto simp: Split_def dest: split_by_pieces)
qed

end
