(* ===== verification/Mount_Table.thy ===== *)
theory Mount_Table
  imports Go_Strings
begin

section \<open>Reading the mount table (localpath\_linux.go)\<close>

text \<open>
  The parsers of \<^verbatim>\<open>/proc/self/mountinfo\<close>: mount points with their octal escapes undone, and the file
  system types of a device. The round trip against the format proc(5) documents is at the end.
\<close>

subsection \<open>The mount table\<close>

definition backslash :: char where "backslash = char_of (92 :: nat)"

definition octal_digit :: "char \<Rightarrow> bool" where
  "octal_digit c = (48 \<le> (of_char c :: nat) \<and> (of_char c :: nat) \<le> 55)"

text \<open>\<^verbatim>\<open>strconv.ParseUint(s, 8, 8)\<close> of three characters.\<close>

definition parse_octal3 :: "char \<Rightarrow> char \<Rightarrow> char \<Rightarrow> nat option" where
  "parse_octal3 a b c =
     (let n = 64 * (of_char a - 48) + 8 * (of_char b - 48) + (of_char c - 48)
      in if octal_digit a \<and> octal_digit b \<and> octal_digit c \<and> n \<le> 255 then Some n else None)"

fun unescapeMountPath :: "string \<Rightarrow> string" where
  "unescapeMountPath (c # x # y # z # rest) =
     (case (if c = backslash then parse_octal3 x y z else None) of
        Some n \<Rightarrow> char_of n # unescapeMountPath rest
      | None \<Rightarrow> c # unescapeMountPath (x # y # z # rest))"
| "unescapeMountPath (c # rest) = c # unescapeMountPath rest"
| "unescapeMountPath [] = []"

definition mountPointsOf :: "string \<Rightarrow> string list" where
  "mountPointsOf info =
     map (\<lambda>fs. unescapeMountPath (fs ! 4))
       (filter (\<lambda>fs. 9 \<le> length fs) (map Fields (Split info newline)))"

text \<open>The inner loop of \<^verbatim>\<open>mountTypes\<close>: the field after the first separator that has one.\<close>

fun type_after :: "string list \<Rightarrow> string option" where
  "type_after (a # b # rest) = (if a = ''-'' then Some b else type_after (b # rest))"
| "type_after _ = None"

definition line_type :: "string \<Rightarrow> string list \<Rightarrow> string option" where
  "line_type want fs =
     (if length fs < 9 \<or> fs ! 2 \<noteq> want then None else type_after (drop 6 fs))"

definition mountTypes :: "string \<Rightarrow> 32 word \<Rightarrow> 32 word \<Rightarrow> string list" where
  "mountTypes mountinfo major minor =
     (let want = utoa (unat major) @ '':'' @ utoa (unat minor)
      in List.map_filter (\<lambda>line. line_type want (Fields line)) (Split mountinfo newline))"

subsection \<open>Reading the mount table\<close>

text \<open>
  A line of \<^verbatim>\<open>/proc/self/mountinfo\<close> as proc(5) documents it, and the kernel's escaping of a mount
  point: space, tab, newline and backslash become a backslash and three octal digits.
\<close>

record mount_entry =
  meHead :: "string list"
  meDevice :: "32 word \<times> 32 word"
  meRoot :: string
  mePoint :: string
  meOptions :: string
  meOptional :: "string list"
  meType :: string
  meTail :: "string list"

definition octal3 :: "nat \<Rightarrow> string" where
  "octal3 n = [char_of (48 + n div 64), char_of (48 + n div 8 mod 8), char_of (48 + n mod 8)]"

definition escape_char :: "char \<Rightarrow> string" where
  "escape_char c =
     (if of_char c \<in> {9, 10, 32, 92 :: nat} then backslash # octal3 (of_char c) else [c])"

definition mountinfo_fields :: "mount_entry \<Rightarrow> string list" where
  "mountinfo_fields e =
     meHead e @ [utoa (unat (fst (meDevice e))) @ '':'' @ utoa (unat (snd (meDevice e))), meRoot e,
       concat (map escape_char (mePoint e)), meOptions e] @ meOptional e @ [''-'', meType e] @ meTail e"

definition mountinfo :: "mount_entry list \<Rightarrow> string" where
  "mountinfo es = concat (map (\<lambda>e. Join (mountinfo_fields e) '' '' @ [newline]) es)"

text \<open>
  The entries whose fields are words: only the mount point may hold spaces, and no field, the
  mount point included, holds one of the three white-space characters the kernel leaves as they
  are (vertical tab, form feed, carriage return).
\<close>

definition word :: "string \<Rightarrow> bool" where
  "word w = (w \<noteq> [] \<and> list_all (\<lambda>c. \<not> is_space c) w)"

definition entry_ok :: "mount_entry \<Rightarrow> bool" where
  "entry_ok e =
     (length (meHead e) = 2 \<and> list_all word (meHead e) \<and> word (meRoot e) \<and> mePoint e \<noteq> [] \<and>
      list_all (\<lambda>c. of_char c \<notin> {11, 12, 13 :: nat}) (mePoint e) \<and> word (meOptions e) \<and>
      list_all word (meOptional e) \<and> ''-'' \<notin> set (meOptional e) \<and> word (meType e) \<and>
      length (meTail e) = 2 \<and> list_all word (meTail e))"

lemma unescape_plain: "c \<noteq> backslash \<Longrightarrow> unescapeMountPath (c # r) = c # unescapeMountPath r"
  by (cases r rule: unescapeMountPath.cases) simp_all

lemma unescape_escape_char: "unescapeMountPath (escape_char c @ r) = c # unescapeMountPath r"
proof (cases "of_char c \<in> {9, 10, 32, 92 :: nat}")
  case True
  then consider "c = char_of (9 :: nat)" | "c = char_of (10 :: nat)" | "c = char_of (32 :: nat)" | "c = char_of (92 :: nat)"
    by (metis char_of_char empty_iff insert_iff)
  then show ?thesis
    by cases (simp_all add: escape_char_def octal3_def parse_octal3_def octal_digit_def backslash_def)
next
  case False
  then have "c \<noteq> backslash" by (auto simp: backslash_def)
  with False show ?thesis by (simp add: escape_char_def unescape_plain)
qed

lemma unescape_escape: "unescapeMountPath (concat (map escape_char s)) = s"
  by (induction s) (simp_all add: unescape_escape_char)

lemma word_utoa: "list_all (\<lambda>c. \<not> is_space c) (utoa n)"
  using list_all_is_digit_utoa [of n] by (auto simp: list_all_iff is_digit_def is_space_def)

lemma word_escaped:
  "list_all (\<lambda>c. of_char c \<notin> {11, 12, 13 :: nat}) s \<Longrightarrow> list_all (\<lambda>c. \<not> is_space c) (concat (map escape_char s))"
proof (induction s)
  case (Cons c s)
  have "list_all (\<lambda>x. \<not> is_space x) (escape_char c)"
  proof (cases "of_char c \<in> {9, 10, 32, 92 :: nat}")
    case True
    then show ?thesis by (auto simp: escape_char_def octal3_def backslash_def is_space_def)
  next
    case False
    then show ?thesis using Cons.prems by (auto simp: escape_char_def is_space_def)
  qed
  then show ?case using Cons by simp
qed simp

lemma escaped_nonempty: "s \<noteq> [] \<Longrightarrow> concat (map escape_char s) \<noteq> []"
  by (cases s) (auto simp: escape_char_def)

lemma fields_words: "entry_ok e \<Longrightarrow> w \<in> set (mountinfo_fields e) \<Longrightarrow> w \<noteq> [] \<and> list_all (\<lambda>c. \<not> is_space c) w"
proof -
  assume e: "entry_ok e" and w: "w \<in> set (mountinfo_fields e)"
  have "word (utoa m @ '':'' @ utoa n)" for m n using word_utoa by (simp add: word_def is_space_def)
  moreover have "word (concat (map escape_char (mePoint e)))"
    using e word_escaped [of "mePoint e"] escaped_nonempty [of "mePoint e"] by (simp add: word_def entry_ok_def)
  moreover have "word ''-''" by (simp add: word_def is_space_def)
  ultimately have "list_all word (mountinfo_fields e)" using e by (simp add: mountinfo_fields_def entry_ok_def)
  then have "word w" using w by (simp add: list_all_iff)
  then show ?thesis by (simp add: word_def)
qed

lemma Fields_line: "entry_ok e \<Longrightarrow> Fields (Join (mountinfo_fields e) '' '') = mountinfo_fields e"
  using fields_words by (intro Fields_Join) (auto simp: mountinfo_fields_def)

lemma Join_chars: "c \<in> set (Join ws sep) \<Longrightarrow> c \<in> set sep \<or> (\<exists>w \<in> set ws. c \<in> set w)"
  by (induction ws sep rule: Join.induct) auto

lemma newline_not_space: "newline \<noteq> CHR '' ''"
proof
  assume "newline = CHR '' ''"
  then have "of_char newline = (of_char (CHR '' '') :: nat)" by simp
  then show False by (simp add: newline_def)
qed

lemma no_newline: "entry_ok e \<Longrightarrow> newline \<notin> set (Join (mountinfo_fields e) '' '')"
proof
  assume e: "entry_ok e" and "newline \<in> set (Join (mountinfo_fields e) '' '')"
  then obtain w where "w \<in> set (mountinfo_fields e)" "newline \<in> set w"
    using Join_chars [of newline "mountinfo_fields e" "'' ''"] newline_not_space by auto
  moreover have "is_space newline" by (simp add: is_space_def newline_def)
  ultimately show False using fields_words [OF e, of w] by (auto simp: list_all_iff)
qed

lemma Split_mountinfo:
  "list_all entry_ok es \<Longrightarrow> map Fields (Split (mountinfo es) newline) = map mountinfo_fields es @ [[]]"
proof (induction es)
  case Nil
  then show ?case by (simp add: mountinfo_def Split_def Fields_def FieldsFunc_def)
next
  case (Cons e es)
  have "split_by (\<lambda>c. c = newline) (Join (mountinfo_fields e) '' '') = [Join (mountinfo_fields e) '' '']"
    using no_newline [of e] Cons.prems by (intro split_by_none) auto
  then show ?case
    using Cons Fields_line [of e] by (simp add: mountinfo_def Split_def split_by_append)
qed

lemma type_after_skip: "''-'' \<notin> set os \<Longrightarrow> type_after (os @ ''-'' # t # rest) = Some t"
proof (induction os)
  case (Cons x os)
  then show ?case by (cases os) auto
qed simp

lemma device_text:
  "utoa a @ '':'' @ utoa b = utoa c @ '':'' @ utoa d \<longleftrightarrow> a = c \<and> b = d"
proof -
  have t: "takeWhile is_digit (utoa n @ '':'' @ r) = utoa n" for n r
  proof -
    have "\<not> is_digit CHR '':''" by (simp add: is_digit_def)
    then show ?thesis using list_all_is_digit_utoa [of n] by (simp add: list_all_iff takeWhile_append2)
  qed
  have i: "utoa n = utoa m \<longleftrightarrow> n = m" for n m by (metis digits_value_utoa)
  show ?thesis
  proof
    assume eq: "utoa a @ '':'' @ utoa b = utoa c @ '':'' @ utoa d"
    then have "utoa a = utoa c" using t [of a "utoa b"] t [of c "utoa d"] by simp
    then show "a = c \<and> b = d" using eq i by simp
  qed simp
qed

lemma line_type_fields:
  assumes "entry_ok e"
  shows "line_type (utoa (unat ma) @ '':'' @ utoa (unat mi)) (mountinfo_fields e) =
    (if meDevice e = (ma, mi) then Some (meType e) else None)"
proof -
  obtain x y where h: "meHead e = [x, y]"
    using assms by (auto simp: entry_ok_def length_Suc_conv numeral_2_eq_2)
  have "drop 6 (mountinfo_fields e) = meOptional e @ ''-'' # meType e # meTail e"
    by (simp add: mountinfo_fields_def h)
  moreover have "mountinfo_fields e ! 2 = utoa (unat (fst (meDevice e))) @ '':'' @ utoa (unat (snd (meDevice e)))"
    by (simp add: mountinfo_fields_def h)
  moreover have "9 \<le> length (mountinfo_fields e)" using assms by (simp add: mountinfo_fields_def h entry_ok_def)
  ultimately show ?thesis
    using assms device_text type_after_skip [of "meOptional e" "meType e" "meTail e"]
    by (cases "meDevice e") (auto simp: line_type_def entry_ok_def word_unat_eq_iff)
qed

text \<open>
  The mount table is read back as the kernel wrote it. For every table whose fields are words,
  with any mount points free of vertical tab, form feed and carriage return, the mount points are
  recovered exactly, escapes undone, and the types found for a device are the types of exactly its
  entries.
\<close>

theorem mountinfo_round_trip:
  assumes "list_all entry_ok es"
  shows "mountPointsOf (mountinfo es) = map mePoint es \<and>
    mountTypes (mountinfo es) ma mi = map meType (filter (\<lambda>e. meDevice e = (ma, mi)) es)"
proof
  have point: "9 \<le> length (mountinfo_fields e) \<and> unescapeMountPath (mountinfo_fields e ! 4) = mePoint e"
    if e: "entry_ok e" for e
  proof -
    obtain x y where "meHead e = [x, y]"
      using e by (auto simp: entry_ok_def length_Suc_conv numeral_2_eq_2)
    then show ?thesis using e unescape_escape by (simp add: mountinfo_fields_def entry_ok_def)
  qed
  show "mountPointsOf (mountinfo es) = map mePoint es"
    unfolding mountPointsOf_def Split_mountinfo [OF assms]
    using assms point by (induction es) simp_all
  let ?want = "utoa (unat ma) @ '':'' @ utoa (unat mi)"
  have "mountTypes (mountinfo es) ma mi = List.map_filter (line_type ?want) (map Fields (Split (mountinfo es) newline))"
    by (simp add: mountTypes_def Let_def List.map_filter_def filter_map o_def)
  also have "\<dots> = map meType (filter (\<lambda>e. meDevice e = (ma, mi)) es)"
    unfolding Split_mountinfo [OF assms] using assms line_type_fields [of _ ma mi]
    by (induction es) (auto simp: List.map_filter_def line_type_def)
  finally show "mountTypes (mountinfo es) ma mi = map meType (filter (\<lambda>e. meDevice e = (ma, mi)) es)" .
qed

definition data_mount :: mount_entry where
  "data_mount =
     \<lparr>meHead = [''36'', ''25''], meDevice = (0, 50), meRoot = ''/'', mePoint = ''/mnt/my data'', meOptions = ''rw'',
      meOptional = [''shared:1''], meType = ''fuse.sshfs'', meTail = [''host:'', ''rw'']\<rparr>"

theorem mountinfo_round_trip_witness:
  "mountPointsOf (mountinfo [data_mount]) = [''/mnt/my data''] \<and> mountTypes (mountinfo [data_mount]) 0 50 = [''fuse.sshfs'']"
proof -
  have "list_all entry_ok [data_mount]" by (simp add: entry_ok_def data_mount_def word_def is_space_def)
  from mountinfo_round_trip [OF this, of 0 50] show ?thesis by (simp add: data_mount_def)
qed

text \<open>
  The same entry mounted at a point whose name holds carriage returns, which the kernel writes as
  they are and \<^verbatim>\<open>strings.Fields\<close> splits at.
\<close>

definition carriage_return :: char where "carriage_return = char_of (13 :: nat)"

definition spoofing_mount :: mount_entry where
  "spoofing_mount = data_mount\<lparr>mePoint :=
     Join [''/mnt/a'', ''b'', ''-'', ''fuseblk''] [carriage_return]\<rparr>"

lemma spoofing_mount_type: "mountTypes (mountinfo [spoofing_mount]) 0 50 = [''fuseblk'']"
  by code_simp

end
