(* ===== verification/Local_Path.thy ===== *)
theory Local_Path
  imports File_Paths Mount_Table Go_Errors
begin

section \<open>Which paths are local (localpath\_linux.go, localpath\_statfs.go)\<close>

text \<open>
  \<^verbatim>\<open>LocalPath\<close> decides on Linux whether the package may open a path, by asking the kernel what
  file system holds the deepest existing part of it. The kernel's answers are a record; the
  parsing of the mount table, the walk up the path, the choice of the mount a probe is counted
  against, and the counters that bound the probes are modelled as written.
\<close>

subsection \<open>The kernel\<close>

text \<open>
  \<^verbatim>\<open>vhStatfs\<close> answers with the \<^verbatim>\<open>f_type\<close> of a path's volume, \<^verbatim>\<open>vhStatDevice\<close> with its device number,
  which \<^verbatim>\<open>vhMajor\<close> and \<^verbatim>\<open>vhMinor\<close> (package golang.org/x/sys/unix) take apart. \<^verbatim>\<open>vhText\<close> is the
  text of an error of the operating system.
\<close>

record volume_host =
  vhGetwd :: "go_error + string"
  vhStatfs :: "string \<Rightarrow> go_error + 64 word"
  vhStatDevice :: "string \<Rightarrow> go_error + 64 word"
  vhMountInfo :: "go_error + string"
  vhMajor :: "64 word \<Rightarrow> 32 word"
  vhMinor :: "64 word \<Rightarrow> 32 word"
  vhText :: "go_error \<Rightarrow> string"

definition err_text :: "volume_host \<Rightarrow> go_error \<Rightarrow> string" where
  "err_text h err = (case err of New m \<Rightarrow> m | _ \<Rightarrow> vhText h err)"

subsection \<open>File system types\<close>

definition networkFileSystems :: "(32 word \<times> string) list" where
  "networkFileSystems =
     [(0x6969, ''nfs''), (0x517b, ''smb''), (0xff534d42, ''cifs''), (0xfe534d42, ''smb2''),
      (0x00c36400, ''ceph''), (0x5346414f, ''afs''), (0x6b414653, ''afs''), (0x01021997, ''9p''),
      (0x73757245, ''coda''), (0x564c, ''ncp''), (0x0bd00bd0, ''lustre''), (0x47504653, ''gpfs''),
      (0x19830326, ''beegfs''), (0x01161970, ''gfs2''), (0x7461636f, ''ocfs2''), (0xaad7aaea, ''panfs''),
      (0xbeefdead, ''snfs''), (0x013111a8, ''ibrix''), (0x61636673, ''acfs''), (0x786f4256, ''vboxsf''),
      (0xbacbacbc, ''vmhgfs''), (0x7c7c6673, ''prl_fs''), (0x0187, ''autofs'')]"

definition fuseSuperMagic :: "32 word" where "fuseSuperMagic = 0x65735546"

definition localFUSE :: "string list" where
  "localFUSE = [''fuseblk'', ''fuse.lxcfs'', ''fuse.squashfuse'', ''fuse.squashfuse_ll'', ''fuse.fuse-overlayfs'']"

subsection \<open>The answer for a volume\<close>

text \<open>The loop of \<^verbatim>\<open>volumeAnswer\<close>: the first type that is not local refuses.\<close>

fun first_remote :: "string list \<Rightarrow> string option" where
  "first_remote [] = None"
| "first_remote (t # ts) = (if t \<in> set localFUSE then first_remote ts else Some t)"

definition not_local :: "string \<Rightarrow> go_error" where
  "not_local name = New (''its volume is not a local file system ('' @ name @ '')'')"

definition volumeAnswer :: "volume_host \<Rightarrow> string \<Rightarrow> 64 word \<Rightarrow> error" where
  "volumeAnswer h p type =
     (let magic = (ucast type :: 32 word) in
      case map_of networkFileSystems magic of
        Some name \<Rightarrow> Some (not_local name)
      | None \<Rightarrow>
          if magic \<noteq> fuseSuperMagic then None
          else (case vhStatDevice h p of
                  Inl err \<Rightarrow> Some err
                | Inr dev \<Rightarrow>
                    (case vhMountInfo h of
                       Inl err \<Rightarrow> Some (New (''its FUSE volume's type could not be read: '' @ err_text h err))
                     | Inr info \<Rightarrow>
                         (let types = mountTypes info (vhMajor h dev) (vhMinor h dev)
                          in if types = [] then Some (New ''its FUSE volume is not in /proc/self/mountinfo'')
                             else map_option not_local (first_remote types)))))"

function volumeLocal :: "volume_host \<Rightarrow> string \<Rightarrow> error" where
  "volumeLocal h p =
     (case vhStatfs h p of
        Inr type \<Rightarrow> volumeAnswer h p type
      | Inl err \<Rightarrow>
          if \<not> errors_is err (Errno 2) \<and> \<not> errors_is err (Errno 20) then Some err
          else if Dir p = p then Some (New ''no part of it could be read'')
          else volumeLocal h (Dir p))"
  by auto
termination
  by (relation "measure (\<lambda>(h, p). up_measure p)") (simp_all add: Dir_up)

declare volumeLocal.simps [simp del]

subsection \<open>LocalPath\<close>

definition markedNetwork :: "string list \<Rightarrow> string \<Rightarrow> bool" where
  "markedNetwork prefixes ap = list_ex (\<lambda>p. ap = p \<or> HasPrefix ap (p @ ''/'')) prefixes"

text \<open>
  What the clock decides in one call: whether the mount table was read in time, whether a probe
  could start on the path's mount, and whether it answered before the deadline.
\<close>

record probe_times =
  ptMount :: bool
  ptSlot :: bool
  ptAnswer :: bool

definition localPath :: "volume_host \<Rightarrow> string list \<Rightarrow> probe_times \<Rightarrow> string \<Rightarrow> error" where
  "localPath h prefixes tm path =
     (if path = [] then Some (New ''identity: empty path'')
      else (case filepath_Abs (vhGetwd h) path of
              Inl err \<Rightarrow> Some (NotLocalPathError path (err_text h err))
            | Inr a \<Rightarrow>
                (let ap = Clean a in
                 if markedNetwork prefixes ap then Some (NotLocalPathError path ''a network volume'')
                 else if \<not> ptMount tm \<or> \<not> ptSlot tm \<or> \<not> ptAnswer tm
                 then Some (NotLocalPathError path ''its volume did not answer in time'')
                 else (case volumeLocal h ap of
                         Some err \<Rightarrow> Some (NotLocalPathError path (err_text h err))
                       | None \<Rightarrow> None))))"

subsection \<open>The mount a path is counted against\<close>

definition spelledWithin :: "string \<Rightarrow> string \<Rightarrow> bool" where
  "spelledWithin ap folder = (ap = folder \<or> folder = ''/'' \<or> HasPrefix ap (folder @ ''/''))"

record root_alias =
  alFrom :: string
  alTo :: string

fun best_alias :: "string \<Rightarrow> root_alias option \<Rightarrow> root_alias list \<Rightarrow> root_alias option" where
  "best_alias ap best [] = best"
| "best_alias ap best (a # as) =
     best_alias ap
       (if spelledWithin ap (alFrom a) \<and>
           (case best of None \<Rightarrow> True | Some b \<Rightarrow> length (alFrom b) < length (alFrom a))
        then Some a else best) as"

definition TrimPrefix :: "string \<Rightarrow> string \<Rightarrow> string" where
  "TrimPrefix s p = fst (CutPrefix s p)"

fun unalias_n :: "nat \<Rightarrow> string \<Rightarrow> root_alias list \<Rightarrow> string" where
  "unalias_n 0 ap aliases = ap"
| "unalias_n (Suc n) ap aliases =
     (case best_alias ap None aliases of
        None \<Rightarrow> ap
      | Some b \<Rightarrow> unalias_n n (alTo b @ TrimPrefix ap (alFrom b)) aliases)"

definition unalias :: "string \<Rightarrow> root_alias list \<Rightarrow> string" where
  "unalias ap aliases = unalias_n 4 ap aliases"

text \<open>What \<^verbatim>\<open>refreshMountTable\<close> stores: both readers' answers, in one spelling.\<close>

definition refreshMountTable ::
  "go_error + string list \<Rightarrow> go_error + root_alias list \<Rightarrow> string list \<times> root_alias list" where
  "refreshMountTable points aliases =
     (let as = (case aliases of Inl _ \<Rightarrow> [] | Inr as \<Rightarrow> as);
          ps = (case points of Inl _ \<Rightarrow> [] | Inr ps \<Rightarrow> ps)
      in (map (\<lambda>m. unalias m as) ps, as))"

fun best_mount :: "string \<Rightarrow> string \<Rightarrow> string list \<Rightarrow> string" where
  "best_mount ap best [] = best"
| "best_mount ap best (m # ms) =
     best_mount ap (if length best < length m \<and> spelledWithin ap m then m else best) ms"

definition mountOf :: "string list \<times> root_alias list \<Rightarrow> string \<Rightarrow> string" where
  "mountOf table ap = (case table of (points, aliases) \<Rightarrow> best_mount (unalias ap aliases) [] points)"

subsection \<open>Bounded probes\<close>

definition maxStuckVolumeProbes :: nat where "maxStuckVolumeProbes = 8"

record mountProbes =
  mpOutstanding :: int
  mpStuck :: int
  mpFreed :: bool

record probe =
  prStuck :: bool
  prDone :: bool

type_synonym probe_table = "string \<Rightarrow> mountProbes option"

text \<open>
  One round of the loop of \<^verbatim>\<open>startProbe\<close>, under the lock: a probe starts, the call is refused at once,
  or it waits until a probe of the mount returns or its own deadline fires. \<^verbatim>\<open>mpFreed\<close> says that
  the channel waiting calls block on exists.
\<close>

datatype slot = Starts | Refuses | Waits

definition startProbe :: "string \<Rightarrow> probe_table \<Rightarrow> slot \<times> probe_table" where
  "startProbe mount t =
     (let m = (case t mount of None \<Rightarrow> \<lparr>mpOutstanding = 0, mpStuck = 0, mpFreed = False\<rparr> | Some m \<Rightarrow> m) in
      if mpOutstanding m < int maxStuckVolumeProbes then (Starts, t(mount \<mapsto> m\<lparr>mpOutstanding := mpOutstanding m + 1\<rparr>))
      else if 0 < mpStuck m then (Refuses, t(mount \<mapsto> m))
      else (Waits, t(mount \<mapsto> m\<lparr>mpFreed := True\<rparr>)))"

text \<open>\<open>None\<close> is the panic of reading through a missing entry of the map.\<close>

definition endProbe :: "string \<Rightarrow> probe \<Rightarrow> probe_table \<Rightarrow> (probe \<times> probe_table) option" where
  "endProbe mount p t =
     (case t mount of
        None \<Rightarrow> None
      | Some m \<Rightarrow>
          (let m = m\<lparr>mpOutstanding := mpOutstanding m - 1\<rparr>;
               m = (if prStuck p then m\<lparr>mpStuck := mpStuck m - 1\<rparr> else m);
               m = m\<lparr>mpFreed := False\<rparr>
           in Some (p\<lparr>prDone := True\<rparr>, if mpOutstanding m = 0 then t(mount := None) else t(mount \<mapsto> m))))"

definition markStuck :: "string \<Rightarrow> probe \<Rightarrow> probe_table \<Rightarrow> (probe \<times> probe_table) option" where
  "markStuck mount p t =
     (if \<not> prDone p \<and> \<not> prStuck p then
        (case t mount of
           None \<Rightarrow> None
         | Some m \<Rightarrow> Some (p\<lparr>prStuck := True\<rparr>, t(mount \<mapsto> m\<lparr>mpStuck := mpStuck m + 1\<rparr>)))
      else Some (p, t))"

text \<open>
  The goroutines of all calls of \<^verbatim>\<open>LocalPath\<close>: probes start, return and outlive their caller's
  deadline in any order. The second component lists every probe ever started, with its mount.
\<close>

inductive probe_step ::
  "probe_table \<times> (string \<times> probe) list \<Rightarrow> probe_table \<times> (string \<times> probe) list \<Rightarrow> bool" where
  starts: "startProbe mount t = (Starts, t') \<Longrightarrow>
     probe_step (t, ps) (t', ps @ [(mount, \<lparr>prStuck = False, prDone = False\<rparr>)])"
| waits: "startProbe mount t = (slot, t') \<Longrightarrow> slot \<noteq> Starts \<Longrightarrow> probe_step (t, ps) (t', ps)"
| ends: "\<not> prDone p \<Longrightarrow> endProbe mount p t = Some (p', t') \<Longrightarrow>
     probe_step (t, us @ (mount, p) # vs) (t', us @ (mount, p') # vs)"
| outlives: "markStuck mount p t = Some (p', t') \<Longrightarrow>
     probe_step (t, us @ (mount, p) # vs) (t', us @ (mount, p') # vs)"

definition running :: "string \<Rightarrow> (string \<times> probe) list \<Rightarrow> int" where
  "running mount ps = int (length (filter (\<lambda>(m, p). m = mount \<and> \<not> prDone p) ps))"

definition stuck_running :: "string \<Rightarrow> (string \<times> probe) list \<Rightarrow> int" where
  "stuck_running mount ps = int (length (filter (\<lambda>(m, p). m = mount \<and> \<not> prDone p \<and> prStuck p) ps))"

definition mount_ok :: "mountProbes option \<Rightarrow> int \<Rightarrow> int \<Rightarrow> bool" where
  "mount_ok e r k = (r \<le> int maxStuckVolumeProbes \<and>
     (case e of
        None \<Rightarrow> r = 0
      | Some m \<Rightarrow> 0 < r \<and> mpOutstanding m = r \<and> mpStuck m = k))"

definition probes_ok :: "probe_table \<times> (string \<times> probe) list \<Rightarrow> bool" where
  "probes_ok s = (\<forall>mount. mount_ok (fst s mount) (running mount (snd s)) (stuck_running mount (snd s)))"

lemma running_simps [simp]:
  "running m [] = 0" "stuck_running m [] = 0"
  "running m ((k, p) # ps) = (if m = k \<and> \<not> prDone p then 1 else 0) + running m ps"
  "stuck_running m ((k, p) # ps) = (if m = k \<and> \<not> prDone p \<and> prStuck p then 1 else 0) + stuck_running m ps"
  "running m (us @ ps) = running m us + running m ps"
  "stuck_running m (us @ ps) = stuck_running m us + stuck_running m ps"
  by (auto simp: running_def stuck_running_def)

lemma stuck_le_running: "0 \<le> stuck_running m ps" "stuck_running m ps \<le> running m ps"
  by (induction ps) auto

lemma startProbe_other: "startProbe mount t = (r, t') \<Longrightarrow> x \<noteq> mount \<Longrightarrow> t' x = t x"
  by (auto simp: startProbe_def Let_def split: if_splits)

lemma startProbe_ok:
  assumes "startProbe mount t = (r, t')" "mount_ok (t mount) n k" "0 \<le> k" "k \<le> n"
  shows "mount_ok (t' mount) (if r = Starts then n + 1 else n) k"
  using assms by (cases "t mount") (auto simp: startProbe_def Let_def mount_ok_def maxStuckVolumeProbes_def split: if_splits)

lemma endProbe_other: "endProbe mount p t = Some (p', t') \<Longrightarrow> x \<noteq> mount \<Longrightarrow> t' x = t x"
  by (auto simp: endProbe_def Let_def split: option.splits)

lemma endProbe_ok:
  assumes "endProbe mount p t = Some (p', t')" "mount_ok (t mount) n k"
  shows "mount_ok (t' mount) (n - 1) (if prStuck p then k - 1 else k) \<and> prDone p' \<and> prStuck p' = prStuck p"
  using assms by (cases "t mount") (auto simp: endProbe_def Let_def mount_ok_def split: if_splits)

lemma markStuck_other: "markStuck mount p t = Some (p', t') \<Longrightarrow> x \<noteq> mount \<Longrightarrow> t' x = t x"
  by (auto simp: markStuck_def split: option.splits if_splits)

lemma markStuck_ok:
  assumes "markStuck mount p t = Some (p', t')" "mount_ok (t mount) n k"
  shows "mount_ok (t' mount) n (if \<not> prDone p \<and> \<not> prStuck p then k + 1 else k) \<and> prDone p' = prDone p \<and>
    (prStuck p' \<longleftrightarrow> prStuck p \<or> \<not> prDone p)"
  using assms by (cases "t mount") (auto simp: markStuck_def mount_ok_def split: if_splits)

lemma probes_ok_move:
  assumes "probes_ok (t, ps)" and "\<And>x. x \<noteq> mount \<Longrightarrow> t' x = t x"
    and "\<And>x. x \<noteq> mount \<Longrightarrow> running x ps' = running x ps \<and> stuck_running x ps' = stuck_running x ps"
    and "mount_ok (t' mount) (running mount ps') (stuck_running mount ps')"
  shows "probes_ok (t', ps')"
  unfolding probes_ok_def
proof
  fix x
  show "mount_ok (fst (t', ps') x) (running x (snd (t', ps'))) (stuck_running x (snd (t', ps')))"
    using assms by (cases "x = mount") (simp_all add: probes_ok_def)
qed

lemma probes_ok_at: "probes_ok (t, ps) \<Longrightarrow> mount_ok (t mount) (running mount ps) (stuck_running mount ps)"
  by (simp add: probes_ok_def)

lemma probes_ok_step: "probe_step s s' \<Longrightarrow> probes_ok s \<Longrightarrow> probes_ok s'"
proof (induction rule: probe_step.induct)
  case (starts mount t t' ps)
  show ?case
    using startProbe_ok [OF starts.hyps probes_ok_at [OF starts.prems] stuck_le_running]
    by (intro probes_ok_move [OF starts.prems startProbe_other [OF starts.hyps]]) auto
next
  case (waits mount t slot t' ps)
  show ?case
    using startProbe_ok [OF waits.hyps(1) probes_ok_at [OF waits.prems] stuck_le_running] waits.hyps(2)
    by (intro probes_ok_move [OF waits.prems startProbe_other [OF waits.hyps(1)]]) auto
next
  case (ends p mount t p' t' us vs)
  show ?case
    using endProbe_ok [OF ends.hyps(2) probes_ok_at [OF ends.prems]] ends.hyps(1)
    by (intro probes_ok_move [OF ends.prems endProbe_other [OF ends.hyps(2)]]) (auto split: if_splits)
next
  case (outlives mount p t p' t' us vs)
  show ?case
    using markStuck_ok [OF outlives.hyps probes_ok_at [OF outlives.prems]]
    by (intro probes_ok_move [OF outlives.prems markStuck_other [OF outlives.hyps]])
      (auto simp: ac_simps split: if_splits)
qed

lemma probes_ok_reach: "probe_step\<^sup>*\<^sup>* s s' \<Longrightarrow> probes_ok s \<Longrightarrow> probes_ok s'"
  by (induction rule: rtranclp_induct) (auto intro: probes_ok_step)

text \<open>
  The volume probes of one mount are bounded, whatever volumes answer and however the calls
  interleave. No more than eight probes of a mount are running at once; its entry counts exactly
  those and the ones that outlived their caller, so a mount that stops answering holds at most
  eight threads; an entry exists exactly while a probe runs; and neither the return of a running
  probe nor its missed deadline ever meets a missing entry, which would be a panic.
\<close>

theorem probes_bounded:
  assumes "probe_step\<^sup>*\<^sup>* ((\<lambda>_. None), []) (t, ps)"
  shows "running mount ps \<le> 8 \<and>
    (case t mount of
       None \<Rightarrow> running mount ps = 0
     | Some m \<Rightarrow> 0 < running mount ps \<and> mpOutstanding m = running mount ps \<and> mpStuck m = stuck_running mount ps) \<and>
    (\<forall>p. (mount, p) \<in> set ps \<and> \<not> prDone p \<longrightarrow> endProbe mount p t \<noteq> None \<and> markStuck mount p t \<noteq> None)"
proof -
  have "probes_ok ((\<lambda>_. None), [])" by (simp add: probes_ok_def mount_ok_def)
  then have ok: "probes_ok (t, ps)" by (rule probes_ok_reach [OF assms])
  then have m: "mount_ok (t mount) (running mount ps) (stuck_running mount ps)" by (rule probes_ok_at)
  have "0 < running mount ps" if p: "(mount, p) \<in> set ps" "\<not> prDone p" for p
  proof -
    obtain us vs where "ps = us @ (mount, p) # vs" using split_list [OF p(1)] by blast
    then show ?thesis using p(2) stuck_le_running [of mount us] stuck_le_running [of mount vs] by simp
  qed
  then show ?thesis
    using m by (cases "t mount") (auto simp: mount_ok_def maxStuckVolumeProbes_def endProbe_def markStuck_def Let_def)
qed

theorem probes_bounded_witness:
  "\<exists>t ps. probe_step\<^sup>*\<^sup>* ((\<lambda>_. None), []) (t, ps) \<and> running ''/mnt'' ps = 1 \<and> running ''/mnt'' ps \<le> 8"
proof -
  let ?t = "(\<lambda>_. None)(''/mnt'' \<mapsto> \<lparr>mpOutstanding = 1, mpStuck = 0, mpFreed = False\<rparr>) :: probe_table"
  have "probe_step ((\<lambda>_. None), []) (?t, [] @ [(''/mnt'', \<lparr>prStuck = False, prDone = False\<rparr>)])"
    by (rule probe_step.starts) (simp add: startProbe_def maxStuckVolumeProbes_def)
  then have "probe_step\<^sup>*\<^sup>* ((\<lambda>_. None), []) (?t, [(''/mnt'', \<lparr>prStuck = False, prDone = False\<rparr>)])" by auto
  from probes_bounded [OF this, of "''/mnt''"] this show ?thesis by fastforce
qed

subsection \<open>What a local answer means\<close>

text \<open>The file systems \<^verbatim>\<open>volumeAnswer\<close> accepts, written out.\<close>

definition holds_local_data :: "volume_host \<Rightarrow> string \<Rightarrow> 64 word \<Rightarrow> bool" where
  "holds_local_data h p type =
     (let magic = (ucast type :: 32 word) in
      magic \<notin> fst ` set networkFileSystems \<and>
      (magic = fuseSuperMagic \<longrightarrow>
        (case (vhStatDevice h p, vhMountInfo h) of
           (Inr dev, Inr info) \<Rightarrow>
             mountTypes info (vhMajor h dev) (vhMinor h dev) \<noteq> [] \<and>
             set (mountTypes info (vhMajor h dev) (vhMinor h dev)) \<subseteq> set localFUSE
         | _ \<Rightarrow> False)))"

lemma first_remote_None: "first_remote ts = None \<longleftrightarrow> set ts \<subseteq> set localFUSE"
  by (induction ts) auto

lemma volumeAnswer_exact: "volumeAnswer h p type = None \<longleftrightarrow> holds_local_data h p type"
proof (cases "map_of networkFileSystems (ucast type)")
  case None
  then have "ucast type \<notin> fst ` set networkFileSystems" by (simp add: map_of_eq_None_iff)
  with None show ?thesis
    by (auto simp: volumeAnswer_def holds_local_data_def Let_def first_remote_None split: sum.splits)
next
  case (Some name)
  then have "ucast type \<in> fst ` set networkFileSystems" by (metis map_of_eq_None_iff option.distinct(1))
  then show ?thesis using Some by (simp add: volumeAnswer_def holds_local_data_def)
qed

text \<open>A path the kernel cannot find is skipped on the way up.\<close>

definition missing :: "volume_host \<Rightarrow> string \<Rightarrow> bool" where
  "missing h p = (case vhStatfs h p of Inl err \<Rightarrow> errors_is err (Errno 2) \<or> errors_is err (Errno 20) | Inr _ \<Rightarrow> False)"

lemma volumeLocal_exact:
  "volumeLocal h p = None \<longleftrightarrow>
   (\<exists>n type. (\<forall>k < n. missing h ((Dir ^^ k) p)) \<and> vhStatfs h ((Dir ^^ n) p) = Inr type \<and>
     holds_local_data h ((Dir ^^ n) p) type)"
proof (induction h p rule: volumeLocal.induct)
  case (1 h p)
  have shift: "(\<exists>n type. (\<forall>k < n. missing h ((Dir ^^ k) p)) \<and> vhStatfs h ((Dir ^^ n) p) = Inr type \<and>
        holds_local_data h ((Dir ^^ n) p) type) \<longleftrightarrow>
      missing h p \<and> (\<exists>n type. (\<forall>k < n. missing h ((Dir ^^ k) (Dir p))) \<and>
        vhStatfs h ((Dir ^^ n) (Dir p)) = Inr type \<and> holds_local_data h ((Dir ^^ n) (Dir p)) type)"
    if e: "vhStatfs h p = Inl err" for err
  proof
    assume "\<exists>n type. (\<forall>k < n. missing h ((Dir ^^ k) p)) \<and> vhStatfs h ((Dir ^^ n) p) = Inr type \<and>
        holds_local_data h ((Dir ^^ n) p) type"
    then obtain n type where n: "\<forall>k < n. missing h ((Dir ^^ k) p)" "vhStatfs h ((Dir ^^ n) p) = Inr type"
        "holds_local_data h ((Dir ^^ n) p) type" by blast
    then obtain m where m: "n = Suc m" using e by (cases n) auto
    have "missing h p" using n(1) m by (metis funpow_0 zero_less_Suc)
    moreover have "\<forall>k < m. missing h ((Dir ^^ k) (Dir p))"
      using n(1) m by (metis Suc_mono comp_apply funpow_Suc_right)
    ultimately show "missing h p \<and> (\<exists>n type. (\<forall>k < n. missing h ((Dir ^^ k) (Dir p))) \<and>
        vhStatfs h ((Dir ^^ n) (Dir p)) = Inr type \<and> holds_local_data h ((Dir ^^ n) (Dir p)) type)"
      using n(2,3) m by (auto simp: funpow_swap1)
  next
    assume "missing h p \<and> (\<exists>n type. (\<forall>k < n. missing h ((Dir ^^ k) (Dir p))) \<and>
        vhStatfs h ((Dir ^^ n) (Dir p)) = Inr type \<and> holds_local_data h ((Dir ^^ n) (Dir p)) type)"
    then obtain n type where n: "missing h p" "\<forall>k < n. missing h ((Dir ^^ k) (Dir p))"
        "vhStatfs h ((Dir ^^ n) (Dir p)) = Inr type" "holds_local_data h ((Dir ^^ n) (Dir p)) type" by blast
    have "\<forall>k < Suc n. missing h ((Dir ^^ k) p)"
      using n(1,2) by (metis comp_apply funpow_0 funpow_Suc_right less_Suc_eq_0_disj)
    then show "\<exists>n type. (\<forall>k < n. missing h ((Dir ^^ k) p)) \<and> vhStatfs h ((Dir ^^ n) p) = Inr type \<and>
        holds_local_data h ((Dir ^^ n) p) type"
      using n(3,4) by (metis comp_apply funpow_Suc_right)
  qed
  show ?case
  proof (cases "vhStatfs h p")
    case (Inr type)
    have "n = 0" if "\<forall>k < n. missing h ((Dir ^^ k) p)" for n :: nat
      using that Inr by (cases n) (auto simp: missing_def)
    then have "(\<exists>n type. (\<forall>k < n. missing h ((Dir ^^ k) p)) \<and> vhStatfs h ((Dir ^^ n) p) = Inr type \<and>
        holds_local_data h ((Dir ^^ n) p) type) \<longleftrightarrow> holds_local_data h p type"
      using Inr by (metis funpow_0 less_nat_zero_code sum.inject(2))
    moreover have "volumeLocal h p = volumeAnswer h p type" using Inr by (subst volumeLocal.simps) simp
    ultimately show ?thesis using volumeAnswer_exact by simp
  next
    case (Inl err)
    show ?thesis
    proof (cases "Dir p = p")
      case True
      then have up: "(Dir ^^ n) p = p" for n by (induction n) auto
      show ?thesis using Inl True by (subst volumeLocal.simps) (auto simp: up)
    next
      case False
      then show ?thesis
        using Inl 1 [OF Inl] shift [OF Inl]
        by (subst volumeLocal.simps) (auto simp: missing_def)
    qed
  qed
qed


definition plain_volume :: volume_host where
  "plain_volume =
     \<lparr>vhGetwd = Inr ''/'', vhStatfs = (\<lambda>p. if p = ''/'' then Inr 0xef53 else Inl (Errno 2)),
      vhStatDevice = (\<lambda>_. Inr 0), vhMountInfo = Inr [], vhMajor = (\<lambda>_. 0), vhMinor = ucast, vhText = (\<lambda>_. [])\<rparr>"



end
