(* ===== verification/Path_Identity.thy ===== *)
theory Path_Identity
  imports Local_Path
begin

section \<open>Path identity (pathidentity.go, filekey\_unix.go)\<close>

text \<open>
  Whether two paths name one file, and whether a path lies inside a folder, asked of the file
  system. Its answers are a record: \<^verbatim>\<open>os.Stat\<close> (device and inode, \<open>None\<close> where the platform's
  record has another type), \<^verbatim>\<open>os.Lstat\<close> and \<^verbatim>\<open>filepath.EvalSymlinks\<close>. The check \<^verbatim>\<open>LocalPath\<close> that
  guards every question is the argument \<open>lp\<close>; the locale at the end says what is relied on.
\<close>

record file_host =
  fhGetwd :: "go_error + string"
  fhStat :: "string \<Rightarrow> go_error + (64 word \<times> 64 word) option"
  fhLstat :: "string \<Rightarrow> error"
  fhEvalSymlinks :: "string \<Rightarrow> go_error + string"

subsection \<open>File keys\<close>

definition hex_char :: "nat \<Rightarrow> char" where
  "hex_char n = char_of (if n < 10 then 48 + n else 87 + n)"

text \<open>The verb \<^verbatim>\<open>%x\<close> of package fmt.\<close>

fun xtoa :: "nat \<Rightarrow> string" where
  "xtoa n = (if n < 16 then [hex_char n] else xtoa (n div 16) @ [hex_char (n mod 16)])"

declare xtoa.simps [simp del]

definition fileKey :: "file_host \<Rightarrow> string \<Rightarrow> go_error + string" where
  "fileKey fh path =
     (case fhStat fh path of
        Inl err \<Rightarrow> Inl err
      | Inr None \<Rightarrow> Inl (New (''identity: '' @ path @ '' has no device and inode''))
      | Inr (Some (dev, ino)) \<Rightarrow> Inr (xtoa (unat dev) @ ''-'' @ xtoa (unat ino)))"

definition pathExists :: "file_host \<Rightarrow> string \<Rightarrow> bool" where
  "pathExists fh path = (fhLstat fh path = None)"

definition SameFile :: "(string \<Rightarrow> error) \<Rightarrow> file_host \<Rightarrow> string \<Rightarrow> string \<Rightarrow> bool \<times> error" where
  "SameFile lp fh a b =
     (case lp a of Some err \<Rightarrow> (False, Some err)
      | None \<Rightarrow> (case lp b of Some err \<Rightarrow> (False, Some err)
      | None \<Rightarrow> (case fileKey fh a of Inl err \<Rightarrow> (False, Some err)
      | Inr ka \<Rightarrow> (case fileKey fh b of Inl err \<Rightarrow> (False, Some err)
      | Inr kb \<Rightarrow> (ka = kb, None)))))"

definition FileKey :: "(string \<Rightarrow> error) \<Rightarrow> file_host \<Rightarrow> string \<Rightarrow> go_error + string" where
  "FileKey lp fh path = (case lp path of Some err \<Rightarrow> Inl err | None \<Rightarrow> fileKey fh path)"

subsection \<open>Resolving the existing part of a path\<close>

text \<open>The loop of \<^verbatim>\<open>resolveExisting\<close>: up to the deepest part that exists, collecting the rest.\<close>

function deepest_existing :: "file_host \<Rightarrow> string \<Rightarrow> string \<Rightarrow> (string \<times> string) option" where
  "deepest_existing fh existing rest =
     (if pathExists fh existing then Some (existing, rest)
      else if Dir existing = existing then None
      else deepest_existing fh (Dir existing) (filepath_Join (Base existing) rest))"
  by auto
termination
  by (relation "measure (\<lambda>(fh, existing, rest). up_measure existing)") (simp_all add: Dir_up)

declare deepest_existing.simps [simp del]

definition resolveExisting :: "file_host \<Rightarrow> string \<Rightarrow> bool \<Rightarrow> go_error + string" where
  "resolveExisting fh path self =
     (if path = [] then Inl (New ''identity: empty path'')
      else (case filepath_Abs (fhGetwd fh) path of
              Inl err \<Rightarrow> Inl err
            | Inr a \<Rightarrow>
                (let ap = Clean a;
                     (existing, rest) = (if \<not> self \<and> Dir ap \<noteq> ap then (Dir ap, Base ap) else (ap, []))
                 in case deepest_existing fh existing rest of
                      None \<Rightarrow> Inl (Errorf [Err ErrNotExist])
                    | Some (existing, rest) \<Rightarrow>
                        (case fhEvalSymlinks fh existing of
                           Inl err \<Rightarrow> Inl err
                         | Inr real \<Rightarrow> Inr (if rest = [] then real else filepath_Join real rest)))))"

subsection \<open>Within, Inside, PlaceKey\<close>

function within_loop :: "file_host \<Rightarrow> string \<Rightarrow> string \<Rightarrow> string \<Rightarrow> string \<times> bool \<times> error" where
  "within_loop fh target resolved p =
     (if fileKey fh p = Inr target then
        (let rel = TrimLeft (drop (length p) resolved) ''/'' in (rel, rel \<noteq> [], None))
      else if Dir p = p then ([], False, None)
      else within_loop fh target resolved (Dir p))"
  by auto
termination
  by (relation "measure (\<lambda>(fh, target, resolved, p). up_measure p)") (simp_all add: Dir_up)

declare within_loop.simps [simp del]

definition WithinRel :: "(string \<Rightarrow> error) \<Rightarrow> file_host \<Rightarrow> string \<Rightarrow> string \<Rightarrow> string \<times> bool \<times> error" where
  "WithinRel lp fh path folder =
     (case lp folder of Some err \<Rightarrow> ([], False, Some err)
      | None \<Rightarrow> (case lp path of Some err \<Rightarrow> ([], False, Some err)
      | None \<Rightarrow> (case fileKey fh folder of Inl err \<Rightarrow> ([], False, Some err)
      | Inr target \<Rightarrow> (case resolveExisting fh path False of Inl err \<Rightarrow> ([], False, Some err)
      | Inr resolved \<Rightarrow> within_loop fh target resolved (Dir resolved)))))"

definition Within :: "(string \<Rightarrow> error) \<Rightarrow> file_host \<Rightarrow> string \<Rightarrow> string \<Rightarrow> bool \<times> error" where
  "Within lp fh path folder = (case WithinRel lp fh path folder of (_, ok, err) \<Rightarrow> (ok, err))"

definition InsideRel :: "(string \<Rightarrow> error) \<Rightarrow> file_host \<Rightarrow> string \<Rightarrow> string \<Rightarrow> string \<times> bool \<times> error" where
  "InsideRel lp fh path folder =
     (case WithinRel lp fh path folder of
        (rel, inside, err) \<Rightarrow>
          if err = None \<or> errors_Is err (Err ErrNotLocalPath) then (rel, inside, err)
          else if \<not> errors_Is (fhLstat fh folder) (Err ErrNotExist) then ([], False, err)
          else
            (let prefix = TrimRight (Clean folder) ''/'' @ ''/'';
                 (rest, ok) = CutPrefix (Clean path) prefix
             in if \<not> ok \<or> rest = [] then ([], False, None) else (rest, True, None)))"

definition Inside :: "(string \<Rightarrow> error) \<Rightarrow> file_host \<Rightarrow> string \<Rightarrow> string \<Rightarrow> bool" where
  "Inside lp fh path folder = fst (snd (InsideRel lp fh path folder))"

text \<open>
  Off Windows \<^verbatim>\<open>trimCreatedNames\<close> and \<^verbatim>\<open>PathNameKey\<close> keep the spelling (localpath\_other.go,
  program.go).
\<close>

definition trimCreatedNames :: "string \<Rightarrow> string" where "trimCreatedNames path = path"

definition pathNameKey :: "string \<Rightarrow> string" where "pathNameKey p = p"

definition PlaceKey :: "(string \<Rightarrow> error) \<Rightarrow> file_host \<Rightarrow> string \<Rightarrow> go_error + string" where
  "PlaceKey lp fh path =
     (case lp path of
        Some err \<Rightarrow> Inl err
      | None \<Rightarrow> (case resolveExisting fh (trimCreatedNames path) True of
                   Inl err \<Rightarrow> Inl err
                 | Inr resolved \<Rightarrow> Inr (pathNameKey resolved)))"

subsection \<open>File keys are file identities\<close>

definition hex_value :: "char \<Rightarrow> nat" where
  "hex_value c = (let k = of_char c in if k < 58 then k - 48 else k - 87)"

lemma hex_char_value [simp]: "n < 16 \<Longrightarrow> hex_value (hex_char n) = n"
  by (simp add: hex_char_def hex_value_def Let_def)

lemma xtoa_value: "foldl (\<lambda>n c. 16 * n + hex_value c) 0 (xtoa n) = n"
proof (induction n rule: xtoa.induct)
  case (1 n)
  then show ?case by (cases "n < 16") (subst xtoa.simps, simp)+
qed

lemma xtoa_inject [simp]: "xtoa m = xtoa n \<longleftrightarrow> m = n"
  by (metis xtoa_value)

lemma hex_char_not_dash: "n < 16 \<Longrightarrow> hex_char n \<noteq> CHR ''-''"
proof
  assume n: "n < 16" and "hex_char n = CHR ''-''"
  then have "of_char (hex_char n) = (45 :: nat)" by simp
  then show False using n by (simp add: hex_char_def split: if_splits)
qed

lemma xtoa_no_dash: "CHR ''-'' \<notin> set (xtoa n)"
proof (induction n rule: xtoa.induct)
  case (1 n)
  show ?case
  proof (cases "n < 16")
    case True
    then show ?thesis using hex_char_not_dash [of n] by (subst xtoa.simps) auto
  next
    case False
    then show ?thesis using 1 hex_char_not_dash [of "n mod 16"] by (subst xtoa.simps) auto
  qed
qed

lemma key_text: "xtoa a @ ''-'' @ xtoa b = xtoa c @ ''-'' @ xtoa d \<longleftrightarrow> a = c \<and> b = d"
proof
  have t: "takeWhile (\<lambda>x. x \<noteq> CHR ''-'') (xtoa n @ ''-'' @ r) = xtoa n" for n r
    using xtoa_no_dash [of n] by (subst takeWhile_append2) auto
  assume eq: "xtoa a @ ''-'' @ xtoa b = xtoa c @ ''-'' @ xtoa d"
  then have "xtoa a = xtoa c" using t [of a "xtoa b"] t [of c "xtoa d"] by simp
  then show "a = c \<and> b = d" using eq by simp
qed simp

text \<open>
  Two paths are one file exactly when both may be opened, both exist, and the file system gives
  them one device and one inode number; the comparison of their text keys loses nothing.
\<close>

theorem SameFile_exact:
  "SameFile lp fh a b = (True, None) \<longleftrightarrow>
     lp a = None \<and> lp b = None \<and>
     (\<exists>dev ino. fhStat fh a = Inr (Some (dev, ino)) \<and> fhStat fh b = Inr (Some (dev, ino)))"
proof
  assume "SameFile lp fh a b = (True, None)"
  then obtain k where "lp a = None" "lp b = None" and k: "fileKey fh a = Inr k" "fileKey fh b = Inr k"
    by (auto simp: SameFile_def split: option.splits sum.splits)
  moreover from k obtain d i e j where "fhStat fh a = Inr (Some (d, i))" "fhStat fh b = Inr (Some (e, j))"
      "xtoa (unat d) @ ''-'' @ xtoa (unat i) = xtoa (unat e) @ ''-'' @ xtoa (unat j)"
    by (auto simp: fileKey_def split: sum.splits option.splits)
  moreover from this have "d = e \<and> i = j" unfolding key_text by (simp add: word_unat_eq_iff)
  ultimately show "lp a = None \<and> lp b = None \<and>
     (\<exists>dev ino. fhStat fh a = Inr (Some (dev, ino)) \<and> fhStat fh b = Inr (Some (dev, ino)))"
    by auto
qed (auto simp: SameFile_def fileKey_def)

subsection \<open>Containment\<close>

lemma TrimLeft_names: "list_all name_ok cs \<Longrightarrow> TrimLeft (Join cs ''/'') ''/'' = Join cs ''/''"
proof (cases cs)
  case (Cons c ds)
  assume "list_all name_ok cs"
  then obtain x c' where "c = x # c'" "x \<noteq> slash" using Cons by (cases c) (auto simp: name_ok_def)
  then show ?thesis using Cons by (cases ds) (simp_all add: TrimLeft_def)
qed (simp add: TrimLeft_def)

text \<open>What follows an ancestor in the spelling of a clean absolute path.\<close>

lemma remainder_below:
  assumes "list_all name_ok cs" "i < length cs"
  shows "TrimLeft (drop (length (abs_path (take i cs))) (abs_path cs)) ''/'' = Join (drop i cs) ''/''"
proof (cases "i = 0")
  case True
  then show ?thesis using assms(1) TrimLeft_names by (simp add: abs_path_def)
next
  case False
  have "Join (take i cs @ drop i cs) ''/'' = Join (take i cs) ''/'' @ ''/'' @ Join (drop i cs) ''/''"
    using False assms(2) by (intro Join_append) auto
  then have "drop (length (abs_path (take i cs))) (abs_path cs) = ''/'' @ Join (drop i cs) ''/''"
    by (simp add: abs_path_def)
  moreover have "list_all name_ok (drop i cs)" using assms(1) by (auto simp: list_all_iff dest: in_set_dropD)
  ultimately show ?thesis using TrimLeft_names [of "drop i cs"] by (simp add: TrimLeft_def)
qed

lemma Dir_take:
  assumes "list_all name_ok cs" "Suc i \<le> length cs"
  shows "Dir (abs_path (take (Suc i) cs)) = abs_path (take i cs)"
proof -
  have "take (Suc i) cs = take i cs @ [cs ! i]" using assms(2) by (simp add: take_Suc_conv_app_nth)
  moreover have "list_all name_ok (take (Suc i) cs)" using assms(1) by (auto simp: list_all_iff dest: in_set_takeD)
  ultimately show ?thesis using Dir_abs_path by metis
qed

lemma abs_path_take_neq:
  assumes "list_all name_ok cs" "Suc i \<le> length cs"
  shows "abs_path (take i cs) \<noteq> abs_path (take (Suc i) cs)"
proof -
  have "list_all name_ok (take j cs)" for j using assms(1) by (auto simp: list_all_iff dest: in_set_takeD)
  moreover have "take i cs \<noteq> take (Suc i) cs" using assms(2) by (metis Suc_n_not_le_n length_take min.absorb2 order.trans Suc_leD order_refl)
  ultimately show ?thesis using abs_path_inject by blast
qed

text \<open>The deepest ancestor an index below \<open>n\<close> names with a property, if there is one.\<close>

definition deepest :: "(nat \<Rightarrow> bool) \<Rightarrow> nat \<Rightarrow> nat option" where
  "deepest P n = find P (rev [0..<n])"

lemma deepest_Suc [simp]: "deepest P (Suc n) = (if P n then Some n else deepest P n)"
  and deepest_0 [simp]: "deepest P 0 = None"
  by (simp_all add: deepest_def)

lemma deepest_Some: "deepest P n = Some i \<Longrightarrow> i < n \<and> P i \<and> (\<forall>j. i < j \<and> j < n \<longrightarrow> \<not> P j)"
  by (induction n) (auto split: if_splits simp: less_Suc_eq)

lemma deepest_None: "deepest P n = None \<longleftrightarrow> (\<forall>i < n. \<not> P i)"
  by (induction n) (auto simp: less_Suc_eq)

lemma within_loop_deepest:
  assumes "list_all name_ok cs" "n < length cs"
  shows "within_loop fh k (abs_path cs) (abs_path (take n cs)) =
    (case deepest (\<lambda>i. fileKey fh (abs_path (take i cs)) = Inr k) (Suc n) of
       None \<Rightarrow> ([], False, None)
     | Some i \<Rightarrow> (Join (drop i cs) ''/'', True, None))"
  using assms(2)
proof (induction n)
  case 0
  have "Join (drop 0 cs) ''/'' \<noteq> []"
    using assms 0 by (cases cs rule: list.exhaust; cases "tl cs") (auto simp: name_ok_def Join_Cons)
  then show ?case
    using remainder_below [OF assms(1) 0] by (subst within_loop.simps) simp
next
  case (Suc n)
  have below: "Join (drop (Suc n) cs) ''/'' \<noteq> []"
  proof -
    obtain c ds where "drop (Suc n) cs = c # ds" using Suc.prems by (cases "drop (Suc n) cs") auto
    moreover have "c \<in> set cs" using calculation by (metis in_set_dropD list.set_intros(1))
    then have "c \<noteq> []" using assms(1) by (auto simp: list_all_iff name_ok_def)
    ultimately show ?thesis by (cases ds) simp_all
  qed
  show ?case
    using Suc Dir_take [OF assms(1), of n] abs_path_take_neq [OF assms(1), of n] remainder_below [OF assms(1) Suc.prems] below
    by (subst within_loop.simps) auto
qed

subsection \<open>Resolution\<close>

lemma deepest_existing_deepest:
  assumes "list_all name_ok cs" "n \<le> length cs"
  shows "deepest_existing fh (abs_path (take n cs)) (Join (drop n cs) ''/'') =
    map_option (\<lambda>i. (abs_path (take i cs), Join (drop i cs) ''/''))
      (deepest (\<lambda>i. pathExists fh (abs_path (take i cs))) (Suc n))"
  using assms(2)
proof (induction n)
  case 0
  then show ?case by (subst deepest_existing.simps) simp
next
  case (Suc n)
  have n: "n < length cs" using Suc.prems by simp
  have c: "name_ok (cs ! n)" using assms(1) n by (simp add: list_all_iff)
  have ok: "list_all name_ok (drop (Suc n) cs)" using assms(1) by (auto simp: list_all_iff dest: in_set_dropD)
  have "Base (abs_path (take (Suc n) cs)) = cs ! n"
    using Base_abs_path [OF c, of "take n cs"] n by (simp add: take_Suc_conv_app_nth)
  then have "filepath_Join (Base (abs_path (take (Suc n) cs))) (Join (drop (Suc n) cs) ''/'') = Join (drop n cs) ''/''"
    using Join_names [OF c ok] Cons_nth_drop_Suc [OF n] by simp
  then show ?case
    using Suc Dir_take [OF assms(1), of n] abs_path_take_neq [OF assms(1), of n]
    by (subst deepest_existing.simps) auto
qed

text \<open>
  What is relied on of the operating system: the working directory is absolute, and
  \<^verbatim>\<open>EvalSymlinks\<close> of an absolute path answers with a clean absolute path.
\<close>

definition links_clean :: "file_host \<Rightarrow> bool" where
  "links_clean fh = ((\<forall>d. fhGetwd fh = Inr d \<longrightarrow> IsAbs d) \<and>
     (\<forall>p q. fhEvalSymlinks fh p = Inr q \<and> IsAbs p \<longrightarrow> IsAbs q \<and> Clean q = q))"

lemma resolve_deepest:
  assumes ok: "list_all name_ok cs" and real: "list_all name_ok ds"
  shows "(if Join (drop i cs) ''/'' = [] then abs_path ds else filepath_Join (abs_path ds) (Join (drop i cs) ''/'')) =
    abs_path (ds @ drop i cs)"
proof -
  have drop: "list_all name_ok (drop i cs)" using ok by (auto simp: list_all_iff dest: in_set_dropD)
  show ?thesis
  proof (cases "drop i cs = []")
    case False
    then obtain c es where c: "drop i cs = c # es" by (meson neq_Nil_conv)
    then have "c \<noteq> []" using drop by (simp add: name_ok_def)
    then have "Join (drop i cs) ''/'' \<noteq> []" unfolding c by (cases es) simp_all
    then show ?thesis using Join_abs_path [OF real drop] by simp
  qed simp
qed

text \<open>How many names of the path the walk of \<^verbatim>\<open>resolveExisting\<close> starts from.\<close>

definition first_names :: "bool \<Rightarrow> string list \<Rightarrow> nat" where
  "first_names self cs = (if \<not> self \<and> cs \<noteq> [] then length cs - 1 else length cs)"

lemma resolve_start:
  assumes "list_all name_ok cs"
  shows "(if \<not> self \<and> Dir (abs_path cs) \<noteq> abs_path cs then (Dir (abs_path cs), Base (abs_path cs)) else (abs_path cs, [])) =
    (abs_path (take (first_names self cs) cs), Join (drop (first_names self cs) cs) ''/'')"
proof (cases "\<not> self \<and> cs \<noteq> []")
  case True
  then obtain bs b where bs: "cs = bs @ [b]" by (meson rev_exhaust)
  have "name_ok b" using assms bs by simp
  then show ?thesis
    using True bs assms Dir_abs_path [of bs b] Base_abs_path [of b bs] abs_path_take_neq [of cs "length bs"]
    by (simp add: first_names_def)
qed (auto simp: first_names_def)

lemma resolveExisting_names:
  assumes "path \<noteq> []" "filepath_Abs (fhGetwd fh) path = Inr a" "Clean a = abs_path cs" "list_all name_ok cs"
  shows "resolveExisting fh path self =
    (case deepest (\<lambda>i. pathExists fh (abs_path (take i cs))) (Suc (first_names self cs)) of
       None \<Rightarrow> Inl (Errorf [Err ErrNotExist])
     | Some i \<Rightarrow>
         (case fhEvalSymlinks fh (abs_path (take i cs)) of
            Inl err \<Rightarrow> Inl err
          | Inr real \<Rightarrow>
              Inr (if Join (drop i cs) ''/'' = [] then real else filepath_Join real (Join (drop i cs) ''/''))))"
proof -
  have "first_names self cs \<le> length cs" by (simp add: first_names_def)
  from deepest_existing_deepest [OF assms(4) this] show ?thesis
    using assms(1-3) resolve_start [OF assms(4), of self]
    by (simp add: resolveExisting_def Let_def split: option.splits)
qed

lemma resolveExisting_spec:
  assumes "path \<noteq> []" "filepath_Abs (fhGetwd fh) path = Inr a" "Clean a = abs_path cs" "list_all name_ok cs"
    and "deepest (\<lambda>i. pathExists fh (abs_path (take i cs))) (Suc (first_names self cs)) = Some i"
    and "fhEvalSymlinks fh (abs_path (take i cs)) = Inr (abs_path ds)" "list_all name_ok ds"
  shows "resolveExisting fh path self = Inr (abs_path (ds @ drop i cs))"
  using resolveExisting_names [OF assms(1-4), of self] resolve_deepest [OF assms(4,7), of i] assms(5,6) by simp

lemma resolveExisting_shape:
  assumes r: "resolveExisting fh path self = Inr resolved" and links: "links_clean fh"
  obtains cs where "list_all name_ok cs" "resolved = abs_path cs"
proof -
  have p: "path \<noteq> []" using r by (auto simp: resolveExisting_def)
  obtain a where a: "filepath_Abs (fhGetwd fh) path = Inr a" using r p by (auto simp: resolveExisting_def split: sum.splits)
  obtain cs where cs: "list_all name_ok cs" "Clean a = abs_path cs"
    using filepath_Abs_absolute [OF a] links by (auto simp: links_clean_def)
  obtain i real where i: "deepest (\<lambda>i. pathExists fh (abs_path (take i cs))) (Suc (first_names self cs)) = Some i"
      and real: "fhEvalSymlinks fh (abs_path (take i cs)) = Inr real"
    using r unfolding resolveExisting_names [OF p a cs(2,1)] by (auto split: option.splits sum.splits)
  have "IsAbs real \<and> Clean real = real" using real links IsAbs_abs_path unfolding links_clean_def by blast
  then obtain ds where ds: "list_all name_ok ds" "real = abs_path ds" unfolding clean_absolute_iff by blast
  have "resolved = abs_path (ds @ drop i cs)"
    using resolveExisting_spec [OF p a cs(2,1) i] real ds r by simp
  moreover have "list_all name_ok (ds @ drop i cs)" using cs(1) ds(1) by (auto simp: list_all_iff dest: in_set_dropD)
  ultimately show ?thesis using that by blast
qed

subsection \<open>Properties\<close>

text \<open>
  Containment is decided by file identity. For a folder that exists and a path whose existing
  part resolves, both local, Within answers true exactly when a proper ancestor of the resolved path
  is the folder's file; the remainder it returns is the names below the deepest such ancestor.
\<close>

theorem WithinRel_exact:
  assumes "lp folder = None" "lp path = None" "fileKey fh folder = Inr k"
    and resolved: "resolveExisting fh path False = Inr resolved" and links: "links_clean fh"
  shows "\<exists>cs. list_all name_ok cs \<and> resolved = abs_path cs \<and>
    (case deepest (\<lambda>i. fileKey fh (abs_path (take i cs)) = Inr k) (length cs) of
       None \<Rightarrow> WithinRel lp fh path folder = ([], False, None) \<and>
         (\<forall>i < length cs. fileKey fh (abs_path (take i cs)) \<noteq> Inr k)
     | Some i \<Rightarrow> WithinRel lp fh path folder = (Join (drop i cs) ''/'', True, None) \<and>
         i < length cs \<and> fileKey fh (abs_path (take i cs)) = Inr k)"
proof -
  obtain cs where cs: "list_all name_ok cs" "resolved = abs_path cs"
    using resolveExisting_shape [OF resolved links] by blast
  have w: "WithinRel lp fh path folder = within_loop fh k (abs_path cs) (Dir (abs_path cs))"
    using assms cs by (simp add: WithinRel_def)
  show ?thesis
  proof (cases "length cs")
    case 0
    have "within_loop fh k (abs_path []) (abs_path []) = ([], False, None)"
      by (subst within_loop.simps) (simp add: TrimLeft_def)
    then show ?thesis using 0 w cs by (intro exI [of _ "[]"]) simp
  next
    case (Suc n)
    have n: "n < length cs" using Suc by simp
    have "Dir (abs_path cs) = abs_path (take n cs)" using Dir_take [OF cs(1), of n] Suc by simp
    then have w: "WithinRel lp fh path folder = within_loop fh k (abs_path cs) (abs_path (take n cs))"
      using w by simp
    let ?P = "\<lambda>i. fileKey fh (abs_path (take i cs)) = Inr k"
    show ?thesis
    proof (cases "deepest ?P (length cs)")
      case None
      then have "WithinRel lp fh path folder = ([], False, None)"
        unfolding w within_loop_deepest [OF cs(1) n] Suc by simp
      moreover have "\<forall>i < length cs. \<not> ?P i" using None unfolding deepest_None .
      ultimately show ?thesis using None cs by (intro exI [of _ cs]) simp
    next
      case (Some i)
      then have "WithinRel lp fh path folder = (Join (drop i cs) ''/'', True, None)"
        unfolding w within_loop_deepest [OF cs(1) n] Suc by simp
      moreover have "i < length cs \<and> ?P i" using deepest_Some [OF Some] by simp
      ultimately show ?thesis using Some cs by (intro exI [of _ cs]) simp
    qed
  qed
qed

definition demo_files :: file_host where
  "demo_files =
     \<lparr>fhGetwd = Inr ''/'',
      fhStat = (\<lambda>p. if p = ''/'' then Inr (Some (1, 2)) else if p = ''/srv'' then Inr (Some (1, 77)) else Inl (Errno 2)),
      fhLstat = (\<lambda>p. if p = ''/'' \<or> p = ''/srv'' then None else Some (Errno 2)), fhEvalSymlinks = Inr \<circ> Clean\<rparr>"

lemma demo_files_links: "links_clean demo_files"
proof -
  have "IsAbs ''/''" by (simp add: IsAbs_iff)
  then show ?thesis by (auto simp: links_clean_def demo_files_def IsAbs_Clean Clean_idem_abs)
qed

theorem WithinRel_exact_witness:
  "\<exists>cs. list_all name_ok cs \<and> ''/srv/x'' = abs_path cs \<and>
    (case deepest (\<lambda>i. fileKey demo_files (abs_path (take i cs)) = Inr ''1-4d'') (length cs) of
       None \<Rightarrow> WithinRel (\<lambda>_. None) demo_files ''/srv/x'' ''/srv'' = ([], False, None) \<and>
         (\<forall>i < length cs. fileKey demo_files (abs_path (take i cs)) \<noteq> Inr ''1-4d'')
     | Some i \<Rightarrow> WithinRel (\<lambda>_. None) demo_files ''/srv/x'' ''/srv'' = (Join (drop i cs) ''/'', True, None) \<and>
         i < length cs \<and> fileKey demo_files (abs_path (take i cs)) = Inr ''1-4d'')"
proof -
  have k: "fileKey demo_files ''/srv'' = Inr ''1-4d''" by code_simp
  have r: "resolveExisting demo_files ''/srv/x'' False = Inr ''/srv/x''" by code_simp
  show ?thesis by (rule WithinRel_exact [OF _ _ k r demo_files_links]) simp_all
qed

text \<open>
  A place keeps its key while folders on the way to it are created. Take a clean absolute path of
  which \<open>i\<close> names exist at first and \<open>j\<close> names later, the new ones being plain folders: below what
  the existing part resolved to before, they resolve to themselves. Then the key is the same before
  and after, namely the resolved existing part followed by the names still to be created.
\<close>

theorem PlaceKey_stable:
  assumes path: "list_all name_ok cs" "path = abs_path cs" "lp path = None" and ij: "i \<le> j" "j \<le> length cs"
    and before: "\<forall>n \<le> length cs. pathExists fh (abs_path (take n cs)) \<longleftrightarrow> n \<le> i"
    and after: "\<forall>n \<le> length cs. pathExists fh' (abs_path (take n cs)) \<longleftrightarrow> n \<le> j"
    and real: "list_all name_ok ds" "fhEvalSymlinks fh (abs_path (take i cs)) = Inr (abs_path ds)"
    and created: "fhEvalSymlinks fh' (abs_path (take j cs)) = Inr (abs_path (ds @ drop i (take j cs)))"
  shows "PlaceKey lp fh path = Inr (abs_path (ds @ drop i cs)) \<and> PlaceKey lp fh' path = PlaceKey lp fh path"
proof -
  have deep: "deepest (\<lambda>n. pathExists g (abs_path (take n cs))) (Suc (length cs)) = Some m"
    if "\<forall>n \<le> length cs. pathExists g (abs_path (take n cs)) \<longleftrightarrow> n \<le> m" "m \<le> length cs" for g m
  proof (cases "deepest (\<lambda>n. pathExists g (abs_path (take n cs))) (Suc (length cs))")
    case None
    then show ?thesis using that unfolding deepest_None by (metis le_imp_less_Suc order_refl)
  next
    case (Some k)
    from deepest_Some [OF this] have "k \<le> m" "\<not> k < m" using that by auto
    then show ?thesis using Some by simp
  qed
  have abs: "path \<noteq> []" "filepath_Abs wd path = Inr path" "Clean path = abs_path cs" for wd :: "go_error + string"
    using path Clean_abs_path IsAbs_abs_path by (simp_all add: filepath_Abs_def) (simp add: abs_path_def)
  have ok: "list_all name_ok (ds @ drop i (take j cs))"
    using real(1) path(1) by (auto simp: list_all_iff dest: in_set_dropD in_set_takeD)
  have f: "first_names True cs = length cs" by (simp add: first_names_def)
  have i: "i \<le> length cs" using ij by simp
  have "resolveExisting fh path True = Inr (abs_path (ds @ drop i cs))"
    using resolveExisting_spec [OF abs path(1), of fh True i ds] f deep [OF before i] real by simp
  moreover have "resolveExisting fh' path True = Inr (abs_path ((ds @ drop i (take j cs)) @ drop j cs))"
    using resolveExisting_spec [OF abs path(1), of fh' True j "ds @ drop i (take j cs)"] f deep [OF after ij(2)] created ok
    by simp
  moreover have "drop i (take j cs) @ drop j cs = drop i cs"
  proof -
    have "drop i cs = drop i (take j cs @ drop j cs)" by simp
    also have "\<dots> = drop i (take j cs) @ drop j cs" using ij by (simp only: drop_append) simp
    finally show ?thesis by simp
  qed
  ultimately show ?thesis using path(3) by (simp add: PlaceKey_def trimCreatedNames_def pathNameKey_def)
qed

definition later_files :: file_host where
  "later_files = demo_files\<lparr>fhLstat := (\<lambda>p. if p = ''/'' \<or> p = ''/srv'' \<or> p = ''/srv/x'' then None else Some (Errno 2))\<rparr>"

theorem PlaceKey_stable_witness:
  "PlaceKey (\<lambda>_. None) demo_files ''/srv/x'' = Inr ''/srv/x'' \<and>
   PlaceKey (\<lambda>_. None) later_files ''/srv/x'' = PlaceKey (\<lambda>_. None) demo_files ''/srv/x''"
proof -
  let ?cs = "[''srv'', ''x'']"
  have le: "n \<le> length ?cs \<longleftrightarrow> n = 0 \<or> n = 1 \<or> n = 2" for n by auto
  have before: "\<forall>n \<le> length ?cs. pathExists demo_files (abs_path (take n ?cs)) \<longleftrightarrow> n \<le> 1"
    unfolding le by (auto simp: pathExists_def demo_files_def abs_path_def)
  have after: "\<forall>n \<le> length ?cs. pathExists later_files (abs_path (take n ?cs)) \<longleftrightarrow> n \<le> 2"
    unfolding le by (auto simp: pathExists_def later_files_def abs_path_def)
  have real: "fhEvalSymlinks demo_files (abs_path (take 1 ?cs)) = Inr (abs_path [''srv''])"
    "fhEvalSymlinks later_files (abs_path (take 2 ?cs)) = Inr (abs_path ([''srv''] @ drop 1 (take 2 ?cs)))"
    by (simp_all add: demo_files_def later_files_def Clean_abs_path name_ok_def)
  have "list_all name_ok ?cs" "list_all name_ok [''srv'']" "''/srv/x'' = abs_path ?cs"
    by (simp_all add: name_ok_def abs_path_def)
  then show ?thesis
    using PlaceKey_stable [OF _ _ _ _ _ before after _ real, of "''/srv/x''" "\<lambda>_. None"] by simp
qed

subsection \<open>Refused paths are never inside\<close>

text \<open>
  What the path functions rely on of the local-path check: an empty path is refused, and every
  refusal of another path is one \<^verbatim>\<open>errors.Is\<close> recognises as \<^verbatim>\<open>ErrNotLocalPath\<close>.
\<close>

locale local_gate =
  fixes lp :: "string \<Rightarrow> error"
  assumes refusal: "lp p = Some e \<Longrightarrow> p \<noteq> [] \<Longrightarrow> errors_is e (Err ErrNotLocalPath)"
    and empty_refused: "lp [] \<noteq> None"
begin

lemma WithinRel_refused:
  assumes "lp folder = Some e \<or> lp folder = None \<and> lp path = Some e"
  shows "WithinRel lp fh path folder = ([], False, Some e)"
  using assms by (auto simp: WithinRel_def)

lemma InsideRel_refused:
  assumes e: "lp folder = Some e \<and> folder \<noteq> [] \<or> lp folder = None \<and> lp path = Some e \<and> path \<noteq> []"
  shows "InsideRel lp fh path folder = ([], False, Some e)"
proof -
  have "errors_is e (Err ErrNotLocalPath)" using e refusal by blast
  moreover have "WithinRel lp fh path folder = ([], False, Some e)" using e WithinRel_refused by blast
  ultimately show ?thesis by (simp add: InsideRel_def)
qed

end

interpretation linux_gate: local_gate "\<lambda>p. localPath h prefixes (tm p) p" for h prefixes tm
proof
  show "localPath h prefixes (tm p) p = Some e \<Longrightarrow> p \<noteq> [] \<Longrightarrow> errors_is e (Err ErrNotLocalPath)" for p e
    by (auto simp: localPath_def Let_def split: sum.splits if_splits option.splits)
  show "localPath h prefixes (tm []) [] \<noteq> None" by (simp add: localPath_def)
qed

lemma within_loop_error: "within_loop fh k r p = (rel, ok, err) \<Longrightarrow> err = None \<and> (ok \<longrightarrow> rel \<noteq> [])"
proof (induction fh k r p rule: within_loop.induct)
  case (1 fh k r p)
  then show ?case by (subst (asm) within_loop.simps) (auto simp: Let_def split: if_splits)
qed

lemma WithinRel_true:
  "WithinRel lp fh path folder = (rel, True, err) \<Longrightarrow> err = None \<and> rel \<noteq> [] \<and> lp path = None \<and> lp folder = None"
  using within_loop_error by (fastforce simp: WithinRel_def split: option.splits sum.splits)

text \<open>
  Inside says yes only about paths it was allowed to open. With the Linux check as the gate, a
  true answer comes with no error, a remainder that is not empty, and both the path and the folder
  accepted as local; in particular a refused path, however it is spelled, is never inside.
\<close>

theorem InsideRel_only_local:
  assumes "InsideRel (\<lambda>p. localPath h prefixes (tm p) p) fh path folder = (rel, True, err)"
  shows "err = None \<and> rel \<noteq> [] \<and> localPath h prefixes (tm path) path = None \<and>
    localPath h prefixes (tm folder) folder = None"
proof -
  let ?lp = "\<lambda>p. localPath h prefixes (tm p) p"
  obtain rel0 inside err0 where w: "WithinRel ?lp fh path folder = (rel0, inside, err0)"
    by (cases "WithinRel ?lp fh path folder")
  show ?thesis
  proof (cases "inside \<and> rel0 = rel \<and> err0 = err")
    case True
    then show ?thesis using WithinRel_true [of ?lp fh path folder rel err] w by simp
  next
    case False
    let ?prefix = "TrimRight (Clean folder) ''/'' @ ''/''"
    have fall: "HasPrefix (Clean path) ?prefix" "rel \<noteq> []" "err = None"
      using assms False w
      by (auto simp: InsideRel_def CutPrefix_def Let_def split: if_splits)
    have "folder \<noteq> []"
    proof
      assume "folder = []"
      then have "?prefix = ''./''" by (simp add: TrimRight_def)
      then show False using fall(1) Clean_no_dot_slash by simp
    qed
    moreover have "path \<noteq> []"
    proof
      assume "path = []"
      then obtain t where "''.'' = ?prefix @ t" using fall(1) unfolding HasPrefix_iff by auto
      then show False by (cases "TrimRight (Clean folder) ''/''") auto
    qed
    ultimately have "?lp folder = None" "?lp path = None"
      using assms linux_gate.InsideRel_refused [where h = h and prefixes = prefixes and tm = tm and fh = fh]
      by (metis (no_types, lifting) option.exhaust prod.inject)+
    then show ?thesis using fall by simp
  qed
qed

definition fast :: "string \<Rightarrow> probe_times" where
  "fast p = \<lparr>ptMount = True, ptSlot = True, ptAnswer = True\<rparr>"

lemma plain_volume_local:
  "localPath plain_volume [] (fast ''/srv/x'') ''/srv/x'' = None" "localPath plain_volume [] (fast ''/srv'') ''/srv'' = None"
proof -
  have clean: "Clean ''/srv/x'' = ''/srv/x''" "Clean ''/srv'' = ''/srv''" by code_simp+
  have up: "Dir ''/srv/x'' = ''/srv''" "Dir ''/srv'' = ''/''" by code_simp+
  have "volumeAnswer plain_volume ''/'' 0xef53 = None"
    by (simp add: volumeAnswer_def networkFileSystems_def fuseSuperMagic_def)
  then have "volumeLocal plain_volume ''/'' = None" by (subst volumeLocal.simps) (simp add: plain_volume_def)
  then have v: "volumeLocal plain_volume ''/srv'' = None"
    by (subst volumeLocal.simps) (simp add: plain_volume_def up)
  then have "volumeLocal plain_volume ''/srv/x'' = None"
    by (subst volumeLocal.simps) (simp add: plain_volume_def up)
  with v show "localPath plain_volume [] (fast ''/srv/x'') ''/srv/x'' = None"
      "localPath plain_volume [] (fast ''/srv'') ''/srv'' = None"
    by (simp_all add: localPath_def filepath_Abs_def IsAbs_iff clean fast_def markedNetwork_def)
qed

theorem InsideRel_only_local_witness:
  "InsideRel (\<lambda>p. localPath plain_volume [] (fast p) p) demo_files ''/srv/x'' ''/srv'' = (''x'', True, None) \<and>
   localPath plain_volume [] (fast ''/srv/x'') ''/srv/x'' = None"
proof -
  have "fileKey demo_files ''/srv'' = Inr ''1-4d''" "resolveExisting demo_files ''/srv/x'' False = Inr ''/srv/x''"
    "within_loop demo_files ''1-4d'' ''/srv/x'' (Dir ''/srv/x'') = (''x'', True, None)"
    by code_simp+
  then have "InsideRel (\<lambda>p. localPath plain_volume [] (fast p) p) demo_files ''/srv/x'' ''/srv'' = (''x'', True, None)"
    by (simp add: InsideRel_def WithinRel_def plain_volume_local)
  with InsideRel_only_local [OF this] show ?thesis by simp
qed

end
