(* ===== verification/Program_Path.thy ===== *)
theory Program_Path
  imports Path_Identity Peers
begin

section \<open>Subject programs (program.go)\<close>

text \<open>
  The name a service's rights are about: a package family for a caller with a proven package
  identity, the clean image path otherwise, and when two names are one program. What program.go
  leaves to the platform (the variables \<^verbatim>\<open>canonicalProgramPath\<close>, \<^verbatim>\<open>samePathName\<close>,
  \<^verbatim>\<open>packageInstallPath\<close>, and the path syntax of package filepath) is a record with its Unix values
  in \<open>unix_paths\<close>.
\<close>

record path_platform =
  ppIsAbs :: "string \<Rightarrow> bool"
  ppClean :: "string \<Rightarrow> string"
  ppSamePathName :: "string \<Rightarrow> string \<Rightarrow> bool"
  ppCanonical :: "string \<Rightarrow> string"
  ppInstallPath :: "string \<Rightarrow> go_error + string"

definition packagePathByFullName :: "string \<Rightarrow> go_error + string" where
  "packagePathByFullName fullName = Inl (New ''identity: MSIX packages are Windows only'')"

definition unix_paths :: path_platform where
  "unix_paths = \<lparr>ppIsAbs = IsAbs, ppClean = Clean, ppSamePathName = (=), ppCanonical = id,
     ppInstallPath = packagePathByFullName\<rparr>"

lemma unix_paths_simps [simp]:
  "ppIsAbs unix_paths = IsAbs" "ppClean unix_paths = Clean" "ppSamePathName unix_paths = (=)"
  "ppCanonical unix_paths = id" "ppInstallPath unix_paths = packagePathByFullName"
  by (simp_all add: unix_paths_def)

subsection \<open>Package families\<close>

definition PackagedProgramPrefix :: string where "PackagedProgramPrefix = ''msix:''"

definition in_range :: "char \<Rightarrow> char \<Rightarrow> char \<Rightarrow> bool" where
  "in_range lo hi c = ((of_char lo :: nat) \<le> of_char c \<and> (of_char c :: nat) \<le> of_char hi)"

text \<open>
  The regular expression \<^verbatim>\<open>packageFamily\<close>: a name of 3 to 50 letters, digits, dots and dashes, an
  underscore, and 13 small letters or digits. Neither class has the underscore, so the first one
  is the separator.
\<close>

definition family_name_char :: "char \<Rightarrow> bool" where
  "family_name_char c = (in_range CHR ''A'' CHR ''Z'' c \<or> in_range CHR ''a'' CHR ''z'' c \<or>
     in_range CHR ''0'' CHR ''9'' c \<or> c = CHR ''.'' \<or> c = CHR ''-'')"

definition publisher_char :: "char \<Rightarrow> bool" where
  "publisher_char c = (in_range CHR ''a'' CHR ''z'' c \<or> in_range CHR ''0'' CHR ''9'' c)"

definition packageFamily :: "string \<Rightarrow> bool" where
  "packageFamily s =
     (case Cut s CHR ''_'' of
        (nm, publisher, found) \<Rightarrow>
          found \<and> 3 \<le> length nm \<and> length nm \<le> 50 \<and> list_all family_name_char nm \<and>
          length publisher = 13 \<and> list_all publisher_char publisher)"

definition PackageFamily :: "string \<Rightarrow> string \<times> bool" where
  "PackageFamily fullName =
     (let parts = Split fullName CHR ''_'' in
      if length parts \<noteq> 5 then ([], False)
      else (let family = parts ! 0 @ ''_'' @ parts ! 4 in (family, packageFamily family)))"

subsection \<open>Names\<close>

definition SamePathName :: "path_platform \<Rightarrow> string \<Rightarrow> string \<Rightarrow> bool" where
  "SamePathName pp a b = ppSamePathName pp a b"

definition split_names :: "string \<Rightarrow> string list" where
  "split_names p = FieldsFunc p (\<lambda>r. r = slash \<or> r = backslash)"

definition PathNameWithin :: "path_platform \<Rightarrow> string \<Rightarrow> string \<Rightarrow> bool" where
  "PathNameWithin pp path folder =
     (let ps = split_names path; fs = split_names folder in
      if fs = [] \<or> length ps \<le> length fs then False
      else SamePathName pp (Join (take (length fs) ps) ''/'') (Join fs ''/''))"

definition CanonicalProgramPath :: "path_platform \<Rightarrow> string \<Rightarrow> string" where
  "CanonicalProgramPath pp path = ppCanonical pp path"

definition NormalizeSubjectProgram :: "path_platform \<Rightarrow> string \<Rightarrow> string" where
  "NormalizeSubjectProgram pp program =
     (if HasPrefix program PackagedProgramPrefix then program else CanonicalProgramPath pp (ppClean pp program))"

definition nul_cr_lf :: string where "nul_cr_lf = map char_of [0, 13, 10 :: nat]"

definition ValidSubjectProgram :: "path_platform \<Rightarrow> string \<Rightarrow> bool" where
  "ValidSubjectProgram pp program =
     (case CutPrefix program PackagedProgramPrefix of
        (family, True) \<Rightarrow> packageFamily family
      | (_, False) \<Rightarrow>
          0 < length program \<and> length program \<le> 4096 \<and> ppIsAbs pp program \<and> ppClean pp program = program \<and>
          \<not> ContainsAny program nul_cr_lf)"

definition comparableSubjectProgram :: "path_platform \<Rightarrow> string \<Rightarrow> bool" where
  "comparableSubjectProgram pp program =
     (if HasPrefix program PackagedProgramPrefix then ValidSubjectProgram pp program
      else 0 < length program \<and> length program \<le> 4096 \<and> ppIsAbs pp program \<and> \<not> ContainsAny program nul_cr_lf)"

subsection \<open>The subject of a caller\<close>

definition within :: "(string \<Rightarrow> error) \<Rightarrow> file_host \<Rightarrow> string \<Rightarrow> string \<Rightarrow> bool" where
  "within lp fh path folder = fst (Within lp fh path folder)"

definition SubjectProgram ::
  "path_platform \<Rightarrow> (string \<Rightarrow> error) \<Rightarrow> file_host \<Rightarrow> Peer option \<Rightarrow> Proof \<Rightarrow> go_error + string" where
  "SubjectProgram pp lp fh peer pathProof =
     (case peer of
        None \<Rightarrow> Inl (New ''identity: no peer'')
      | Some p \<Rightarrow>
          (case AtLeast (pPath p) pathProof of
             Inl err \<Rightarrow> Inl err
           | Inr path0 \<Rightarrow>
               if \<not> ppIsAbs pp path0 then Inl (New ''identity: the program path is not absolute'')
               else
                 (let path = ppClean pp path0;
                      packaged =
                        (case AtLeast (pPackage p) ProofSigned of
                           Inl err \<Rightarrow> None
                         | Inr full \<Rightarrow>
                             (case PackageFamily full of
                                (family, False) \<Rightarrow> None
                              | (family, True) \<Rightarrow>
                                  (case ppInstallPath pp full of
                                     Inl err \<Rightarrow> None
                                   | Inr root \<Rightarrow>
                                       if within lp fh path (ppClean pp root) then Some (PackagedProgramPrefix @ family)
                                       else None)))
                  in Inr (case packaged of Some subject \<Rightarrow> subject | None \<Rightarrow> CanonicalProgramPath pp path))))"

subsection \<open>When two names are one program\<close>

definition ProgramKey :: "(string \<Rightarrow> error) \<Rightarrow> file_host \<Rightarrow> string \<Rightarrow> string" where
  "ProgramKey lp fh program =
     (if HasPrefix program PackagedProgramPrefix then []
      else (case FileKey lp fh program of Inl err \<Rightarrow> [] | Inr key \<Rightarrow> key))"

text \<open>The keys are the values the callbacks \<^verbatim>\<open>keyA\<close> and \<^verbatim>\<open>keyB\<close> return when they are called.\<close>

definition SameNormalizedSubjectProgramKeyed ::
  "path_platform \<Rightarrow> string \<Rightarrow> string \<Rightarrow> string \<Rightarrow> string \<Rightarrow> bool" where
  "SameNormalizedSubjectProgramKeyed pp a b keyA keyB =
     (if \<not> ValidSubjectProgram pp a \<or> \<not> ValidSubjectProgram pp b then False
      else if a = b then True
      else if HasPrefix a PackagedProgramPrefix \<or> HasPrefix b PackagedProgramPrefix then SamePathName pp a b
      else if keyA = [] then SamePathName pp a b
      else if keyB = [] then SamePathName pp a b
      else keyA = keyB)"

definition SameNormalizedSubjectProgram ::
  "path_platform \<Rightarrow> (string \<Rightarrow> error) \<Rightarrow> file_host \<Rightarrow> string \<Rightarrow> string \<Rightarrow> bool" where
  "SameNormalizedSubjectProgram pp lp fh a b =
     SameNormalizedSubjectProgramKeyed pp a b (ProgramKey lp fh a) (ProgramKey lp fh b)"

definition SameSubjectProgram ::
  "path_platform \<Rightarrow> (string \<Rightarrow> error) \<Rightarrow> file_host \<Rightarrow> string \<Rightarrow> string \<Rightarrow> bool" where
  "SameSubjectProgram pp lp fh a b =
     (if \<not> comparableSubjectProgram pp a \<or> \<not> comparableSubjectProgram pp b then False
      else SameNormalizedSubjectProgram pp lp fh (NormalizeSubjectProgram pp a) (NormalizeSubjectProgram pp b))"

subsection \<open>Properties\<close>

lemma PackageFamily_ok: "PackageFamily full = (family, True) \<Longrightarrow> packageFamily family"
  by (auto simp: PackageFamily_def Let_def split: if_splits)

text \<open>
  A caller is named by a package family only on proof. On any platform whose canonical spelling
  of an absolute path is never a packaged name, the subject begins with \<^verbatim>\<open>msix:\<close> exactly when the package
  identity is proven at \<^verbatim>\<open>ProofSigned\<close>, its full name has a well-formed family, and the clean image
  path lies inside the folder the package is installed in; then it is that family's name and a
  valid subject. Every other subject is the canonical clean path, proven at the required rung.
\<close>

theorem SubjectProgram_exact:
  assumes plain: "\<And>q. ppIsAbs pp q \<Longrightarrow> \<not> HasPrefix (ppCanonical pp (ppClean pp q)) PackagedProgramPrefix"
    and subject: "SubjectProgram pp lp fh (Some p) pathProof = Inr s"
  shows "(\<exists>path. AtLeast (pPath p) pathProof = Inr path \<and> ppIsAbs pp path \<and>
      (if HasPrefix s PackagedProgramPrefix
       then \<exists>full root family. AtLeast (pPackage p) ProofSigned = Inr full \<and> PackageFamily full = (family, True) \<and>
              ppInstallPath pp full = Inr root \<and> Within lp fh (ppClean pp path) (ppClean pp root) = (True, None) \<and>
              s = PackagedProgramPrefix @ family \<and> ValidSubjectProgram pp s
       else s = CanonicalProgramPath pp (ppClean pp path)))"
proof -
  obtain path where path: "AtLeast (pPath p) pathProof = Inr path" "ppIsAbs pp path"
    using subject by (auto simp: SubjectProgram_def split: sum.splits if_splits)
  have within: "within lp fh q r \<Longrightarrow> Within lp fh q r = (True, None)" for q r
    using WithinRel_true [of lp fh q r] by (auto simp: within_def Within_def split: prod.splits)
  show ?thesis
  proof (cases "s = CanonicalProgramPath pp (ppClean pp path)")
    case True
    then show ?thesis using path plain by (auto simp: CanonicalProgramPath_def)
  next
    case False
    then obtain full root family where f: "AtLeast (pPackage p) ProofSigned = Inr full"
        "PackageFamily full = (family, True)" "ppInstallPath pp full = Inr root"
        "within lp fh (ppClean pp path) (ppClean pp root)" "s = PackagedProgramPrefix @ family"
      using subject path
      by (auto simp: SubjectProgram_def Let_def split: sum.splits prod.splits bool.splits if_splits option.splits)
    moreover have "ValidSubjectProgram pp s"
      using PackageFamily_ok [OF f(2)] f(5) by (simp add: ValidSubjectProgram_def CutPrefix_def)
    ultimately show ?thesis using path within by auto
  qed
qed

definition packaged_peer :: Peer where
  "packaged_peer =
     \<lparr>pPlatform = ''windows'', pTransport = ''pipe'', pObservedAt = 0, pUser = unknown zero_User ''user'' [],
      pProcess = unknown zero_Process ''process'' [], pPath = attr ''path'' ''/srv/x'' ProofBound [],
      pPackage = attr ''package'' ''Contoso.App_1.0.0.0_x64__8wekyb3d8bbwe'' ProofSigned [],
      pCode = unknown zero_Code ''code'' [], pNotes = [], pEvidenceValidUntil = 0\<rparr>"

definition store_paths :: path_platform where
  "store_paths = unix_paths\<lparr>ppInstallPath := (\<lambda>_. Inr ''/srv'')\<rparr>"

lemma store_paths_simps [simp]:
  "ppIsAbs store_paths = IsAbs" "ppClean store_paths = Clean" "ppCanonical store_paths = id"
  "ppInstallPath store_paths full = Inr ''/srv''"
  by (simp_all add: store_paths_def)

lemma unix_never_packaged: "IsAbs q \<Longrightarrow> \<not> HasPrefix (Clean q) PackagedProgramPrefix"
  by (erule Clean_IsAbs) (auto simp: abs_path_def HasPrefix_iff PackagedProgramPrefix_def)

theorem SubjectProgram_exact_witness:
  "SubjectProgram store_paths (\<lambda>_. None) demo_files (Some packaged_peer) ProofBound =
     Inr ''msix:Contoso.App_8wekyb3d8bbwe'' \<and>
   Within (\<lambda>_. None) demo_files ''/srv/x'' ''/srv'' = (True, None)"
proof -
  have plain: "\<not> HasPrefix (ppCanonical store_paths (ppClean store_paths q)) PackagedProgramPrefix"
    if "ppIsAbs store_paths q" for q
    using that unix_never_packaged by simp
  have s: "SubjectProgram store_paths (\<lambda>_. None) demo_files (Some packaged_peer) ProofBound =
      Inr ''msix:Contoso.App_8wekyb3d8bbwe''" by code_simp
  have "AtLeast (pPath packaged_peer) ProofBound = Inr ''/srv/x''" "Clean ''/srv/x'' = ''/srv/x''" "Clean ''/srv'' = ''/srv''"
    by code_simp+
  with SubjectProgram_exact [OF plain s] show ?thesis
    by (auto simp: s HasPrefix_iff PackagedProgramPrefix_def)
qed

lemma fileKey_nonempty: "fileKey fh p = Inr k \<Longrightarrow> k \<noteq> []"
  by (auto simp: fileKey_def split: sum.splits option.splits)

lemma SameFile_key: "SameFile lp fh a b = (True, None) \<longleftrightarrow> (\<exists>k. FileKey lp fh a = Inr k \<and> FileKey lp fh b = Inr k)"
  by (auto simp: SameFile_def FileKey_def split: option.splits sum.splits)

lemma comparable_valid_unix:
  assumes "comparableSubjectProgram unix_paths a"
  shows "ValidSubjectProgram unix_paths (NormalizeSubjectProgram unix_paths a)"
proof (cases "HasPrefix a PackagedProgramPrefix")
  case True
  then show ?thesis using assms by (simp add: comparableSubjectProgram_def NormalizeSubjectProgram_def)
next
  case False
  then have a: "IsAbs a" "a \<noteq> []" "length a \<le> 4096" "\<not> ContainsAny a nul_cr_lf"
    using assms by (auto simp: comparableSubjectProgram_def)
  have "slash \<notin> set nul_cr_lf" by code_simp
  then have "\<not> ContainsAny (Clean a) nul_cr_lf"
    using a(4) Clean_chars [OF a(1)] by (auto simp: ContainsAny_def list_ex_iff)
  moreover have "length (Clean a) \<le> 4096" using Clean_length [OF a(2)] a(3) by simp
  moreover have "Clean a \<noteq> []" using IsAbs_Clean [OF a(1)] by (auto simp: IsAbs_iff)
  ultimately show ?thesis
    using False a(1) unix_never_packaged [OF a(1)] Clean_idem_abs [OF a(1)] IsAbs_Clean [OF a(1)]
    by (simp add: NormalizeSubjectProgram_def CanonicalProgramPath_def ValidSubjectProgram_def CutPrefix_def)
qed

text \<open>
  On Linux two subject programs are one exactly when both are well formed and either their
  normal spellings agree or both are paths that name one existing local file. So the comparison is
  reflexive on well-formed names, symmetric and transitive, a package family is equal to itself
  only, and a malformed or relative name equals nothing, not even itself.
\<close>

theorem SameSubjectProgram_unix:
  "SameSubjectProgram unix_paths lp fh a b \<longleftrightarrow>
     comparableSubjectProgram unix_paths a \<and> comparableSubjectProgram unix_paths b \<and>
     (NormalizeSubjectProgram unix_paths a = NormalizeSubjectProgram unix_paths b \<or>
      \<not> HasPrefix a PackagedProgramPrefix \<and> \<not> HasPrefix b PackagedProgramPrefix \<and>
      SameFile lp fh (Clean a) (Clean b) = (True, None))"
proof (cases "comparableSubjectProgram unix_paths a \<and> comparableSubjectProgram unix_paths b")
  case True
  have clean: "NormalizeSubjectProgram unix_paths q =
      (if HasPrefix q PackagedProgramPrefix then q else Clean q)" for q
    by (simp add: NormalizeSubjectProgram_def CanonicalProgramPath_def)
  have packaged: "HasPrefix (NormalizeSubjectProgram unix_paths q) PackagedProgramPrefix = HasPrefix q PackagedProgramPrefix"
    if "comparableSubjectProgram unix_paths q" for q
    using that unix_never_packaged [of q] by (auto simp: clean comparableSubjectProgram_def)
  have key: "(ProgramKey lp fh x \<noteq> [] \<and> ProgramKey lp fh y \<noteq> [] \<and> ProgramKey lp fh x = ProgramKey lp fh y) \<longleftrightarrow>
      SameFile lp fh x y = (True, None)"
    if "\<not> HasPrefix x PackagedProgramPrefix" "\<not> HasPrefix y PackagedProgramPrefix" for x y
    using that fileKey_nonempty unfolding SameFile_key
    by (fastforce simp: ProgramKey_def FileKey_def split: sum.splits option.splits)
  show ?thesis
    using True packaged [of a] packaged [of b] comparable_valid_unix [of a] comparable_valid_unix [of b]
      key [of "Clean a" "Clean b"] clean [of a] clean [of b]
    by (auto simp: SameSubjectProgram_def SameNormalizedSubjectProgram_def SameNormalizedSubjectProgramKeyed_def
        SamePathName_def split: if_splits)
qed (auto simp: SameSubjectProgram_def)

end
