(* ===== verification/Server_Trust.thy ===== *)
theory Server_Trust
  imports Program_Path Bindings Stream_IO
begin

section \<open>Trusting the connected server (listen/server.go)\<close>

text \<open>
  A framed client may carry an expectation of who serves the endpoint. \<^verbatim>\<open>serverConn\<close> wraps the
  connection, binds the server process once and compares it with the expectation before every
  write and around every read. What can change between calls (the context, the world the binding
  rechecks, the file system) is a \<open>moment\<close>.
\<close>

record ServerExpectation =
  sePrincipal :: User
  seProgram :: string
  seProcess :: "Process option"

record 'w moment =
  moCtx :: error
  moWorld :: 'w
  moPaths :: path_platform
  moLocal :: "string \<Rightarrow> error"
  moFiles :: file_host

definition validate :: "path_platform \<Rightarrow> ServerExpectation \<Rightarrow> error" where
  "validate pp e =
     (let u = sePrincipal e;
          validUser = (uKind u = ''windows'' \<and> uSID u \<noteq> [] \<or> uKind u = ''posix'' \<and> 0 \<le> uUID u)
      in if \<not> validUser \<or> \<not> ppIsAbs pp (seProgram e) \<or> IndexByte (seProgram e) (char_of (0 :: nat)) \<noteq> None \<or>
            (case seProcess e of None \<Rightarrow> False | Some p \<Rightarrow> prPID p \<le> 0 \<or> IsZero (prStartTime p))
         then Some (Errorf [Err ErrServerUntrusted]) else None)"

definition expectation_check :: "ServerExpectation \<Rightarrow> ('w, 's) Binding \<Rightarrow> 's \<Rightarrow> 'w moment \<Rightarrow> error" where
  "expectation_check e b s m =
     (case Binding_Peer b (moWorld m) s of Inl err \<Rightarrow> Some err
      | Inr p \<Rightarrow> (case AtLeast (pUser p) ProofBound of Inl err \<Rightarrow> Some err
      | Inr u \<Rightarrow> (case AtLeast (pProcess p) ProofKernel of Inl err \<Rightarrow> Some err
      | Inr process \<Rightarrow> (case AtLeast (pPath p) ProofBound of Inl err \<Rightarrow> Some err
      | Inr path \<Rightarrow>
          if uKind u \<noteq> uKind (sePrincipal e) \<or> uKind u = ''windows'' \<and> uSID u \<noteq> uSID (sePrincipal e) \<or>
             uKind u = ''posix'' \<and> uUID u \<noteq> uUID (sePrincipal e)
          then Some (New ''server principal mismatch'')
          else if \<not> SameSubjectProgram (moPaths m) (moLocal m) (moFiles m) path (seProgram e)
          then Some (New ''server program mismatch'')
          else if (case seProcess e of None \<Rightarrow> False
                   | Some q \<Rightarrow> prPID process \<noteq> prPID q \<or> prStartTime process \<noteq> prStartTime q)
          then Some (New ''server process instance mismatch'')
          else None))))"

record ('w, 's) serverConn =
  svConn :: conn
  svClosed :: bool
  svBinding :: "(('w, 's) Binding \<times> 's) option"
  svExpectation :: "ServerExpectation option"

text \<open>A binding is set only together with the expectation it is compared with.\<close>

definition checkLocked :: "('w, 's) serverConn \<Rightarrow> 'w moment \<Rightarrow> error" where
  "checkLocked c m =
     (if svClosed c then Some (Err ErrClosed)
      else (case moCtx m of Some err \<Rightarrow> Some err
      | None \<Rightarrow>
          (case svBinding c of None \<Rightarrow> None
           | Some (b, s) \<Rightarrow>
               (case svExpectation c of
                  None \<Rightarrow> None
                | Some e \<Rightarrow>
                    (case expectation_check e b s m of
                       Some err \<Rightarrow> Some (Errorf [Err ErrServerUntrusted, err])
                     | None \<Rightarrow> None)))))"

text \<open>
  \<^verbatim>\<open>authenticate\<close> with the answer \<open>bound\<close> of \<^verbatim>\<open>BindServerConn\<close>; \<open>m\<close> is when the new binding is
  checked.
\<close>

definition authenticate ::
  "ServerExpectation option \<Rightarrow> (go_error + ('w, 's) Binding \<times> 's) \<Rightarrow> error \<Rightarrow> 'w moment \<Rightarrow>
   ('w, 's) serverConn \<Rightarrow> error \<times> ('w, 's) serverConn" where
  "authenticate e bound ctxErr m c =
     (if svClosed c then (Some (Err ErrClosed), c)
      else if ctxErr \<noteq> None then (ctxErr, c)
      else (case e of
              None \<Rightarrow> (None, c)
            | Some ex \<Rightarrow>
                (let c = c\<lparr>svExpectation := Some ex\<rparr> in
                 case bound of
                   Inl err \<Rightarrow> (Some (Errorf [Err ErrServerUntrusted, err]), c)
                 | Inr bs \<Rightarrow> (let c = c\<lparr>svBinding := Some bs\<rparr> in (checkLocked c m, c)))))"

text \<open>\<^verbatim>\<open>use\<close>: the answer before the call's context is attached; \<open>deadline\<close> is that of \<^verbatim>\<open>SetDeadline\<close>.\<close>

definition server_use :: "error \<Rightarrow> ('w, 's) serverConn \<Rightarrow> error" where
  "server_use deadline c = (if svClosed c then Some (Err ErrClosed) else deadline)"

definition server_Read ::
  "nat \<Rightarrow> 'w moment \<Rightarrow> 'w moment \<Rightarrow> ('w, 's) serverConn \<Rightarrow> bytes \<times> error \<times> ('w, 's) serverConn" where
  "server_Read k before after c =
     (case checkLocked c before of
        Some err \<Rightarrow> ([], Some err, c)
      | None \<Rightarrow>
          (case conn_read k (svConn c) of
             (bs, err, pc) \<Rightarrow>
               (let c = c\<lparr>svConn := pc\<rparr> in
                case checkLocked c after of
                  Some checkErr \<Rightarrow> ([], Some checkErr, c)
                | None \<Rightarrow> (bs, err, c))))"

definition server_Write ::
  "bytes \<Rightarrow> 'w moment \<Rightarrow> ('w, 's) serverConn \<Rightarrow> int \<times> error \<times> ('w, 's) serverConn" where
  "server_Write p m c =
     (case checkLocked c m of
        Some err \<Rightarrow> (0, Some err, c)
      | None \<Rightarrow> (case conn_write p (svConn c) of (n, err, pc) \<Rightarrow> (n, err, c\<lparr>svConn := pc\<rparr>)))"

definition server_Close :: "'w \<Rightarrow> ('w, 's) serverConn \<Rightarrow> ('w, 's) serverConn" where
  "server_Close w c =
     (if svClosed c then c
      else c\<lparr>svClosed := True,
             svBinding := (case svBinding c of None \<Rightarrow> None | Some (b, s) \<Rightarrow> Some (b, snd (Binding_Close b w s)))\<rparr>)"

subsection \<open>What a trusted connection carries\<close>

text \<open>The comparison of \<^verbatim>\<open>check\<close> as a specification of the server's peer.\<close>

definition serves_as :: "ServerExpectation \<Rightarrow> 'w moment \<Rightarrow> Peer \<Rightarrow> bool" where
  "serves_as e m p =
     (\<exists>u process path. AtLeast (pUser p) ProofBound = Inr u \<and> AtLeast (pProcess p) ProofKernel = Inr process \<and>
        AtLeast (pPath p) ProofBound = Inr path \<and> uKind u = uKind (sePrincipal e) \<and>
        (uKind u = ''windows'' \<longrightarrow> uSID u = uSID (sePrincipal e)) \<and>
        (uKind u = ''posix'' \<longrightarrow> uUID u = uUID (sePrincipal e)) \<and>
        SameSubjectProgram (moPaths m) (moLocal m) (moFiles m) path (seProgram e) \<and>
        (\<forall>q. seProcess e = Some q \<longrightarrow> prPID process = prPID q \<and> prStartTime process = prStartTime q))"

lemma expectation_check_exact:
  "expectation_check e b s m = None \<longleftrightarrow> (\<exists>p. Binding_Peer b (moWorld m) s = Inr p \<and> serves_as e m p)"
  by (auto simp: expectation_check_def serves_as_def split: sum.splits option.splits)

lemma checkLocked_trusted:
  assumes "checkLocked c m = None" "svBinding c = Some (b, s)" "svExpectation c = Some e"
  shows "\<not> svClosed c \<and> moCtx m = None \<and> (\<exists>p. Binding_Peer b (moWorld m) s = Inr p \<and> serves_as e m p)"
  using assms expectation_check_exact [of e b s m]
  by (auto simp: checkLocked_def split: option.splits if_splits)

text \<open>A use of the connection: what it passes between the caller and the server, and when.\<close>

datatype 'w use_op =
    Recv nat "'w moment" "'w moment"
  | Send bytes "'w moment"
  | CloseConn 'w

fun use_step :: "'w use_op \<Rightarrow> ('w, 's) serverConn \<Rightarrow> ('w moment \<times> bytes) list \<times> ('w, 's) serverConn" where
  "use_step (Recv k before after) c = (case server_Read k before after c of (bs, _, c') \<Rightarrow> ([(after, bs)], c'))"
| "use_step (Send p m) c =
     (case server_Write p m c of (_, _, c') \<Rightarrow> ([(m, drop (length (sent (svConn c))) (sent (svConn c')))], c'))"
| "use_step (CloseConn w) c = ([], server_Close w c)"

fun use_run :: "'w use_op list \<Rightarrow> ('w, 's) serverConn \<Rightarrow> ('w moment \<times> bytes) list" where
  "use_run [] c = []"
| "use_run (op # ops) c = (case use_step op c of (tr, c') \<Rightarrow> tr @ use_run ops c')"

lemma use_run_closed: "svClosed c \<Longrightarrow> (m, bs) \<in> set (use_run ops c) \<Longrightarrow> bs = []"
proof (induction ops arbitrary: c)
  case (Cons op ops)
  then show ?case
    by (cases op) (auto simp: server_Read_def server_Write_def server_Close_def checkLocked_def)
qed simp

lemma use_run_trusted:
  assumes "svBinding c = Some (b, s)" "svExpectation c = Some e"
  shows "(m, bs) \<in> set (use_run ops c) \<Longrightarrow> bs \<noteq> [] \<Longrightarrow>
    moCtx m = None \<and> (\<exists>p. Binding_Peer b (moWorld m) s = Inr p \<and> serves_as e m p)"
  using assms
proof (induction ops arbitrary: c)
  case (Cons op ops)
  show ?case
  proof (cases op)
    case (Recv k before after)
    obtain out err c' where r: "server_Read k before after c = (out, err, c')"
      by (cases "server_Read k before after c")
    have keep: "svBinding c' = Some (b, s)" "svExpectation c' = Some e"
      using r Cons.prems by (auto simp: server_Read_def Let_def split: option.splits prod.splits)
    have "out \<noteq> [] \<Longrightarrow> checkLocked c' after = None"
      using r by (auto simp: server_Read_def Let_def split: option.splits prod.splits)
    with checkLocked_trusted [OF _ keep, of after] show ?thesis using Cons.IH [OF _ _ keep] Cons.prems Recv r by auto
  next
    case (Send q n)
    obtain k err c' where w: "server_Write q n c = (k, err, c')" by (cases "server_Write q n c")
    have keep: "svBinding c' = Some (b, s)" "svExpectation c' = Some e"
      using w Cons.prems by (auto simp: server_Write_def split: option.splits prod.splits)
    have "drop (length (sent (svConn c))) (sent (svConn c')) \<noteq> [] \<Longrightarrow> checkLocked c n = None"
      using w by (auto simp: server_Write_def split: option.splits prod.splits)
    with checkLocked_trusted [OF _ Cons.prems(3,4), of n] show ?thesis using Cons.IH [OF _ _ keep] Cons.prems Send w by auto
  next
    case (CloseConn w)
    have "svClosed (server_Close w c)" by (simp add: server_Close_def)
    then show ?thesis using use_run_closed Cons.prems CloseConn by fastforce
  qed
qed simp

text \<open>
  C20: nothing passes between a client and a server that is not the one expected. Once a connection
  has been authenticated with an expectation, over any sequence of reads, writes and closes, at any
  moments, every byte handed to the caller was followed, and every byte written was preceded, by a
  successful recheck of the bound server process, whose principal, program and, when pinned, process
  instance are those expected.
\<close>

theorem server_traffic_trusted:
  assumes auth: "authenticate (Some e) bound ctxErr m0 c0 = (None, c)" and bytes: "(m, bs) \<in> set (use_run ops c)" "bs \<noteq> []"
  shows "\<exists>b s p. bound = Inr (b, s) \<and> moCtx m = None \<and> Binding_Peer b (moWorld m) s = Inr p \<and> serves_as e m p"
proof -
  obtain b s where "bound = Inr (b, s)" "svBinding c = Some (b, s)" "svExpectation c = Some e"
    using auth by (auto simp: authenticate_def Let_def split: if_splits sum.splits)
  then show ?thesis using use_run_trusted [OF _ _ bytes] by blast
qed

definition trusted_peer :: Peer where
  "trusted_peer =
     \<lparr>pPlatform = ''linux'', pTransport = ''unix'', pObservedAt = 0,
      pUser = attr ''user'' (zero_User\<lparr>uKind := ''posix'', uUID := 1000\<rparr>) ProofKernel [],
      pProcess = attr ''process'' (zero_Process\<lparr>prPID := 42\<rparr>) ProofKernel [],
      pPath = attr ''path'' ''/srv/x'' ProofBound [], pPackage = unknown [] ''package'' [],
      pCode = unknown zero_Code ''code'' [], pNotes = [], pEvidenceValidUntil = 0\<rparr>"

definition trusted_expectation :: ServerExpectation where
  "trusted_expectation = \<lparr>sePrincipal = zero_User\<lparr>uKind := ''posix'', uUID := 1000\<rparr>, seProgram = ''/srv/x'', seProcess = None\<rparr>"

definition steady_binding :: "(unit, unit) Binding" where
  "steady_binding = \<lparr>bPeer = trusted_peer, bBoundAt = 0,
     bInner = \<lparr>recheck = (\<lambda>_ _. None), alive = (\<lambda>_ _. Inr True), release = (\<lambda>_ s. (None, s))\<rparr>\<rparr>"

definition quiet_moment :: "unit moment" where
  "quiet_moment = \<lparr>moCtx = None, moWorld = (), moPaths = unix_paths, moLocal = (\<lambda>_. None), moFiles = demo_files\<rparr>"

definition raw_conn :: "(unit, unit) serverConn" where
  "raw_conn = \<lparr>svConn = \<lparr>inbox = [Data [1, 2]], sent = [], accepts = []\<rparr>, svClosed = False, svBinding = None, svExpectation = None\<rparr>"

lemma trusted_program: "SameSubjectProgram unix_paths (\<lambda>_. None) demo_files ''/srv/x'' ''/srv/x''"
  by code_simp

theorem server_traffic_trusted_witness:
  "\<exists>c. authenticate (Some trusted_expectation) (Inr (steady_binding, ())) None quiet_moment raw_conn = (None, c) \<and>
     use_run [Recv 2 quiet_moment quiet_moment] c = [(quiet_moment, [1, 2])] \<and> serves_as trusted_expectation quiet_moment trusted_peer"
proof -
  have peer: "Binding_Peer steady_binding w () = Inr trusted_peer" for w
    by (simp add: Binding_Peer_def steady_binding_def)
  have "expectation_check trusted_expectation steady_binding () quiet_moment = None"
    using trusted_program
    by (simp add: expectation_check_def peer trusted_peer_def AtLeast_def attr_def trusted_expectation_def
        quiet_moment_def ladder_simps)
  then have check: "svBinding c = Some (steady_binding, ()) \<Longrightarrow> svExpectation c = Some trusted_expectation \<Longrightarrow>
      \<not> svClosed c \<Longrightarrow> checkLocked c quiet_moment = None" for c :: "(unit, unit) serverConn"
    by (simp add: checkLocked_def quiet_moment_def)
  define c where "c = raw_conn\<lparr>svExpectation := Some trusted_expectation, svBinding := Some (steady_binding, ())\<rparr>"
  have auth: "authenticate (Some trusted_expectation) (Inr (steady_binding, ())) None quiet_moment raw_conn = (None, c)"
    using check [of c] by (simp add: authenticate_def c_def raw_conn_def)
  have run: "use_run [Recv 2 quiet_moment quiet_moment] c = [(quiet_moment, [1, 2])]"
    by (simp add: server_Read_def check c_def raw_conn_def conn_read_def)
  have passed: "(quiet_moment, [1, 2]) \<in> set (use_run [Recv 2 quiet_moment quiet_moment] c)" unfolding run by simp
  have "\<exists>b s p. Inr (steady_binding, ()) = (Inr (b, s) :: go_error + (unit, unit) Binding \<times> unit) \<and> moCtx quiet_moment = None \<and>
      Binding_Peer b (moWorld quiet_moment) s = Inr p \<and> serves_as trusted_expectation quiet_moment p"
    by (rule server_traffic_trusted [OF auth passed]) simp
  then show ?thesis using auth run by (auto simp: peer)
qed

end
