(* ===== verification/Frame_Pool.thy ===== *)
theory Frame_Pool
  imports Server_Trust
begin

section \<open>The client's pool of session connections (listen/pool.go, framePool)\<close>

text \<open>
  Idle connections are kept per key, a string made of the endpoint and the server expectation;
  endpoints that do not serve sessions are remembered for a while. Connections are opaque here;
  \<^verbatim>\<open>idleIntact\<close>, the operating system's answer whether the server has ended one, is an argument.
\<close>

definition poolIdle :: Duration where "poolIdle = 10 * Second"
definition poolPerEndpoint :: nat where "poolPerEndpoint = 4"
definition singleMemory :: Duration where "singleMemory = 30 * Second"
definition sessionAttempts :: nat where "sessionAttempts = 3"

record FrameClient =
  fcEndpoint :: string
  fcTimeout :: Duration
  fcMaxFrame :: "32 word"
  fcServer :: "ServerExpectation option"
  fcDialer :: bool
  fcSessions :: bool

definition NUL :: char where "NUL = char_of (0 :: nat)"

text \<open>\<open>show_time\<close> is \<^verbatim>\<open>time.Time.String\<close>.\<close>

definition poolKey :: "(Time \<Rightarrow> string) \<Rightarrow> FrameClient \<Rightarrow> string" where
  "poolKey show_time c =
     (let key = fcEndpoint c in
      case fcServer c of
        None \<Rightarrow> key
      | Some s \<Rightarrow>
          (let u = sePrincipal s;
               key = key @ [NUL] @ uKind u @ [NUL] @ uSID u @ [NUL] @ itoa (uUID u) @ [NUL] @ seProgram s
           in case seProcess s of
                None \<Rightarrow> key
              | Some p \<Rightarrow> key @ [NUL] @ itoa (prPID p) @ [NUL] @ show_time (prStartTime p)))"

record 'c framePool =
  fpIdle :: "string \<Rightarrow> ('c \<times> Time) list"
  fpSingle :: "string \<Rightarrow> Time option"

definition isSingle :: "string \<Rightarrow> Time \<Rightarrow> 'c framePool \<Rightarrow> bool \<times> 'c framePool" where
  "isSingle key now p =
     (case fpSingle p key of
        None \<Rightarrow> (False, p)
      | Some until \<Rightarrow> if until < now then (False, p\<lparr>fpSingle := (fpSingle p)(key := None)\<rparr>) else (True, p))"

definition markSingle :: "string \<Rightarrow> Time \<Rightarrow> 'c framePool \<Rightarrow> 'c framePool" where
  "markSingle key now p = p\<lparr>fpSingle := (fpSingle p)(key \<mapsto> now + singleMemory)\<rparr>"

text \<open>One round of the loop of \<^verbatim>\<open>take\<close>, under the lock: the most recently used connection.\<close>

definition take_last :: "string \<Rightarrow> 'c framePool \<Rightarrow> ('c \<times> Time) option \<times> 'c framePool" where
  "take_last key p =
     (let idle = fpIdle p key in
      if idle = [] then (None, p)
      else (Some (last idle), p\<lparr>fpIdle := (fpIdle p)(key := butlast idle)\<rparr>))"

lemma take_last_shorter: "take_last key p = (Some x, p') \<Longrightarrow> length (fpIdle p' key) < length (fpIdle p key)"
  by (auto simp: take_last_def Let_def split: if_splits)

text \<open>\<^verbatim>\<open>take\<close>: the connection to use, and those it closed on the way.\<close>

function take_conn :: "('c \<Rightarrow> bool) \<Rightarrow> string \<Rightarrow> Time \<Rightarrow> 'c framePool \<Rightarrow> 'c option \<times> 'c list \<times> 'c framePool" where
  "take_conn intact key now p =
     (case take_last key p of
        (None, p') \<Rightarrow> (None, [], p')
      | (Some (c, since), p') \<Rightarrow>
          if now - since < poolIdle \<and> intact c then (Some c, [], p')
          else (case take_conn intact key now p' of (r, gone, p'') \<Rightarrow> (r, c # gone, p'')))"
  by auto
termination
  by (relation "measure (\<lambda>(intact, key, now, p). length (fpIdle p key))") (auto dest: take_last_shorter [OF sym])

declare take_conn.simps [simp del]

text \<open>\<^verbatim>\<open>put\<close> also answers with the connections it closes.\<close>

definition put_conn :: "string \<Rightarrow> 'c \<Rightarrow> Time \<Rightarrow> 'c framePool \<Rightarrow> 'c list \<times> 'c framePool" where
  "put_conn key conn now p =
     (let old = (\<lambda>(c, since). poolIdle \<le> now - since);
          expired = takeWhile old (fpIdle p key);
          idle = dropWhile old (fpIdle p key)
      in if poolPerEndpoint \<le> length idle
         then (conn # map fst expired, p\<lparr>fpIdle := (fpIdle p)(key := idle)\<rparr>)
         else (map fst expired, p\<lparr>fpIdle := (fpIdle p)(key := idle @ [(conn, now)])\<rparr>))"

subsection \<open>A key names one endpoint and one expectation\<close>

definition key_fields :: "(Time \<Rightarrow> string) \<Rightarrow> FrameClient \<Rightarrow> string list" where
  "key_fields show_time c =
     fcEndpoint c #
     (case fcServer c of
        None \<Rightarrow> []
      | Some s \<Rightarrow>
          [uKind (sePrincipal s), uSID (sePrincipal s), itoa (uUID (sePrincipal s)), seProgram s] @
          (case seProcess s of None \<Rightarrow> [] | Some p \<Rightarrow> [itoa (prPID p), show_time (prStartTime p)]))"

lemma poolKey_fields: "poolKey show_time c = Join (key_fields show_time c) [NUL]"
  by (simp add: poolKey_def key_fields_def Let_def split: option.splits)

lemma is_digit_not_NUL: "is_digit x \<Longrightarrow> x \<noteq> NUL"
  by (auto simp: is_digit_def NUL_def)

lemma itoa_no_NUL: "NUL \<notin> set (itoa i)"
proof -
  have "NUL \<notin> set (utoa n)" for n
    using list_all_is_digit_utoa [of n] is_digit_not_NUL by (auto simp: list_all_iff)
  moreover have "NUL \<noteq> CHR ''-''" by code_simp
  ultimately show ?thesis by (simp add: itoa_def)
qed

lemma itoa_inject: "itoa i = itoa j \<longleftrightarrow> i = j"
proof
  assume eq: "itoa i = itoa j"
  have neg: "i < 0 \<longleftrightarrow> j < 0"
    using eq utoa_no_sign [of "nat i"] utoa_no_sign [of "nat j"] utoa_nonempty [of "nat i"] utoa_nonempty [of "nat j"]
    by (auto simp: itoa_def split: if_splits) (metis list.sel(1))+
  then have "utoa (nat (if i < 0 then - i else i)) = utoa (nat (if j < 0 then - j else j))"
    using eq by (auto simp: itoa_def split: if_splits)
  then have "nat (if i < 0 then - i else i) = nat (if j < 0 then - j else j)" by (metis digits_value_utoa)
  then show "i = j" using neg by (auto split: if_splits)
qed simp

text \<open>The strings of a client hold no NUL byte; \<^verbatim>\<open>validate\<close> demands it of the program.\<close>

definition no_NUL :: "FrameClient \<Rightarrow> bool" where
  "no_NUL c = (NUL \<notin> set (fcEndpoint c) \<and>
     (case fcServer c of None \<Rightarrow> True
      | Some s \<Rightarrow> NUL \<notin> set (uKind (sePrincipal s)) \<and> NUL \<notin> set (uSID (sePrincipal s)) \<and> NUL \<notin> set (seProgram s)))"

lemma key_fields_no_NUL:
  "no_NUL c \<Longrightarrow> (\<And>t. NUL \<notin> set (show_time t)) \<Longrightarrow> w \<in> set (key_fields show_time c) \<Longrightarrow> NUL \<notin> set w"
  using itoa_no_NUL by (auto simp: key_fields_def no_NUL_def split: option.splits)

text \<open>
  Two clients share pooled connections only when they trust alike. Where time stamps print
  distinctly and no part holds a NUL byte, clients with one pool key have the same endpoint, both
  expect a server or neither does, and their expectations accept exactly the same servers at every
  moment.
\<close>

theorem poolKey_separates:
  assumes key: "poolKey show_time c1 = poolKey show_time c2" and nul: "no_NUL c1" "no_NUL c2"
    and stamp: "\<And>t. NUL \<notin> set (show_time t)" "inj show_time"
  shows "fcEndpoint c1 = fcEndpoint c2 \<and> (fcServer c1 = None \<longleftrightarrow> fcServer c2 = None) \<and>
    (\<forall>e1 e2. fcServer c1 = Some e1 \<and> fcServer c2 = Some e2 \<longrightarrow>
       (\<forall>(b :: ('w, 's) Binding) s m. expectation_check e1 b s m = expectation_check e2 b s m))"
proof -
  have "Split (poolKey show_time c) NUL = key_fields show_time c" if "no_NUL c" for c
    unfolding poolKey_fields using key_fields_no_NUL [OF that stamp(1)]
    by (intro Split_Join) (auto simp: key_fields_def)
  then have fields: "key_fields show_time c1 = key_fields show_time c2" using key nul by metis
  have same: "uKind (sePrincipal e1) = uKind (sePrincipal e2) \<and> uSID (sePrincipal e1) = uSID (sePrincipal e2) \<and>
      uUID (sePrincipal e1) = uUID (sePrincipal e2) \<and> seProgram e1 = seProgram e2 \<and>
      (case seProcess e1 of None \<Rightarrow> seProcess e2 = None
       | Some p \<Rightarrow> \<exists>q. seProcess e2 = Some q \<and> prPID p = prPID q \<and> prStartTime p = prStartTime q)"
    if "fcServer c1 = Some e1" "fcServer c2 = Some e2" for e1 e2
    using fields that stamp(2) by (auto simp: key_fields_def itoa_inject inj_eq split: option.splits)
  have "expectation_check e1 b s m = expectation_check e2 b s m"
    if "fcServer c1 = Some e1" "fcServer c2 = Some e2" for e1 e2 and b :: "('w, 's) Binding" and s m
    using same [OF that] by (cases "seProcess e1") (auto simp: expectation_check_def cong: sum.case_cong if_cong)
  moreover have "fcServer c1 = None \<longleftrightarrow> fcServer c2 = None"
    using fields by (auto simp: key_fields_def split: option.splits)
  moreover have "fcEndpoint c1 = fcEndpoint c2" using fields by (simp add: key_fields_def)
  ultimately show ?thesis by blast
qed

definition plain_client :: FrameClient where
  "plain_client = \<lparr>fcEndpoint = ''/run/a.sock'', fcTimeout = 0, fcMaxFrame = 0, fcServer = Some trusted_expectation,
     fcDialer = False, fcSessions = True\<rparr>"

definition named_expectation :: ServerExpectation where
  "named_expectation = trusted_expectation\<lparr>sePrincipal := (sePrincipal trusted_expectation)\<lparr>uName := ''service''\<rparr>\<rparr>"

theorem poolKey_separates_witness:
  "expectation_check trusted_expectation steady_binding () quiet_moment =
   expectation_check named_expectation steady_binding () quiet_moment"
proof -
  let ?c = "plain_client\<lparr>fcServer := Some named_expectation\<rparr>"
  have "no_NUL plain_client" "no_NUL ?c" by code_simp+
  moreover have "poolKey itoa plain_client = poolKey itoa ?c"
    by (simp add: poolKey_def plain_client_def named_expectation_def trusted_expectation_def)
  moreover have "inj itoa" by (simp add: inj_def itoa_inject)
  moreover have "fcServer plain_client = Some trusted_expectation" by (simp add: plain_client_def)
  ultimately show ?thesis
    using poolKey_separates [of itoa plain_client ?c, where 'w = unit and 's = unit] itoa_no_NUL by simp
qed

subsection \<open>Every connection has one owner\<close>

text \<open>
  All clients of a process share one pool. The steps are its critical sections and the calls'
  own handling of connections: a call dials a connection for its key, pops the last idle one, gives
  one back under its key, or closes one it holds. A connection popped and then found too old or
  ended is one that is held and closed. \<open>dialled\<close> records every connection's key.
\<close>

record 'c pool_use =
  puPool :: "'c framePool"
  puHeld :: "('c \<times> string) list"
  puDialled :: "'c \<Rightarrow> string option"

inductive pool_step :: "'c pool_use \<Rightarrow> 'c pool_use \<Rightarrow> bool" where
  dials:
    "puDialled u c = None \<Longrightarrow>
     pool_step u (u\<lparr>puHeld := (c, key) # puHeld u, puDialled := (puDialled u)(c \<mapsto> key)\<rparr>)"
| pops:
    "take_last key (puPool u) = (Some (c, since), p) \<Longrightarrow>
     pool_step u (u\<lparr>puPool := p, puHeld := (c, key) # puHeld u\<rparr>)"
| puts:
    "puHeld u = us @ (c, key) # vs \<Longrightarrow> put_conn key c now (puPool u) = (gone, p) \<Longrightarrow>
     pool_step u (u\<lparr>puPool := p, puHeld := us @ vs\<rparr>)"
| closes:
    "puHeld u = us @ (c, key) # vs \<Longrightarrow> pool_step u (u\<lparr>puHeld := us @ vs\<rparr>)"
| remembers:
    "fpIdle p = fpIdle (puPool u) \<Longrightarrow> pool_step u (u\<lparr>puPool := p\<rparr>)"

definition empty_pool :: "'c pool_use" where
  "empty_pool = \<lparr>puPool = \<lparr>fpIdle = (\<lambda>_. []), fpSingle = (\<lambda>_. None)\<rparr>, puHeld = [], puDialled = (\<lambda>_. None)\<rparr>"

text \<open>The idle list of a key, given which connections were dialled for it and which are held.\<close>

definition idle_ok :: "('c \<times> Time) list \<Rightarrow> 'c set \<Rightarrow> 'c set \<Rightarrow> bool" where
  "idle_ok idle own held \<longleftrightarrow>
     length idle \<le> poolPerEndpoint \<and> distinct (map fst idle) \<and> fst ` set idle \<subseteq> own - held"

definition held_by :: "'c pool_use \<Rightarrow> 'c set" where "held_by u = fst ` set (puHeld u)"

definition own :: "'c pool_use \<Rightarrow> string \<Rightarrow> 'c set" where "own u key = {c. puDialled u c = Some key}"

definition pool_inv :: "'c pool_use \<Rightarrow> bool" where
  "pool_inv u \<longleftrightarrow>
     distinct (map fst (puHeld u)) \<and> (\<forall>c key. (c, key) \<in> set (puHeld u) \<longrightarrow> c \<in> own u key) \<and>
     (\<forall>key. idle_ok (fpIdle (puPool u) key) (own u key) (held_by u))"

lemma put_conn_idle:
  assumes "put_conn key conn now p = (gone, p')"
  shows "\<exists>old rest. fpIdle p key = old @ rest \<and>
    (fpIdle p' = (fpIdle p)(key := rest) \<and> poolPerEndpoint \<le> length rest \<or>
     fpIdle p' = (fpIdle p)(key := rest @ [(conn, now)]) \<and> length rest < poolPerEndpoint)"
proof -
  let ?old = "\<lambda>(c, since). poolIdle \<le> now - since"
  have "fpIdle p key = takeWhile ?old (fpIdle p key) @ dropWhile ?old (fpIdle p key)" by simp
  then show ?thesis
    using assms by (intro exI [of _ "takeWhile ?old (fpIdle p key)"] exI [of _ "dropWhile ?old (fpIdle p key)"])
      (auto simp: put_conn_def Let_def split: if_splits)
qed

lemma idle_ok_mono: "idle_ok idle A B \<Longrightarrow> A - B \<subseteq> A' - B' \<Longrightarrow> idle_ok idle A' B'"
  by (auto simp: idle_ok_def)

lemma idle_ok_suffix: "idle_ok (xs @ ys) A B \<Longrightarrow> idle_ok ys A B"
  by (auto simp: idle_ok_def)

lemma own_disjoint: "c \<in> own u k \<Longrightarrow> c \<in> own u k' \<Longrightarrow> k = k'"
  by (simp add: own_def)

lemma pool_inv_puts:
  assumes inv: "pool_inv u" and held: "puHeld u = us @ (c, key) # vs" and put: "put_conn key c now (puPool u) = (gone, p)"
  shows "pool_inv (u\<lparr>puPool := p, puHeld := us @ vs\<rparr>)"
proof -
  let ?u = "u\<lparr>puPool := p, puHeld := us @ vs\<rparr>"
  obtain old rest where idle: "fpIdle (puPool u) key = old @ rest"
      and p: "fpIdle p = (fpIdle (puPool u))(key := rest) \<and> poolPerEndpoint \<le> length rest \<or>
        fpIdle p = (fpIdle (puPool u))(key := rest @ [(c, now)]) \<and> length rest < poolPerEndpoint"
    using put_conn_idle [OF put] by blast
  have own: "own ?u = own u" by (simp add: own_def fun_eq_iff)
  have c: "c \<in> own u key" "c \<notin> held_by ?u" and h: "held_by u = insert c (held_by ?u)"
    using inv held by (auto simp: pool_inv_def held_by_def)
  have "idle_ok (old @ rest) (own u key) (held_by u)" using inv idle unfolding pool_inv_def by metis
  then have rest: "idle_ok rest (own u key) (held_by u)" by (rule idle_ok_suffix)
  have "idle_ok (fpIdle p k) (own u k) (held_by ?u)" for k
  proof (cases "k = key")
    case False
    then have "fpIdle p k = fpIdle (puPool u) k" using p by auto
    then show ?thesis using inv h unfolding pool_inv_def by (metis Diff_mono idle_ok_mono order_refl subset_insertI)
  next
    case True
    have "idle_ok rest (own u key) (held_by ?u)" using rest h by (metis Diff_mono idle_ok_mono order_refl subset_insertI)
    moreover have "idle_ok (rest @ [(c, now)]) (own u key) (held_by ?u)" if "length rest < poolPerEndpoint"
      using rest that c h by (auto simp: idle_ok_def)
    ultimately show ?thesis using p True by auto
  qed
  moreover have "distinct (map fst (us @ vs))" using inv held by (auto simp: pool_inv_def)
  moreover have "\<forall>x k. (x, k) \<in> set (us @ vs) \<longrightarrow> x \<in> own u k" using inv held by (auto simp: pool_inv_def)
  ultimately show ?thesis by (simp add: pool_inv_def own)
qed

lemma pool_inv_pops:
  assumes inv: "pool_inv u" and pop: "take_last key (puPool u) = (Some (c, since), p)"
  shows "pool_inv (u\<lparr>puPool := p, puHeld := (c, key) # puHeld u\<rparr>)"
proof -
  let ?u = "u\<lparr>puPool := p, puHeld := (c, key) # puHeld u\<rparr>"
  have idle: "fpIdle (puPool u) key = fpIdle p key @ [(c, since)]"
    using pop by (auto simp: take_last_def Let_def split: if_splits) (metis append_butlast_last_id)
  have other: "fpIdle p k = fpIdle (puPool u) k" if "k \<noteq> key" for k
    using pop that by (auto simp: take_last_def Let_def split: if_splits)
  have own: "own ?u = own u" and h: "held_by ?u = insert c (held_by u)" by (auto simp: own_def held_by_def fun_eq_iff)
  have all: "idle_ok (fpIdle p key @ [(c, since)]) (own u key) (held_by u)" using inv idle unfolding pool_inv_def by metis
  then have c: "c \<in> own u key" "c \<notin> held_by u" by (auto simp: idle_ok_def)
  have "idle_ok (fpIdle p k) (own u k) (insert c (held_by u))" for k
  proof (cases "k = key")
    case True
    then show ?thesis using all by (auto simp: idle_ok_def)
  next
    case False
    then have "c \<notin> own u k" using c(1) own_disjoint by metis
    then have "own u k - insert c (held_by u) = own u k - held_by u" by auto
    then show ?thesis using inv other [OF False] unfolding pool_inv_def idle_ok_def by metis
  qed
  moreover have "distinct (map fst ((c, key) # puHeld u))" using inv c(2) by (simp add: pool_inv_def held_by_def)
  moreover have "\<forall>x k. (x, k) \<in> set ((c, key) # puHeld u) \<longrightarrow> x \<in> own u k" using inv c(1) by (auto simp: pool_inv_def)
  ultimately show ?thesis by (simp add: pool_inv_def own h)
qed

lemma pool_inv_dials:
  assumes inv: "pool_inv u" and fresh: "puDialled u c = None"
  shows "pool_inv (u\<lparr>puHeld := (c, key) # puHeld u, puDialled := (puDialled u)(c \<mapsto> key)\<rparr>)"
proof -
  let ?u = "u\<lparr>puHeld := (c, key) # puHeld u, puDialled := (puDialled u)(c \<mapsto> key)\<rparr>"
  have own: "own ?u k = (if k = key then insert c (own u k) else own u k)" for k using fresh by (auto simp: own_def)
  have c: "c \<notin> own u k" for k using fresh by (simp add: own_def)
  have h: "held_by ?u = insert c (held_by u)" by (simp add: held_by_def)
  have "own ?u k - held_by ?u = own u k - held_by u" for k using c own h by auto
  then have "idle_ok (fpIdle (puPool u) k) (own ?u k) (held_by ?u)" for k
    using inv unfolding pool_inv_def idle_ok_def by metis
  moreover have "distinct (map fst (puHeld ?u))"
  proof -
    have "(c, k) \<notin> set (puHeld u)" for k using inv c unfolding pool_inv_def by blast
    then show ?thesis using inv by (auto simp: pool_inv_def)
  qed
  moreover have "\<forall>x k. (x, k) \<in> set (puHeld ?u) \<longrightarrow> x \<in> own ?u k" using inv unfolding own by (auto simp: pool_inv_def)
  ultimately show ?thesis by (simp add: pool_inv_def)
qed

lemma pool_inv_step: "pool_step u u' \<Longrightarrow> pool_inv u \<Longrightarrow> pool_inv u'"
proof (induction rule: pool_step.induct)
  case (closes u us c key vs)
  let ?u = "u\<lparr>puHeld := us @ vs\<rparr>"
  have own: "own ?u = own u" by (simp add: own_def fun_eq_iff)
  have "held_by ?u \<subseteq> held_by u" using closes.hyps by (auto simp: held_by_def)
  then have "idle_ok (fpIdle (puPool u) k) (own u k) (held_by ?u)" for k
    using closes.prems unfolding pool_inv_def by (metis Diff_mono idle_ok_mono order_refl)
  then show ?case using closes by (auto simp: pool_inv_def own)
next
  case (remembers p u)
  have "own (u\<lparr>puPool := p\<rparr>) = own u" "held_by (u\<lparr>puPool := p\<rparr>) = held_by u" by (simp_all add: own_def held_by_def fun_eq_iff)
  then show ?case using remembers by (simp add: pool_inv_def)
qed (auto intro: pool_inv_dials pool_inv_pops pool_inv_puts)



text \<open>
  What \<^verbatim>\<open>take\<close> answers: the most recently used connection that is young and intact, closing exactly
  those used after it.
\<close>

lemma take_conn_spec:
  assumes "take_conn intact key now p = (r, gone, p')"
  shows "(case r of
      None \<Rightarrow> fpIdle p' key = [] \<and> rev gone = map fst (fpIdle p key)
    | Some c \<Rightarrow> \<exists>since. map fst (fpIdle p key) = map fst (fpIdle p' key) @ c # rev gone \<and>
        intact c \<and> now - since < poolIdle \<and> (c, since) \<in> set (fpIdle p key))"
  using assms
proof (induction intact key now p arbitrary: r gone p' rule: take_conn.induct)
  case (1 intact key now p)
  show ?case
  proof (cases "fpIdle p key = []")
    case True
    then have "take_conn intact key now p = (None, [], p)" by (subst take_conn.simps) (simp add: take_last_def)
    then show ?thesis using 1(2) True by simp
  next
    case False
    obtain c since where l: "last (fpIdle p key) = (c, since)" by (cases "last (fpIdle p key)")
    define q where "q = p\<lparr>fpIdle := (fpIdle p)(key := butlast (fpIdle p key))\<rparr>"
    have t: "take_last key p = (Some (c, since), q)" using False l by (simp add: take_last_def q_def)
    have idle: "fpIdle p key = fpIdle q key @ [(c, since)]"
      using False l append_butlast_last_id [OF False] by (simp add: q_def)
    show ?thesis
    proof (cases "now - since < poolIdle \<and> intact c")
      case True
      then have "take_conn intact key now p = (Some c, [], q)" by (subst take_conn.simps) (simp add: t)
      then show ?thesis using 1(2) True idle by auto
    next
      case old: False
      obtain r' gone' p2 where rec: "take_conn intact key now q = (r', gone', p2)"
        by (cases "take_conn intact key now q")
      have "take_conn intact key now p = (r', c # gone', p2)"
        using old by (subst take_conn.simps) (auto simp: t rec)
      then have "r = r'" "gone = c # gone'" "p' = p2" using 1(2) by simp_all
      with 1(1) [OF t [symmetric] refl refl old rec] idle show ?thesis by (auto split: option.splits)
    qed
  qed
qed

end
