(* ===== verification/Frame_Client.thy ===== *)
theory Frame_Client
  imports Frame_Pool Session_Call
begin

section \<open>The framed client (listen/framed.go FrameClient, listen/pool.go sessionCall)\<close>

text \<open>
  One exchange, or one one-way write, over a session connection or a connection of its own. A
  connection is the byte stream the call sees through \<^verbatim>\<open>serverConn\<close>; a failed trust check ends it
  with that error. Everything else a call meets (a pooled connection, the answers of the dialer
  and of the clock) is given per attempt. The reply of a one-way write is the empty list.
\<close>

datatype attempt = Finished "go_error + bytes" | Again

text \<open>An attempt's outcome: the result, whether to keep the connection, whether to remember the endpoint as single.\<close>

type_synonym attempted = "attempt \<times> bool \<times> bool \<times> conn"

definition singleOnSession ::
  "(go_error \<Rightarrow> bool) \<Rightarrow> ctx \<Rightarrow> bytes \<Rightarrow> 32 word \<Rightarrow> bool \<Rightarrow> conn \<Rightarrow> (go_error + bytes) \<times> conn" where
  "singleOnSession platform cx frame limit oneWay c =
     (case writeAll frame c of
        (Some err, c1) \<Rightarrow> (case refusalAfterWriteError platform cx err False c1 of (e, c2) \<Rightarrow> (Inl e, c2))
      | (None, c1) \<Rightarrow>
          if oneWay then (case waitFrameEOF c1 of (Some e, c2) \<Rightarrow> (Inl e, c2) | (None, c2) \<Rightarrow> (Inr [], c2))
          else readFrame limit c1)"

text \<open>The second half of an attempt, once the request is written.\<close>

definition read_answer :: "32 word \<Rightarrow> bool \<Rightarrow> conn \<Rightarrow> attempted" where
  "read_answer limit oneWay c =
     (case readUint32 c of
        (Inl err, _, c1) \<Rightarrow> (Finished (Inl err), False, False, c1)
      | (Inr header, _, c1) \<Rightarrow>
          if header = sessionClosing then (Again, False, False, c1)
          else if header = proofRefusalHeader
          then (case readProofRefusal c1 of (e, c2) \<Rightarrow> (Finished (Inl e), False, False, c2))
          else if header AND oneWayFlag \<noteq> 0 then (Finished (Inl (Err ErrSessionProtocol)), False, False, c1)
          else
            (let len = header AND lengthMask in
             if oneWay then
               (if len \<noteq> 0 then (Finished (Inl (Err ErrUnexpectedResponse)), False, False, c1)
                else (Finished (Inr []), header AND sessionFlag \<noteq> 0, False, c1))
             else (case readFrameBody len limit c1 of
                     (Inl err, c2) \<Rightarrow> (Finished (Inl err), False, False, c2)
                   | (Inr reply, c2) \<Rightarrow> (Finished (Inr reply), header AND sessionFlag \<noteq> 0, False, c2))))"

definition session_flags :: "bytes \<Rightarrow> bool \<Rightarrow> 32 word" where
  "session_flags frame oneWay =
     (let flags = sessionFlag OR of_nat (length frame) in if oneWay then flags OR oneWayFlag else flags)"

definition fresh_attempt ::
  "(go_error \<Rightarrow> bool) \<Rightarrow> ctx \<Rightarrow> bytes \<Rightarrow> 32 word \<Rightarrow> bool \<Rightarrow> conn \<Rightarrow> attempted" where
  "fresh_attempt platform cx frame limit oneWay c =
     (case writeFreshSessionHeader platform cx (session_flags frame oneWay) c of
        (Some err, c1) \<Rightarrow> (Finished (Inl err), False, False, c1)
      | (None, c1) \<Rightarrow>
          (case readUint32 c1 of
             (Inl err, n, c2) \<Rightarrow>
               (if n = 0 \<and> ctxErr cx = None \<and> \<not> IsTimeout (Some err) then Finished (Inl (Err ErrNoSession))
                else Finished (Inl err), False, False, c2)
           | (Inr ack, n, c2) \<Rightarrow>
               if ack = proofRefusalHeader then (case readProofRefusal c2 of (e, c3) \<Rightarrow> (Finished (Inl e), False, False, c3))
               else if ack = sessionClosing then (Again, False, False, c2)
               else if ack = sessionDecline \<or> ack = sessionUnsupported
               then (case singleOnSession platform cx frame limit oneWay c2 of
                       (r, c3) \<Rightarrow> (Finished r, False, ack = sessionUnsupported, c3))
               else if ack \<noteq> sessionAccept then (Finished (Inl (Err ErrSessionProtocol)), False, False, c2)
               else (case writeAll frame c2 of
                       (Some err, c3) \<Rightarrow>
                         (case refusalAfterWriteError platform cx err False c3 of (e, c4) \<Rightarrow> (Finished (Inl e), False, False, c4))
                     | (None, c3) \<Rightarrow> read_answer limit oneWay c3)))"

definition pooled_attempt ::
  "(go_error \<Rightarrow> bool) \<Rightarrow> ctx \<Rightarrow> bytes \<Rightarrow> 32 word \<Rightarrow> bool \<Rightarrow> conn \<Rightarrow> attempted" where
  "pooled_attempt platform cx frame limit oneWay c =
     (case writeHeadedCount (session_flags frame oneWay) frame c of
        (_, Some err, c1) \<Rightarrow>
          (case refusalAfterWriteError platform cx err False c1 of (e, c2) \<Rightarrow> (Finished (Inl e), False, False, c2))
      | (_, None, c1) \<Rightarrow> read_answer limit oneWay c1)"

text \<open>\<^verbatim>\<open>finish\<close>: the connection goes back to the pool only if it was kept and the call was not cancelled.\<close>

definition finish :: "string \<Rightarrow> 'c \<Rightarrow> bool \<Rightarrow> bool \<Rightarrow> error \<Rightarrow> Time \<Rightarrow> 'c framePool \<Rightarrow> 'c list \<times> 'c framePool" where
  "finish key conn keep detached cancelled now p =
     (if detached \<and> keep \<and> cancelled = None then put_conn key conn now p else ([conn], p))"

subsection \<open>The attempts of a call\<close>

text \<open>
  What an attempt meets besides the pool: the answers of \<^verbatim>\<open>dialSession\<close>, of \<^verbatim>\<open>use\<close> and of the \<^verbatim>\<open>stop\<close>
  it returns, the context, and the clock when the connection is taken and when it is put back.
\<close>

record attempt_env =
  atDial :: "go_error + conn"
  atUse :: error
  atStop :: bool
  atCtx :: ctx
  atTaken :: Time
  atDone :: Time

text \<open>The connection of an attempt, and whether it is fresh.\<close>

type_synonym tried = "bool \<times> (go_error + conn)"

definition attempt_on ::
  "(go_error \<Rightarrow> bool) \<Rightarrow> string \<Rightarrow> bytes \<Rightarrow> 32 word \<Rightarrow> bool \<Rightarrow> attempt_env \<Rightarrow> tried \<Rightarrow> conn framePool \<Rightarrow> attempt \<times> conn framePool" where
  "attempt_on platform key frame limit oneWay env tried p =
     (case snd tried of
        Inl err \<Rightarrow> (Finished (Inl err), p)
      | Inr c \<Rightarrow>
          (case atUse env of
             Some err \<Rightarrow> (Finished (Inl err), p)
           | None \<Rightarrow>
               (case (if fst tried then fresh_attempt else pooled_attempt) platform (atCtx env) frame limit oneWay c of
                  (r, keep, unsupported, c') \<Rightarrow>
                    (let p = (if unsupported then markSingle key (atDone env) p else p)
                     in (r, snd (finish key c' keep (atStop env) (ctxErr (atCtx env)) (atDone env) p))))))"

text \<open>
  The loop of \<^verbatim>\<open>sessionCall\<close>; \<open>intact\<close> is the check \<^verbatim>\<open>take\<close> makes of a pooled connection. The second
  result lists the connections of the attempts.
\<close>

fun session_attempts ::
  "(go_error \<Rightarrow> bool) \<Rightarrow> (conn \<Rightarrow> bool) \<Rightarrow> string \<Rightarrow> bytes \<Rightarrow> 32 word \<Rightarrow> bool \<Rightarrow> (nat \<Rightarrow> attempt_env) \<Rightarrow> nat \<Rightarrow> nat \<Rightarrow>
   conn framePool \<Rightarrow> (go_error + bytes) \<times> tried list \<times> conn framePool" where
  "session_attempts platform intact key frame limit oneWay env i 0 p = (Inl (Err ErrSessionProtocol), [], p)"
| "session_attempts platform intact key frame limit oneWay env i (Suc left) p =
     (case take_conn intact key (atTaken (env i)) p of
        (taken, gone, p1) \<Rightarrow>
          (let tried = (case taken of None \<Rightarrow> (True, atDial (env i)) | Some c \<Rightarrow> (False, Inr c)) in
           case attempt_on platform key frame limit oneWay (env i) tried p1 of
             (Finished r, p2) \<Rightarrow> (r, [tried], p2)
           | (Again, p2) \<Rightarrow>
               (case session_attempts platform intact key frame limit oneWay env (Suc i) left p2 of
                  (r, log, p3) \<Rightarrow> (r, tried # log, p3))))"

definition client_sessionCall ::
  "(go_error \<Rightarrow> bool) \<Rightarrow> (conn \<Rightarrow> bool) \<Rightarrow> string \<Rightarrow> bytes \<Rightarrow> 32 word \<Rightarrow> bool \<Rightarrow> (nat \<Rightarrow> attempt_env) \<Rightarrow>
   conn framePool \<Rightarrow> (go_error + bytes) \<times> tried list \<times> conn framePool" where
  "client_sessionCall platform intact key frame limit oneWay env p =
     session_attempts platform intact key frame limit oneWay env 0 sessionAttempts p"

subsection \<open>Dialling\<close>

text \<open>
  \<^verbatim>\<open>dialSession\<close> and \<^verbatim>\<open>connect\<close>: \<open>dialled\<close> and \<open>deadline\<close> are the answers of the dialer and of
  \<^verbatim>\<open>SetDeadline\<close>, \<open>auth\<close> the outcome of \<^verbatim>\<open>authenticate\<close>, \<open>stopped\<close> that of detaching the context, which
  fails only once the context is done and has an error.
\<close>

definition dialSession ::
  "path_platform \<Rightarrow> FrameClient \<Rightarrow> (go_error + conn) \<Rightarrow> error \<Rightarrow> error \<Rightarrow> bool \<Rightarrow> error \<Rightarrow> go_error + conn" where
  "dialSession pp c dialled deadline auth stopped cancelled =
     (case (case fcServer c of None \<Rightarrow> None | Some e \<Rightarrow> validate pp e) of
        Some err \<Rightarrow> Inl err
      | None \<Rightarrow>
          (case dialled of
             Inl err \<Rightarrow> Inl err
           | Inr conn \<Rightarrow>
               (case deadline of
                  Some err \<Rightarrow> Inl err
                | None \<Rightarrow>
                    if \<not> stopped \<or> auth \<noteq> None
                    then Inl (case auth of Some err \<Rightarrow> err | None \<Rightarrow> (case cancelled of Some err \<Rightarrow> err | None \<Rightarrow> Err Canceled))
                    else Inr conn)))"

definition client_connect :: "path_platform \<Rightarrow> FrameClient \<Rightarrow> (go_error + conn) \<Rightarrow> error \<Rightarrow> error \<Rightarrow> go_error + conn" where
  "client_connect pp c dialled deadline auth =
     (if fcDialer c \<and> fcServer c \<noteq> None then Inl (Errorf [Err ErrServerUntrusted])
      else (case (case fcServer c of None \<Rightarrow> None | Some e \<Rightarrow> validate pp e) of
              Some err \<Rightarrow> Inl err
            | None \<Rightarrow>
                (case dialled of
                   Inl err \<Rightarrow> Inl err
                 | Inr conn \<Rightarrow>
                     (case deadline of
                        Some err \<Rightarrow> Inl err
                      | None \<Rightarrow> (case auth of Some err \<Rightarrow> Inl err | None \<Rightarrow> Inr conn)))))"

subsection \<open>The calls\<close>

definition wants_session :: "(Time \<Rightarrow> string) \<Rightarrow> FrameClient \<Rightarrow> nat \<Rightarrow> Time \<Rightarrow> conn framePool \<Rightarrow> bool \<times> conn framePool" where
  "wants_session show_time c len now p =
     (if \<not> (fcSessions c \<and> \<not> fcDialer c \<and> len \<le> unat lengthMask) then (False, p)
      else (case isSingle (poolKey show_time c) now p of (single, p') \<Rightarrow> (\<not> single, p')))"

text \<open>
  \<^verbatim>\<open>ExchangeFrameContext\<close> and \<^verbatim>\<open>WriteFrameContext\<close>, which differ in the flag: \<open>message\<close> is the answer
  of \<^verbatim>\<open>messageFrameCall\<close> when it handles the call, \<open>conn\<close> what \<^verbatim>\<open>connect\<close> gives.
\<close>

definition plain_exchange :: "(go_error \<Rightarrow> bool) \<Rightarrow> ctx \<Rightarrow> bytes \<Rightarrow> 32 word \<Rightarrow> bool \<Rightarrow> conn \<Rightarrow> go_error + bytes" where
  "plain_exchange platform cx frame limit oneWay conn =
     (case writeFrame frame limit conn of
        (Some err, c1) \<Rightarrow> Inl (fst (refusalAfterWriteError platform cx err False c1))
      | (None, c1) \<Rightarrow>
          if oneWay then (case fst (waitFrameEOF c1) of Some e \<Rightarrow> Inl e | None \<Rightarrow> Inr [])
          else fst (readFrame limit c1))"

definition frame_result :: "ctx \<Rightarrow> Time \<Rightarrow> (go_error + bytes) \<Rightarrow> go_error + bytes" where
  "frame_result cx now r =
     (case r of
        Inl err \<Rightarrow> (case frameError cx now (Some err) of Some e \<Rightarrow> Inl e | None \<Rightarrow> Inl err)
      | Inr reply \<Rightarrow> (case frameError cx now None of Some e \<Rightarrow> Inl e | None \<Rightarrow> Inr reply))"

definition frame_call ::
  "(go_error \<Rightarrow> bool) \<Rightarrow> (conn \<Rightarrow> bool) \<Rightarrow> (Time \<Rightarrow> string) \<Rightarrow> FrameClient \<Rightarrow> ctx \<Rightarrow> Time \<Rightarrow> (go_error + bytes) option \<Rightarrow>
   (nat \<Rightarrow> attempt_env) \<Rightarrow> (go_error + conn) \<Rightarrow> bool \<Rightarrow> bytes \<Rightarrow> conn framePool \<Rightarrow> (go_error + bytes) \<times> conn framePool" where
  "frame_call platform intact show_time c cx now message env conn oneWay frame p =
     (let limit = frameLimit (fcMaxFrame c);
          key = poolKey show_time c;
          plain = (case conn of
                     Inl err \<Rightarrow> Inl err
                   | Inr pc \<Rightarrow> plain_exchange platform cx frame limit oneWay pc)
      in if unat limit < length frame then (Inl (Err ErrFrameTooLarge), p)
         else (case message of
                 Some r \<Rightarrow> (frame_result cx now r, p)
               | None \<Rightarrow>
                   (case wants_session show_time c (length frame) now p of
                      (False, p1) \<Rightarrow> (frame_result cx now plain, p1)
                    | (True, p1) \<Rightarrow>
                        (case client_sessionCall platform intact key frame limit oneWay env p1 of
                           (Inl err, _, p2) \<Rightarrow>
                             if errors_Is (Some err) (Err ErrNoSession) then (frame_result cx now plain, markSingle key now p2)
                             else (frame_result cx now (Inl err), p2)
                         | (Inr reply, _, p2) \<Rightarrow> (frame_result cx now (Inr reply), p2)))))"

definition ExchangeFrameContext ::
  "(go_error \<Rightarrow> bool) \<Rightarrow> (conn \<Rightarrow> bool) \<Rightarrow> (Time \<Rightarrow> string) \<Rightarrow> FrameClient \<Rightarrow> ctx \<Rightarrow> Time \<Rightarrow> (go_error + bytes) option \<Rightarrow>
   (nat \<Rightarrow> attempt_env) \<Rightarrow> (go_error + conn) \<Rightarrow> bytes \<Rightarrow> conn framePool \<Rightarrow> (go_error + bytes) \<times> conn framePool" where
  "ExchangeFrameContext platform intact show_time c cx now message env conn frame p =
     frame_call platform intact show_time c cx now message env conn False frame p"

definition WriteFrameContext ::
  "(go_error \<Rightarrow> bool) \<Rightarrow> (conn \<Rightarrow> bool) \<Rightarrow> (Time \<Rightarrow> string) \<Rightarrow> FrameClient \<Rightarrow> ctx \<Rightarrow> Time \<Rightarrow> (go_error + bytes) option \<Rightarrow>
   (nat \<Rightarrow> attempt_env) \<Rightarrow> (go_error + conn) \<Rightarrow> bytes \<Rightarrow> conn framePool \<Rightarrow> error \<times> conn framePool" where
  "WriteFrameContext platform intact show_time c cx now message env conn frame p =
     (case frame_call platform intact show_time c cx now message env conn True frame p of
        (Inl err, p') \<Rightarrow> (Some err, p')
      | (Inr _, p') \<Rightarrow> (None, p'))"

subsection \<open>Reading words off the stream\<close>

lemma ReadFull_coming:
  assumes "ReadFull n c = (Inr bs, c')"
  shows "coming (inbox c) = bs @ coming (inbox c') \<and> sent c' = sent c"
proof (cases "n \<le> length (coming (inbox c))")
  case True
  then show ?thesis using ReadFull_enough [of n c] assms by (metis append_take_drop_id prod.inject sum.inject(2))
next
  case False
  then have "fst (ReadFull n c) \<noteq> Inr bs" using ReadFull_short [of c n] by simp
  then show ?thesis using assms by simp
qed

lemma readUint32_coming:
  assumes "readUint32 c = (Inr w, n, c')"
  shows "coming (inbox c) = put_be32 w @ coming (inbox c') \<and> sent c' = sent c"
proof -
  obtain b where b: "ReadFull 4 c = (Inr b, c')" "w = uint32_be b"
    using assms by (auto simp: readUint32_def split: prod.splits sum.splits)
  then have "length b = 4" using ReadFull_length by blast
  then have "put_be32 w = b" using b(2) put_be32_uint32_be by simp
  then show ?thesis using ReadFull_coming [OF b(1)] by simp
qed

lemma readUint32_word:
  assumes "coming (inbox c) = put_be32 w @ rest"
  obtains n c' where "readUint32 c = (Inr w, n, c')" "coming (inbox c') = rest" "sent c' = sent c" "accepts c' = accepts c"
proof -
  obtain c' where r: "ReadFull 4 c = (Inr (put_be32 w), c')" "coming (inbox c') = rest" "sent c' = sent c"
    using readFrame_header [OF assms] by metis
  have "accepts c' = accepts c" using ReadFull_keeps [OF r(1)] by simp
  moreover have "readUint32 c = (Inr w, length (fst (read_loop 4 [] (inbox c))), c')"
    using r(1) by (simp add: readUint32_def split: prod.splits)
  ultimately show ?thesis using that r by blast
qed

lemma writeHeadedCount_inbox: "writeHeadedCount h f c = (n, None, c') \<Longrightarrow> inbox c' = inbox c"
  by (auto simp: writeHeadedCount_def Let_def simp del: write_parts.simps split: if_splits dest: write_parts_ok)

subsection \<open>Repeating a request\<close>

definition starts_with :: "conn \<Rightarrow> bytes \<Rightarrow> bool" where
  "starts_with c w = (\<exists>rest. coming (inbox c) = w @ rest)"

lemma read_answer_again: "fst (read_answer limit oneWay c) = Again \<Longrightarrow> starts_with c (put_be32 sessionClosing)"
  unfolding starts_with_def
  by (auto simp: read_answer_def Let_def split: prod.splits sum.splits if_splits dest: readUint32_coming)

lemma pooled_again:
  "fst (pooled_attempt platform cx frame limit oneWay c) = Again \<Longrightarrow> starts_with c (put_be32 sessionClosing)"
  by (auto simp: pooled_attempt_def starts_with_def split: prod.splits option.splits
      dest!: read_answer_again writeHeadedCount_inbox)

lemma fresh_again:
  assumes "fst (fresh_attempt platform cx frame limit oneWay c) = Again"
  shows "starts_with c (put_be32 sessionClosing) \<or> starts_with c (put_be32 sessionAccept @ put_be32 sessionClosing)"
proof -
  obtain c1 where w: "writeFreshSessionHeader platform cx (session_flags frame oneWay) c = (None, c1)"
    using assms by (auto simp: fresh_attempt_def split: prod.splits option.splits)
  have i: "inbox c1 = inbox c"
    using w conn_write_inbox [of "put_be32 (session_flags frame oneWay)" c]
    by (auto simp: writeFreshSessionHeader_def writeUint32_def split: prod.splits option.splits)
  obtain ack n c2 where r: "readUint32 c1 = (Inr ack, n, c2)"
    using assms w by (auto simp: fresh_attempt_def split: prod.splits sum.splits if_splits)
  have c1: "coming (inbox c1) = put_be32 ack @ coming (inbox c2)" using readUint32_coming [OF r] by simp
  show ?thesis
  proof (cases "ack = sessionClosing")
    case True
    then show ?thesis using c1 i by (auto simp: starts_with_def)
  next
    case False
    then obtain c3 where a: "ack = sessionAccept" "writeAll frame c2 = (None, c3)" "fst (read_answer limit oneWay c3) = Again"
      using assms w r by (auto simp: fresh_attempt_def split: prod.splits option.splits if_splits)
    then have "starts_with c3 (put_be32 sessionClosing)" using read_answer_again by blast
    then show ?thesis using writeAll_inbox [OF a(2)] c1 i a(1) by (auto simp: starts_with_def)
  qed
qed

definition marker_seen :: "tried \<Rightarrow> bool" where
  "marker_seen tried = (case tried of
     (_, Inl _) \<Rightarrow> False
   | (fresh, Inr c) \<Rightarrow> starts_with c (put_be32 sessionClosing) \<or>
       fresh \<and> starts_with c (put_be32 sessionAccept @ put_be32 sessionClosing))"

lemma attempt_on_again:
  "attempt_on platform key frame limit oneWay env tried p = (Again, p') \<Longrightarrow> marker_seen tried"
  using fresh_again [of platform "atCtx env" frame limit oneWay] pooled_again [of platform "atCtx env" frame limit oneWay]
  by (cases tried) (auto simp: attempt_on_def marker_seen_def Let_def split: sum.splits option.splits if_splits prod.splits)

lemma session_attempts_log:
  "session_attempts platform intact key frame limit oneWay env i left p = (r, log, p') \<Longrightarrow>
   length log \<le> left \<and> list_all marker_seen (butlast log)"
proof (induction left arbitrary: i p r log p')
  case (Suc left)
  obtain taken gone p1 where t: "take_conn intact key (atTaken (env i)) p = (taken, gone, p1)"
    by (cases "take_conn intact key (atTaken (env i)) p")
  let ?tried = "case taken of None \<Rightarrow> (True, atDial (env i)) | Some c \<Rightarrow> (False, Inr c)"
  obtain a p2 where o: "attempt_on platform key frame limit oneWay (env i) ?tried p1 = (a, p2)"
    by (cases "attempt_on platform key frame limit oneWay (env i) ?tried p1")
  show ?case
  proof (cases a)
    case (Finished x)
    then have "log = [?tried]" using Suc.prems t o by (simp add: Let_def)
    then show ?thesis by simp
  next
    case Again
    obtain r' log' p3 where s: "session_attempts platform intact key frame limit oneWay env (Suc i) left p2 = (r', log', p3)"
      by (cases "session_attempts platform intact key frame limit oneWay env (Suc i) left p2")
    have "log = ?tried # log'" using Suc.prems t o Again s by (simp add: Let_def)
    moreover have "marker_seen ?tried" using attempt_on_again o Again by blast
    ultimately show ?thesis using Suc.IH [OF s] by simp
  qed
qed simp

text \<open>
  C18: a request is sent again only after the server's closing marker. Whatever the connections of a
  call answer, pooled or fresh, the call ends after at most three attempts, and every attempt but the
  last met, in place of an answer, the closing marker, which on a fresh connection may follow the accept word; a
  failed write, a lost connection or a malformed answer never repeats the request.
\<close>

theorem repeated_only_after_marker:
  assumes "client_sessionCall platform intact key frame limit oneWay env p = (r, log, p')"
  shows "length log \<le> 3 \<and> list_all marker_seen (butlast log)"
  using session_attempts_log assms by (fastforce simp: client_sessionCall_def sessionAttempts_def)

subsection \<open>A complete exchange\<close>

lemma readFrameBody_enough:
  assumes "coming (inbox c) = body @ rest" "length body = unat n" "n \<le> limit"
  obtains c' where "readFrameBody n limit c = (Inr body, c')" "coming (inbox c') = rest" "sent c' = sent c"
proof -
  obtain c' where r: "ReadFull (unat n) c = (Inr (take (unat n) (coming (inbox c))), c')"
      "coming (inbox c') = drop (unat n) (coming (inbox c))" "sent c' = sent c"
    by (rule ReadFull_enough [of "unat n" c]) (simp_all add: assms)
  have "unat n < 2 ^ LENGTH(32)" by (rule unsigned_less)
  then have "readFrameBody n limit c = (Inr body, c')"
    using r(1) assms by (simp add: readFrameBody_def not_less)
  then show ?thesis using that r assms by simp
qed

lemma bit_oneWayFlag: "bit oneWayFlag n \<longleftrightarrow> n = 30"
  unfolding oneWayFlag_def bit_push_bit_iff bit_1_iff by auto

lemma control_bit_30: "bit proofRefusalHeader 30" "bit sessionClosing 30"
  by (simp_all add: wire_defs bit_simps)

lemma accept_word:
  "sessionAccept \<noteq> proofRefusalHeader" "sessionAccept \<noteq> sessionClosing" "sessionAccept \<noteq> sessionDecline"
  "sessionAccept \<noteq> sessionUnsupported"
  by (simp_all add: wire_defs)

lemma header_bits:
  fixes len :: "32 word"
  assumes "len \<le> lengthMask" and "h = (if keep then len OR sessionFlag else len)"
  shows "h AND oneWayFlag = 0" "h AND lengthMask = len" "(h AND sessionFlag \<noteq> 0) = keep" "h \<noteq> sessionClosing" "h \<noteq> proofRefusalHeader"
proof -
  note l = length_bits [OF assms(1)]
  have b30: "\<not> bit h 30" using l assms(2) by (simp add: bit_or_iff bit_sessionFlag)
  then show "h AND oneWayFlag = 0" by (auto intro!: bit_word_eqI simp: bit_and_iff bit_oneWayFlag)
  show "h \<noteq> sessionClosing" "h \<noteq> proofRefusalHeader" using b30 control_bit_30 by auto
  have "sessionFlag AND lengthMask = 0" by (simp add: wire_defs)
  then show "h AND lengthMask = len" using l assms(2) by (simp add: bit.conj_disj_distrib2)
  show "(h AND sessionFlag \<noteq> 0) = keep"
    using flag_set [OF assms(1)] flag_clear [OF assms(1)] unfolding assms(2) by (cases keep) simp_all
qed

lemma session_flags_bits:
  assumes "length frame \<le> unat limit" and "limit \<le> lengthMask"
  shows "session_flags frame oneWay AND lengthMask = of_nat (length frame)"
    "session_flags frame oneWay AND sessionFlag \<noteq> 0" "(session_flags frame oneWay AND oneWayFlag \<noteq> 0) = oneWay"
proof -
  let ?n = "of_nat (length frame) :: 32 word"
  have n: "?n \<le> lengthMask" by (rule of_nat_length_le [OF assms])
  note l = length_bits [OF n]
  have z: "sessionFlag AND lengthMask = 0" "oneWayFlag AND lengthMask = 0" by (simp_all add: wire_defs)
  show "session_flags frame oneWay AND lengthMask = ?n"
    using l z by (simp add: session_flags_def Let_def bit.conj_disj_distrib2)
  have "bit (session_flags frame oneWay AND sessionFlag) 31"
    by (simp add: session_flags_def Let_def bit_and_iff bit_or_iff bit_sessionFlag)
  then show "session_flags frame oneWay AND sessionFlag \<noteq> 0" by auto
  have "bit (session_flags frame oneWay AND oneWayFlag) i \<longleftrightarrow> i = 30 \<and> oneWay" for i
    using l by (auto simp: session_flags_def Let_def bit_and_iff bit_or_iff bit_oneWayFlag bit_sessionFlag)
  then show "(session_flags frame oneWay AND oneWayFlag \<noteq> 0) = oneWay"
    by (metis bit_0_eq bit_word_eqI bot_apply bot_bool_def)
qed

lemma read_answer_complete:
  assumes "coming (inbox c) = put_be32 h @ reply @ rest"
    and "length reply = unat len" and "len \<le> limit" and "len \<le> lengthMask" and "oneWay \<longrightarrow> len = 0"
    and "h = (if keep then len OR sessionFlag else len)"
  obtains c' where "read_answer limit oneWay c = (Finished (Inr reply), keep, False, c')" "coming (inbox c') = rest"
    "sent c' = sent c"
proof -
  note b = header_bits [OF assms(4,6)]
  obtain n c1 where r: "readUint32 c = (Inr h, n, c1)" "coming (inbox c1) = reply @ rest" "sent c1 = sent c"
    using readUint32_word [OF assms(1)] by metis
  show ?thesis
  proof (cases oneWay)
    case True
    then have "reply = []" using assms(2,5) by simp
    then show ?thesis using that [of c1] r b assms(5) True unfolding read_answer_def by (simp add: Let_def)
  next
    case False
    obtain c2 where "readFrameBody len limit c1 = (Inr reply, c2)" "coming (inbox c2) = rest" "sent c2 = sent c1"
      using readFrameBody_enough [OF r(2) assms(2,3)] by metis
    then show ?thesis using that [of c2] r b False unfolding read_answer_def by (simp add: Let_def)
  qed
qed

lemma writeHeadedCount_takes_all:
  assumes "takes_all c"
  obtains n c' where "writeHeadedCount h frame c = (n, None, c')" "sent c' = sent c @ put_be32 h @ frame" "inbox c' = inbox c"
proof -
  obtain w c' where w: "write_parts (if length frame \<le> 65536 then [put_be32 h @ frame] else [put_be32 h, frame]) 0 c = (w, None, c')"
    using write_parts_takes_all [OF assms] by blast
  then have e: "writeHeadedCount h frame c = (w, None, c')"
    by (simp add: writeHeadedCount_def Let_def del: write_parts.simps)
  then have "writeHeaded h frame c = (None, c')" by (simp add: writeHeaded_def)
  then show ?thesis using that e writeHeaded_ok by metis
qed

text \<open>
  C19: a session exchange delivers. Over a transport that takes what is written, an attempt on a
  pooled connection, or on a fresh one whose server answers with the accept word, writes one header
  that announces exactly the frame, a session and the one-way flag, then the frame, each byte once;
  a complete answer within the limit is the result, in whatever chunks it arrives, not a byte of what follows is
  read, and the connection is kept exactly when the answer carries the session flag.
\<close>

theorem session_exchange_delivers:
  assumes "takes_all c" and "length frame \<le> unat limit" and "limit \<le> lengthMask"
    and "length reply = unat len" and "len \<le> limit" and "oneWay \<longrightarrow> len = 0"
    and "coming (inbox c) = (if fresh then put_be32 sessionAccept else []) @
           put_be32 (if keep then len OR sessionFlag else len) @ reply @ rest"
  shows "\<exists>c'. (if fresh then fresh_attempt else pooled_attempt) platform cx frame limit oneWay c =
      (Finished (Inr reply), keep, False, c') \<and>
    sent c' = sent c @ put_be32 (session_flags frame oneWay) @ frame \<and> coming (inbox c') = rest \<and>
    session_flags frame oneWay AND lengthMask = of_nat (length frame) \<and>
    session_flags frame oneWay AND sessionFlag \<noteq> 0 \<and> (session_flags frame oneWay AND oneWayFlag \<noteq> 0) = oneWay"
proof -
  have l: "len \<le> lengthMask" using assms(3,5) by simp
  define h where "h = (if keep then len OR sessionFlag else len)"
  have coming: "coming (inbox c) = (if fresh then put_be32 sessionAccept else []) @ put_be32 h @ reply @ rest"
    using assms(7) by (simp only: h_def)
  have "\<exists>c'. (if fresh then fresh_attempt else pooled_attempt) platform cx frame limit oneWay c =
      (Finished (Inr reply), keep, False, c') \<and>
    sent c' = sent c @ put_be32 (session_flags frame oneWay) @ frame \<and> coming (inbox c') = rest"
  proof (cases fresh)
    case True
    obtain c1 where w: "conn_write (put_be32 (session_flags frame oneWay)) c =
          (int (length (put_be32 (session_flags frame oneWay))), None, c1)" and c1: "takes_all c1"
        "sent c1 = sent c @ put_be32 (session_flags frame oneWay)" "inbox c1 = inbox c"
      using conn_write_takes_all [OF assms(1)] by metis
    have h: "writeFreshSessionHeader platform cx (session_flags frame oneWay) c = (None, c1)"
      using w by (simp add: writeFreshSessionHeader_def writeUint32_def)
    obtain n c2 where r: "readUint32 c1 = (Inr sessionAccept, n, c2)" and c2: "sent c2 = sent c1" "accepts c2 = accepts c1"
        "coming (inbox c2) = put_be32 h @ reply @ rest"
      using c1 coming True by (auto intro: readUint32_word [of c1 sessionAccept "put_be32 h @ reply @ rest"])
    have "takes_all c2" using c1 c2 by (simp add: takes_all_def)
    then obtain c3 where a: "writeAll frame c2 = (None, c3)" "sent c3 = sent c2 @ frame" "inbox c3 = inbox c2"
      using writeAll_takes_all by metis
    obtain c4 where "read_answer limit oneWay c3 = (Finished (Inr reply), keep, False, c4)" "coming (inbox c4) = rest" "sent c4 = sent c3"
      by (rule read_answer_complete [of c3, OF _ assms(4,5) l assms(6) h_def]) (simp add: a(3) c2(3))
    then show ?thesis using True h r a c1 c2 accept_word by (simp add: fresh_attempt_def)
  next
    case False
    obtain n c1 where w: "writeHeadedCount (session_flags frame oneWay) frame c = (n, None, c1)"
        "sent c1 = sent c @ put_be32 (session_flags frame oneWay) @ frame" "inbox c1 = inbox c"
      using writeHeadedCount_takes_all [OF assms(1)] by metis
    obtain c2 where "read_answer limit oneWay c1 = (Finished (Inr reply), keep, False, c2)" "coming (inbox c2) = rest" "sent c2 = sent c1"
      by (rule read_answer_complete [of c1, OF _ assms(4,5) l assms(6) h_def]) (simp add: w(3) coming False)
    then show ?thesis using False w by (simp add: pooled_attempt_def)
  qed
  then show ?thesis using session_flags_bits [OF assms(2,3)] by blast
qed

lemma takes_all_chunked: "takes_all (chunked bs)"
  by (simp add: takes_all_def chunked_def)

theorem session_exchange_delivers_witness:
  "\<exists>c'. pooled_attempt (\<lambda>_. False) \<lparr>ctxErr = None, ctxDeadline = None\<rparr> [7] 16 False (chunked (put_be32 (1 OR sessionFlag) @ [9])) =
     (Finished (Inr [9]), True, False, c')"
proof -
  have "(16 :: 32 word) \<le> lengthMask" "(1 :: 32 word) \<le> 16" by (simp_all add: wire_defs)
  then show ?thesis
    using session_exchange_delivers [where c = "chunked (put_be32 (1 OR sessionFlag) @ [9])" and frame = "[7]" and limit = 16
        and reply = "[9]" and len = 1 and oneWay = False and fresh = False and keep = True and rest = "[]"
        and platform = "\<lambda>_. False" and cx = "\<lparr>ctxErr = None, ctxDeadline = None\<rparr>"]
    by (auto simp: takes_all_chunked)
qed

lemma pooled_meets_marker:
  assumes "takes_all c" and "coming (inbox c) = put_be32 sessionClosing @ rest"
  shows "\<exists>c'. pooled_attempt platform cx frame limit oneWay c = (Again, False, False, c')"
proof -
  obtain n c1 where w: "writeHeadedCount (session_flags frame oneWay) frame c = (n, None, c1)" "inbox c1 = inbox c"
    using writeHeadedCount_takes_all [OF assms(1)] by metis
  obtain m c2 where "readUint32 c1 = (Inr sessionClosing, m, c2)"
    using assms(2) w(2) by (auto intro: readUint32_word [of c1 sessionClosing rest])
  then show ?thesis using w by (simp add: pooled_attempt_def read_answer_def)
qed

lemma pooled_meets_answer:
  assumes "takes_all c" and "coming (inbox c) = put_be32 (len OR sessionFlag) @ reply"
    and "length reply = unat len" and "len \<le> limit" and "len \<le> lengthMask"
  shows "fst (pooled_attempt platform cx frame limit False c) = Finished (Inr reply)"
proof -
  obtain n c1 where w: "writeHeadedCount (session_flags frame False) frame c = (n, None, c1)" "inbox c1 = inbox c"
    using writeHeadedCount_takes_all [OF assms(1)] by metis
  obtain c2 where "read_answer limit False c1 = (Finished (Inr reply), True, False, c2)"
    by (rule read_answer_complete [of c1 "len OR sessionFlag" reply "[]" len limit False True]) (simp_all add: assms w(2))
  then show ?thesis using w by (simp add: pooled_attempt_def)
qed

text \<open>A call whose first pooled connection is retired by the server and whose second one answers.\<close>

definition retry_pool :: "conn framePool" where
  "retry_pool = \<lparr>fpIdle = (\<lambda>_. [(chunked (put_be32 (1 OR sessionFlag) @ [9]), 0), (chunked (put_be32 sessionClosing), 0)]),
     fpSingle = (\<lambda>_. None)\<rparr>"

definition retry_env :: "nat \<Rightarrow> attempt_env" where
  "retry_env i = \<lparr>atDial = Inl (Err EOF), atUse = None, atStop = True, atCtx = \<lparr>ctxErr = None, ctxDeadline = None\<rparr>,
     atTaken = 0, atDone = 0\<rparr>"

lemma retry_pool_call:
  "\<exists>p. client_sessionCall (\<lambda>_. False) (\<lambda>_. True) ''e'' [7] 16 False retry_env retry_pool =
     (Inr [9], [(False, Inr (chunked (put_be32 sessionClosing))), (False, Inr (chunked (put_be32 (1 OR sessionFlag) @ [9])))], p)"
proof -
  let ?m = "chunked (put_be32 sessionClosing)" and ?a = "chunked (put_be32 (1 OR sessionFlag) @ [9])"
  have "(1 :: 32 word) \<le> lengthMask" by (simp add: wire_defs)
  then have a: "fst (pooled_attempt platform cx frame 16 False ?a) = Finished (Inr [9])" for platform cx frame
    by (intro pooled_meets_answer) (simp_all add: takes_all_chunked)
  have m: "\<exists>c. pooled_attempt platform cx frame limit oneWay ?m = (Again, False, False, c)" for platform cx frame limit oneWay
    by (rule pooled_meets_marker [of _ "[]"]) (simp_all add: takes_all_chunked)
  let ?p1 = "retry_pool\<lparr>fpIdle := (fpIdle retry_pool)(''e'' := [(?a, 0)])\<rparr>"
  let ?p2 = "?p1\<lparr>fpIdle := (fpIdle ?p1)(''e'' := [])\<rparr>"
  have t: "take_conn (\<lambda>_. True) ''e'' 0 retry_pool = (Some ?m, [], ?p1)" "take_conn (\<lambda>_. True) ''e'' 0 ?p1 = (Some ?a, [], ?p2)"
    by (subst take_conn.simps, simp add: take_last_def retry_pool_def poolIdle_def Second_def)+
  have 1: "attempt_on (\<lambda>_. False) ''e'' [7] 16 False (retry_env 0) (False, Inr ?m) ?p1 = (Again, ?p1)"
    using m [of "\<lambda>_. False" "atCtx (retry_env 0)" "[7]" 16 False]
    by (auto simp: attempt_on_def finish_def retry_env_def)
  obtain p3 where 2: "attempt_on (\<lambda>_. False) ''e'' [7] 16 False (retry_env 1) (False, Inr ?a) ?p2 = (Finished (Inr [9]), p3)"
    using a [of "\<lambda>_. False" "atCtx (retry_env 1)" "[7]"]
    by (cases "pooled_attempt (\<lambda>_. False) (atCtx (retry_env 1)) [7] 16 False ?a") (auto simp: attempt_on_def retry_env_def Let_def)
  have e: "atTaken (retry_env i) = 0" for i by (simp add: retry_env_def)
  show ?thesis
    using 1 2 t by (simp add: client_sessionCall_def sessionAttempts_def numeral_3_eq_3 e Let_def)
qed

theorem repeated_only_after_marker_witness:
  "\<exists>log p. client_sessionCall (\<lambda>_. False) (\<lambda>_. True) ''e'' [7] 16 False retry_env retry_pool = (Inr [9], log, p) \<and>
     length log = 2 \<and> marker_seen (hd log)"
proof -
  obtain p where e: "client_sessionCall (\<lambda>_. False) (\<lambda>_. True) ''e'' [7] 16 False retry_env retry_pool =
     (Inr [9], [(False, Inr (chunked (put_be32 sessionClosing))), (False, Inr (chunked (put_be32 (1 OR sessionFlag) @ [9])))], p)"
    using retry_pool_call by blast
  show ?thesis using e repeated_only_after_marker [OF e] by simp
qed

end
