(* ===== verification/Framed_Call.thy ===== *)
theory Framed_Call
  imports Session Go_Strings "HOL-Library.Sublist"
begin

section \<open>Receiving one framed call (listen/framed.go FramedCall, listen/listen.go Seen)\<close>

text \<open>
  A service gets a request only through \<^verbatim>\<open>ReceiveFramed\<close>, which binds the caller and checks what the
  service needs of it before the body is read, and answers with at most one frame. A stream is the
  connection the call sees; a message transport hands over one complete request. What changes
  underneath a call (the context, the clock, the world a binding is rechecked in) is read at the
  points where the source asks.
\<close>

record Seen =
  seBound :: bool
  seWhy :: string
  seUser :: string
  sePath :: string
  seCode :: string
  seNotes :: string

definition SeenBy :: "('w, 's) Binding \<Rightarrow> Seen" where
  "SeenBy b =
     (let p = Captured b in
      \<lparr>seBound = True, seWhy = [], seUser = Attr_String User_String (pUser p), sePath = Attr_String id (pPath p),
       seCode = Attr_String Code_String (pCode p), seNotes = Join (pNotes p) ''; ''\<rparr>)"

record ('w, 's) FramedCall =
  fkFrame :: bytes
  fkCaller :: "Seen option"
  fkConn :: conn
  fkBinding :: "(('w, 's) Binding \<times> 's) option"
  fkMessage :: bool
  fkLimit :: "32 word"
  fkClosed :: bool
  fkReply :: "error option"
  fkWatching :: bool

text \<open>
  \<^verbatim>\<open>Close\<close> releases the binding, once.
\<close>

definition framed_Close :: "'w \<Rightarrow> ('w, 's) FramedCall \<Rightarrow> ('w, 's) FramedCall" where
  "framed_Close w k =
     (if fkClosed k then k
      else k\<lparr>fkClosed := True,
             fkBinding := (case fkBinding k of None \<Rightarrow> None | Some (b, s) \<Rightarrow> Some (b, snd (Binding_Close b w s)))\<rparr>)"

subsection \<open>ReceiveFramed\<close>

text \<open>
  One request of a message transport: \<open>msgReplies\<close> and \<open>msgLives\<close> say whether it brought the reply
  function and the channel of its lifetime, \<open>msgDone\<close> whether the sender has already gone.
\<close>

record ('w, 's) receivedMessage =
  msgFrame :: bytes
  msgBinding :: "(('w, 's) Binding \<times> 's) option"
  msgReplies :: bool
  msgLives :: bool
  msgDone :: bool

datatype receive_point = Started | Deadlined | Headed | Answered | Sized | Locked | Checked | Bodied | Validated | Admitted

text \<open>
  \<open>rvAt\<close> is the context and the clock at each point, \<open>rvWorld\<close> the world the binding is checked in;
  \<open>rvDeadline\<close> is the answer of \<^verbatim>\<open>SetDeadline\<close> where the connection has it, \<open>rvClosed\<close> whether the
  context closed the call before it was locked, \<open>rvBind\<close> the answer of \<^verbatim>\<open>Bind\<close>, \<open>rvValid\<close> that of
  \<^verbatim>\<open>requestValid\<close> where the connection has it, \<open>rvMessage\<close> that of \<^verbatim>\<open>receiveMessage\<close>.
\<close>

record ('w, 's) receive_env =
  rvAt :: "receive_point \<Rightarrow> ctx \<times> Time"
  rvWorld :: 'w
  rvDeadline :: "error option"
  rvClosed :: bool
  rvBind :: "go_error + ('w, 's) Binding \<times> 's"
  rvValid :: error
  rvMessage :: "(('w, 's) receivedMessage \<times> error) option"

text \<open>
  \<open>fail\<close>: the error the call ends with; an unmet need is told to the caller, whose connection is then
  closed. The refusal of a session's exchange goes past the exchange to the same connection, that of
  a message transport to the transport, here recorded as sent.
\<close>

definition framed_fail ::
  "('w, 's) receive_env \<Rightarrow> receive_point \<Rightarrow> bool \<Rightarrow> go_error \<Rightarrow> ('w, 's) FramedCall \<Rightarrow> error \<times> ('w, 's) FramedCall" where
  "framed_fail env at canRefuse err k =
     (let (cx, now) = rvAt env at;
          result = (case frameError cx now (Some err) of Some e \<Rightarrow> e | None \<Rightarrow> err);
          k = (if canRefuse \<and> ctxErr cx = None \<and> errors_is result (Err ErrNotProven)
               then k\<lparr>fkConn := snd (sendProofRefusal result (fkConn k))\<rparr> else k)
      in (Some result, framed_Close (rvWorld env) k))"

text \<open>The header of a stream: a session request to a connection served once is told so.\<close>

definition served_once :: "32 word \<Rightarrow> conn \<Rightarrow> error \<times> 32 word \<times> conn" where
  "served_once n c =
     (if n AND sessionFlag \<noteq> 0 \<and> n \<noteq> sessionClosing
      then (case writeUint32 sessionUnsupported c of
              (Some err, c') \<Rightarrow> (Some err, n, c')
            | (None, c') \<Rightarrow> (None, n AND lengthMask, c'))
      else (None, n, c))"

text \<open>The caller is bound and checked before its body is read.\<close>

definition receive_bound ::
  "('w, 's) receive_env \<Rightarrow> Need \<Rightarrow> 32 word \<Rightarrow> ('w, 's) FramedCall \<Rightarrow> error \<times> ('w, 's) FramedCall" where
  "receive_bound env need n k =
     (case rvBind env of
        Inl err \<Rightarrow> framed_fail env Checked True err k
      | Inr (b, s) \<Rightarrow>
          (let k = k\<lparr>fkBinding := Some (b, s)\<rparr> in
           case Binding_Check b (rvWorld env) s need of
             Some err \<Rightarrow> framed_fail env Checked True err k
           | None \<Rightarrow>
               (let k = k\<lparr>fkCaller := Some (SeenBy b)\<rparr> in
                case readFrameBody n (fkLimit k) (fkConn k) of
                  (Inl err, c) \<Rightarrow> framed_fail env Bodied True err (k\<lparr>fkConn := c\<rparr>)
                | (Inr frame, c) \<Rightarrow>
                    (let k = k\<lparr>fkConn := c\<rparr> in
                     case rvValid env of
                       Some err \<Rightarrow> framed_fail env Validated True err k
                     | None \<Rightarrow>
                         (case ctxErr (fst (rvAt env Admitted)) of
                            Some err \<Rightarrow> framed_fail env Admitted True err k
                          | None \<Rightarrow> (None, k\<lparr>fkFrame := frame\<rparr>))))))"

definition receive_stream ::
  "('w, 's) receive_env \<Rightarrow> Need \<Rightarrow> ('w, 's) FramedCall \<Rightarrow> error \<times> ('w, 's) FramedCall" where
  "receive_stream env need k =
     (case rvDeadline env of
        None \<Rightarrow> framed_fail env Started False (Err ErrFrameDeadline) k
      | Some (Some err) \<Rightarrow> framed_fail env Deadlined False err k
      | Some None \<Rightarrow>
          (case ReadFull 4 (fkConn k) of
             (Inl err, c) \<Rightarrow> framed_fail env Headed False err (k\<lparr>fkConn := c\<rparr>)
           | (Inr h, c) \<Rightarrow>
               (case served_once (uint32_be h) c of
                  (Some err, n, c') \<Rightarrow> framed_fail env Answered True err (k\<lparr>fkConn := c'\<rparr>)
                | (None, n, c') \<Rightarrow>
                    (let k = k\<lparr>fkConn := c'\<rparr> in
                     if fkLimit k < n then framed_fail env Sized True (Err ErrFrameTooLarge) k
                     else if rvClosed env then framed_fail env Locked True (Err Canceled) k
                     else receive_bound env need n k))))"

text \<open>A binding that came with a message and is not kept is closed.\<close>

definition drop_message :: "'w \<Rightarrow> ('w, 's) receivedMessage \<Rightarrow> ('w, 's) receivedMessage" where
  "drop_message w m =
     m\<lparr>msgBinding := (case msgBinding m of None \<Rightarrow> None | Some (b, s) \<Rightarrow> Some (b, snd (Binding_Close b w s)))\<rparr>"

definition receive_message ::
  "('w, 's) receive_env \<Rightarrow> Need \<Rightarrow> ('w, 's) receivedMessage \<Rightarrow> error \<Rightarrow> ('w, 's) FramedCall \<Rightarrow>
   error \<times> ('w, 's) FramedCall \<times> ('w, 's) receivedMessage" where
  "receive_message env need m err k =
     (let refused = (\<lambda>at e. case framed_fail env at True e k of (r, k') \<Rightarrow> (r, k', drop_message (rvWorld env) m)) in
      case err of
        Some e \<Rightarrow> refused Headed e
      | None \<Rightarrow>
          if unat (fkLimit k) < length (msgFrame m) then refused Sized (Err ErrFrameTooLarge)
          else (case msgBinding m of
                  None \<Rightarrow> refused Sized (Err ErrNoBinding)
                | Some (b, s) \<Rightarrow>
                    if \<not> msgReplies m \<or> \<not> msgLives m then refused Sized (Err ErrMessageLifetime)
                    else (case Binding_Check b (rvWorld env) s need of
                            Some e \<Rightarrow> refused Checked e
                          | None \<Rightarrow>
                              if rvClosed env then refused Locked (Err Canceled)
                              else (let k = k\<lparr>fkBinding := Some (b, s), fkMessage := True, fkCaller := Some (SeenBy b),
                                              fkFrame := msgFrame m\<rparr>
                                    in if msgDone m
                                       then (case framed_fail env Admitted True (Err ErrClosedPipe) k of (r, k') \<Rightarrow> (r, k', m))
                                       else (None, k, m)))))"

definition ReceiveFramed ::
  "('w, 's) receive_env \<Rightarrow> Need \<Rightarrow> 32 word \<Rightarrow> conn \<Rightarrow> error \<times> ('w, 's) FramedCall" where
  "ReceiveFramed env need maxFrame c =
     (let k = \<lparr>fkFrame = [], fkCaller = None, fkConn = c, fkBinding = None, fkMessage = False, fkLimit = frameLimit maxFrame,
               fkClosed = False, fkReply = None, fkWatching = False\<rparr>
      in case ctxErr (fst (rvAt env Started)) of
           Some err \<Rightarrow> framed_fail env Started False err k
         | None \<Rightarrow>
             (case rvMessage env of
                Some (m, err) \<Rightarrow> (case receive_message env need m err k of (r, k', m') \<Rightarrow> (r, k'))
              | None \<Rightarrow> receive_stream env need k))"

subsection \<open>Peer, WaitContext and Reply\<close>

definition framed_Peer :: "error \<Rightarrow> 'w \<Rightarrow> ('w, 's) FramedCall \<Rightarrow> go_error + Peer" where
  "framed_Peer cx w k =
     (if fkClosed k then Inl (Err ErrClosed)
      else (case cx of Some err \<Rightarrow> Inl err
            | None \<Rightarrow> (case fkBinding k of None \<Rightarrow> Inl (Err ErrNoBinding) | Some (b, s) \<Rightarrow> Binding_Peer b w s)))"

definition framed_Recheck :: "error \<Rightarrow> 'w \<Rightarrow> ('w, 's) FramedCall \<Rightarrow> error" where
  "framed_Recheck cx w k = (case framed_Peer cx w k of Inl err \<Rightarrow> Some err | Inr _ \<Rightarrow> None)"

definition WaitContext :: "('w, 's) FramedCall \<Rightarrow> ('w, 's) FramedCall" where
  "WaitContext k = (if fkReply k = None then k\<lparr>fkWatching := True\<rparr> else k)"

text \<open>
  What a reply meets: the context, clock and world, the answers of the two calls of \<^verbatim>\<open>SetDeadline\<close>
  that interrupt a waiting reader, and that of the message transport's reply function.
\<close>

record 'w reply_env =
  rpCtx :: ctx
  rpNow :: Time
  rpWorld :: 'w
  rpInterrupt :: error
  rpRestore :: error
  rpMessage :: error

text \<open>The watching reader reads on until the deadline of the interrupt, a fault of its stream, ends it.\<close>

definition finishWatching :: "'w reply_env \<Rightarrow> ('w, 's) FramedCall \<Rightarrow> error \<times> ('w, 's) FramedCall" where
  "finishWatching env k =
     (if fkMessage k then (ctxErr (rpCtx env), k)
      else if \<not> fkWatching k then (None, k)
      else (case waitFrameEOF (fkConn k) of
              (watchErr, c) \<Rightarrow>
                (let k = k\<lparr>fkConn := c\<rparr> in
                 case rpInterrupt env of
                   Some err \<Rightarrow> (Some err, framed_Close (rpWorld env) k)
                 | None \<Rightarrow>
                     (case rpRestore env of
                        Some err \<Rightarrow> (Some err, k)
                      | None \<Rightarrow>
                          (if IsTimeout watchErr then ctxErr (rpCtx env)
                           else if watchErr = None then Some (Err ErrClosedPipe)
                           else watchErr, k)))))"

definition send_reply :: "'w reply_env \<Rightarrow> bytes \<Rightarrow> ('w, 's) FramedCall \<Rightarrow> error \<times> ('w, 's) FramedCall" where
  "send_reply env frame k =
     (if unat (fkLimit k) < length frame then (Some (Err ErrFrameTooLarge), k)
      else if fkMessage k then (rpMessage env, k)
      else (case writeFrame frame (fkLimit k) (fkConn k) of
              (Some err, c) \<Rightarrow> (Some err, k\<lparr>fkConn := c\<rparr>)
            | (None, c) \<Rightarrow> (case waitFrameEOF c of (err, c') \<Rightarrow> (err, k\<lparr>fkConn := c'\<rparr>))))"

definition framed_Reply :: "'w reply_env \<Rightarrow> bytes \<Rightarrow> ('w, 's) FramedCall \<Rightarrow> error \<times> ('w, 's) FramedCall" where
  "framed_Reply env frame k =
     (case fkReply k of
        Some r \<Rightarrow> (r, k)
      | None \<Rightarrow>
          (let (r, k') =
             (case finishWatching env k of
                (Some err, k1) \<Rightarrow> (frameError (rpCtx env) (rpNow env) (Some err), k1)
              | (None, k1) \<Rightarrow>
                  (case framed_Recheck (ctxErr (rpCtx env)) (rpWorld env) k1 of
                     Some err \<Rightarrow> (Some err, k1)
                   | None \<Rightarrow> (case send_reply env frame k1 of (e, k2) \<Rightarrow> (frameError (rpCtx env) (rpNow env) e, k2))))
           in (r, k'\<lparr>fkReply := Some r\<rparr>)))"

subsection \<open>Admission\<close>

lemma framed_fail_error [simp]: "fst (framed_fail env at canRefuse err k) \<noteq> None"
  by (simp add: framed_fail_def Let_def split: prod.splits)

lemma framed_fail_closed:
  "fkClosed (snd (framed_fail env at canRefuse err k)) \<and> fkFrame (snd (framed_fail env at canRefuse err k)) = fkFrame k"
  by (auto simp: framed_fail_def framed_Close_def Let_def split: prod.splits)

lemma framed_fail_not_ok [simp]: "framed_fail env at canRefuse err k = (None, k') \<longleftrightarrow> False"
  using framed_fail_error [of env at canRefuse err k] by (auto simp del: framed_fail_error)

lemma served_once_inbox: "served_once n c = (e, m, c') \<Longrightarrow> inbox c' = inbox c"
  by (auto simp: served_once_def split: if_splits prod.splits option.splits dest: writeUint32_frame)

lemma served_once_length:
  "served_once n c = (None, m, c') \<Longrightarrow> m = (if n AND sessionFlag \<noteq> 0 \<and> n \<noteq> sessionClosing then n AND lengthMask else n)"
  by (auto simp: served_once_def split: if_splits prod.splits option.splits)

text \<open>What an admitted call promises the service about its caller.\<close>

definition admitted :: "'w \<Rightarrow> Need \<Rightarrow> 32 word \<Rightarrow> ('w, 's) FramedCall \<Rightarrow> bool" where
  "admitted w need limit k =
     (\<not> fkClosed k \<and> fkLimit k = limit \<and> length (fkFrame k) \<le> unat limit \<and> fkReply k = None \<and>
      (\<exists>b s. fkBinding k = Some (b, s) \<and> Binding_Check b w s need = None \<and> fkCaller k = Some (SeenBy b)))"

lemma receive_message_admitted:
  assumes "receive_message env need m err k = (None, k', m')" and "\<not> fkClosed k" and "fkReply k = None"
  shows "admitted (rvWorld env) need (fkLimit k) k'"
  using assms
  by (auto simp: receive_message_def admitted_def Let_def split: option.splits if_splits prod.splits)

lemma receive_bound_admitted:
  assumes "receive_bound env need n k = (None, k')" and "\<not> fkClosed k" and "fkReply k = None" and "n \<le> fkLimit k"
  shows "admitted (rvWorld env) need (fkLimit k) k'" and "length (fkFrame k') = unat n"
    and "payload (inbox (fkConn k)) = fkFrame k' @ payload (inbox (fkConn k'))"
proof -
  obtain b s frame c where r: "rvBind env = Inr (b, s)" "Binding_Check b (rvWorld env) s need = None"
      "readFrameBody n (fkLimit k) (fkConn k) = (Inr frame, c)"
      "k' = k\<lparr>fkBinding := Some (b, s), fkCaller := Some (SeenBy b), fkConn := c, fkFrame := frame\<rparr>"
    using assms(1) by (auto simp: receive_bound_def Let_def split: sum.splits option.splits prod.splits)
  have f: "ReadFull (unat n) (fkConn k) = (Inr frame, c)" using r(3) by (simp add: readFrameBody_def split: if_splits)
  note l = ReadFull_length [OF f] and p = ReadFull_payload [OF f]
  show "admitted (rvWorld env) need (fkLimit k) k'" using r assms(2-4) l by (auto simp: admitted_def word_le_nat_alt)
  show "length (fkFrame k') = unat n" "payload (inbox (fkConn k)) = fkFrame k' @ payload (inbox (fkConn k'))"
    using r l p by simp_all
qed

lemma receive_stream_header:
  assumes "receive_stream env need k = (None, k')"
  obtains h c c' n where "ReadFull 4 (fkConn k) = (Inr h, c)" "served_once (uint32_be h) c = (None, n, c')"
    "n \<le> fkLimit k" "receive_bound env need n (k\<lparr>fkConn := c'\<rparr>) = (None, k')"
  using assms by (auto simp: receive_stream_def Let_def split: option.splits sum.splits prod.splits if_splits)

text \<open>
  C16: no frame without its caller. When \<^verbatim>\<open>ReceiveFramed\<close> hands a call to the service, the frame is
  within the limit, the call holds a binding that has just been rechecked and that meets everything
  the service needs, and the caller it reports is that binding's; on a stream the frame is exactly
  the body the header announced, and not a byte after it was taken.
\<close>

theorem framed_admission:
  assumes "ReceiveFramed env need maxFrame c = (None, k)"
  shows "admitted (rvWorld env) need (frameLimit maxFrame) k \<and>
    (rvMessage env = None \<longrightarrow> (\<exists>h. payload (inbox c) = put_be32 h @ fkFrame k @ payload (inbox (fkConn k)) \<and>
       length (fkFrame k) = unat (if h AND sessionFlag \<noteq> 0 \<and> h \<noteq> sessionClosing then h AND lengthMask else h)))"
proof -
  let ?k = "\<lparr>fkFrame = [], fkCaller = None, fkConn = c, fkBinding = None, fkMessage = False, fkLimit = frameLimit maxFrame,
     fkClosed = False, fkReply = None, fkWatching = False\<rparr>"
  show ?thesis
  proof (cases "rvMessage env")
    case None
    then have "receive_stream env need ?k = (None, k)"
      using assms by (auto simp: ReceiveFramed_def Let_def split: option.splits)
    then obtain h c1 c2 n where r: "ReadFull 4 c = (Inr h, c1)" "served_once (uint32_be h) c1 = (None, n, c2)"
        "n \<le> frameLimit maxFrame" "receive_bound env need n (?k\<lparr>fkConn := c2\<rparr>) = (None, k)"
      by (rule receive_stream_header) simp
    have h: "put_be32 (uint32_be h) = h" using put_be32_uint32_be ReadFull_length [OF r(1)] by simp
    note b = receive_bound_admitted [OF r(4)]
    show ?thesis
      using b ReadFull_payload [OF r(1)] served_once_inbox [OF r(2)] served_once_length [OF r(2)] r(3) h None
      by (auto intro!: exI [of _ "uint32_be h"])
  next
    case (Some me)
    then obtain m err m' where "receive_message env need m err ?k = (None, k, m')"
      using assms by (auto simp: ReceiveFramed_def Let_def split: option.splits prod.splits)
    from receive_message_admitted [OF this] Some show ?thesis by simp
  qed
qed

subsection \<open>Refusal\<close>

lemma ReadFull_taken:
  assumes "ReadFull n c = (r, c')"
  shows "\<exists>got. payload (inbox c) = got @ payload (inbox c') \<and> length got \<le> n"
proof -
  obtain bs err ib where l: "read_loop n [] (inbox c) = (bs, err, ib)" by (cases "read_loop n [] (inbox c)")
  have c': "inbox c' = ib" using assms l by (auto simp: ReadFull_def)
  have "length bs \<le> n" using read_loop_spec [OF l] by (auto split: option.splits)
  then show ?thesis using read_loop_payload [OF l] c' by auto
qed

lemma framed_fail_inbox: "inbox (fkConn (snd (framed_fail env at canRefuse err k))) = inbox (fkConn k)"
proof -
  have "inbox (snd (sendProofRefusal e c)) = inbox c" for e c
    by (cases "writeAll (proofRefusalBytes e) c") (simp add: sendProofRefusal_def writeAll_inbox)
  then show ?thesis by (simp add: framed_fail_def framed_Close_def Let_def split: prod.splits)
qed

text \<open>The binding of a call that is not exposed.\<close>

definition released :: "'w \<Rightarrow> ('w, 's) Binding \<Rightarrow> 's \<Rightarrow> ('w, 's) FramedCall \<Rightarrow> bool" where
  "released w b s k = (fkBinding k = None \<or> fkBinding k = Some (b, snd (Binding_Close b w s)))"

lemma framed_fail_released:
  assumes "\<not> fkClosed k" and "fkBinding k = None \<or> fkBinding k = Some (b, s)"
  shows "released (rvWorld env) b s (snd (framed_fail env at canRefuse err k))"
  using assms by (auto simp: released_def framed_fail_def framed_Close_def Let_def split: prod.splits)

definition refused_call :: "'w \<Rightarrow> ('w, 's) Binding \<Rightarrow> 's \<Rightarrow> conn \<Rightarrow> error \<times> ('w, 's) FramedCall \<Rightarrow> bool" where
  "refused_call w b s c r =
     (fst r \<noteq> None \<and> fkClosed (snd r) \<and> fkFrame (snd r) = [] \<and> released w b s (snd r) \<and>
      (\<exists>got. payload (inbox c) = got @ payload (inbox (fkConn (snd r))) \<and> length got \<le> 4))"

lemma framed_fail_refused:
  assumes "\<not> fkClosed k" and "fkBinding k = None \<or> fkBinding k = Some (b, s)" and "fkFrame k = []"
    and "\<exists>got. payload (inbox c) = got @ payload (inbox (fkConn k)) \<and> length got \<le> 4"
  shows "refused_call (rvWorld env) b s c (framed_fail env at canRefuse err k)"
  using assms framed_fail_closed [of env at canRefuse err k]
  by (simp add: refused_call_def framed_fail_inbox framed_fail_released)


text \<open>
  A refused caller is told what was missing, and no more. Over a stream that takes what is
  written, with the context alive, a caller whose complete header is within the limit and whose binding
  fails a proof the service needs receives the single word of a connection served once, if it asked
  for a session, and then the six bytes of the refusal, and nothing else.
\<close>

theorem refused_caller_told:
  assumes "takes_all c" and "coming (inbox c) = put_be32 h @ rest"
    and "rvMessage env = None" and "rvDeadline env = Some None" and "\<not> rvClosed env"
    and "\<forall>at. ctxErr (fst (rvAt env at)) = None"
    and "(if h AND sessionFlag \<noteq> 0 \<and> h \<noteq> sessionClosing then h AND lengthMask else h) \<le> frameLimit maxFrame"
    and "rvBind env = Inr (b, s)" and "Binding_Check b (rvWorld env) s need = Some err" and "errors_is err (Err ErrNotProven)"
    and "\<not> IsTimeout (Some err)"
  shows "fst (ReceiveFramed env need maxFrame c) = Some err \<and>
    sent (fkConn (snd (ReceiveFramed env need maxFrame c))) =
      sent c @ (if h AND sessionFlag \<noteq> 0 \<and> h \<noteq> sessionClosing then put_be32 sessionUnsupported else []) @ proofRefusalBytes err"
proof -
  let ?s = "h AND sessionFlag \<noteq> 0 \<and> h \<noteq> sessionClosing"
  define n where "n = (if ?s then h AND lengthMask else h)"
  have n: "\<not> frameLimit maxFrame < n" using assms(7) by (simp only: n_def not_less)
  let ?k = "\<lparr>fkFrame = [], fkCaller = None, fkConn = c, fkBinding = None, fkMessage = False, fkLimit = frameLimit maxFrame,
     fkClosed = False, fkReply = None, fkWatching = False\<rparr>"
  obtain c1 where r: "ReadFull 4 c = (Inr (put_be32 h), c1)" "sent c1 = sent c"
    using readFrame_header [OF assms(2)] by metis
  have t1: "takes_all c1" using ReadFull_keeps [OF r(1)] assms(1) by (simp add: takes_all_def)
  obtain c2 where w: "conn_write (put_be32 sessionUnsupported) c1 = (int (length (put_be32 sessionUnsupported)), None, c2)"
      "takes_all c2" "sent c2 = sent c1 @ put_be32 sessionUnsupported"
    using conn_write_takes_all [OF t1] by metis
  obtain c3 where o: "served_once h c1 = (None, n, c3)" and t3: "takes_all c3"
      and s3: "sent c3 = sent c @ (if ?s then put_be32 sessionUnsupported else [])"
  proof (cases ?s)
    case True
    then show ?thesis using that [of c2] w r(2) by (simp add: n_def served_once_def writeUint32_def)
  next
    case False
    then have "served_once h c1 = (None, n, c1)" by (auto simp: n_def served_once_def)
    then show ?thesis using that [of c1] t1 r(2) by (simp only: if_not_P [OF False] append_Nil2)
  qed
  obtain c4 where p: "writeAll (proofRefusalBytes err) c3 = (None, c4)" "sent c4 = sent c3 @ proofRefusalBytes err"
    using writeAll_takes_all [OF t3] by metis
  obtain cx now where cx: "rvAt env Checked = (cx, now)" "ctxErr cx = None"
    using assms(6) [rule_format, of Checked] by (cases "rvAt env Checked") auto
  have fe: "frameError cx now (Some err) = Some err" using cx assms(11) by (simp add: frameError_def)
  have "receive_bound env need n (?k\<lparr>fkConn := c3\<rparr>) = framed_fail env Checked True err (?k\<lparr>fkConn := c3, fkBinding := Some (b, s)\<rparr>)"
    using assms(8,9) by (simp add: receive_bound_def)
  then have "receive_stream env need ?k = framed_fail env Checked True err (?k\<lparr>fkConn := c3, fkBinding := Some (b, s)\<rparr>)"
    using assms(4,5) n r(1) o by (simp add: receive_stream_def Let_def)
  then have "ReceiveFramed env need maxFrame c = framed_fail env Checked True err (?k\<lparr>fkConn := c3, fkBinding := Some (b, s)\<rparr>)"
    using assms(3,6) by (simp add: ReceiveFramed_def Let_def)
  then show ?thesis
    using cx fe assms(10) p s3 by (simp add: framed_fail_def framed_Close_def sendProofRefusal_def)
qed

subsection \<open>Reply\<close>

lemma conn_write_sent: "conn_write p c = (n, err, c') \<Longrightarrow> \<exists>q. prefix q p \<and> sent c' = sent c @ q"
  by (metis conn_write_prefix take_is_prefix)

lemma conn_write_exact:
  "conn_write p c = (n, None, c') \<Longrightarrow> 0 \<le> n \<Longrightarrow> n \<le> int (length p) \<Longrightarrow> sent c' = sent c @ take (nat n) p"
  by (auto simp: conn_write_def split: list.splits taken.splits)

lemma write_part_prefix: "write_part part written c = (w, e, c') \<Longrightarrow> \<exists>q. prefix q part \<and> sent c' = sent c @ q"
proof (induction part written c arbitrary: w e c' rule: write_part.induct)
  case (1 part written c)
  obtain n err c1 where cw: "conn_write part c = (n, err, c1)" by (cases "conn_write part c")
  show ?case
  proof (cases "part \<noteq> [] \<and> 0 < n \<and> n \<le> int (length part) \<and> err = None")
    case True
    then have "write_part (drop (nat n) part) (written + nat n) c1 = (w, e, c')"
      using 1(2) cw by (subst (asm) write_part.simps) simp
    then obtain q where "prefix q (drop (nat n) part)" "sent c' = sent c1 @ q"
      using 1(1) [OF _ cw [symmetric] refl] True by fastforce
    moreover have "sent c1 = sent c @ take (nat n) part" using conn_write_exact cw True by simp
    moreover have "prefix (take (nat n) part @ q) part" if "prefix q (drop (nat n) part)" for q
      using that by (metis append_take_drop_id same_prefix_prefix)
    ultimately show ?thesis by (metis append.assoc)
  next
    case False
    then have "c' = c \<or> c' = c1" using 1(2) cw by (subst (asm) write_part.simps) (auto split: if_splits)
    then show ?thesis using conn_write_sent [OF cw] by (metis Nil_prefix append_Nil2)
  qed
qed

lemma write_parts_prefix: "write_parts parts written c = (w, e, c') \<Longrightarrow> \<exists>q. prefix q (concat parts) \<and> sent c' = sent c @ q"
proof (induction parts arbitrary: written c)
  case (Cons part parts)
  obtain w1 e1 c1 where p: "write_part part written c = (w1, e1, c1)" by (cases "write_part part written c")
  show ?case
  proof (cases e1)
    case None
    then have "write_parts parts w1 c1 = (w, e, c')" using Cons.prems p by simp
    then obtain q where "prefix q (concat parts)" "sent c' = sent c1 @ q" using Cons.IH by blast
    moreover have "sent c1 = sent c @ part" using write_part_ok p None by blast
    ultimately show ?thesis by (intro exI [of _ "part @ q"]) simp
  next
    case (Some err)
    then show ?thesis using write_part_prefix [OF p] Cons.prems p by (auto intro: prefix_prefix)
  qed
qed simp

lemma writeFrame_prefix:
  "writeFrame frame limit c = (e, c') \<Longrightarrow> \<exists>q. prefix q (put_be32 (of_nat (length frame)) @ frame) \<and> sent c' = sent c @ q"
  by (auto simp: writeFrame_def writeHeaded_def writeHeadedCount_def Let_def simp del: write_parts.simps
      split: if_splits prod.splits dest!: write_parts_prefix)

lemma waitFrameEOF_sent: "waitFrameEOF c = (e, c') \<Longrightarrow> sent c' = sent c"
  by (auto simp: waitFrameEOF_def conn_read_def ReadFull_def readProofRefusal_def Let_def split: prod.splits if_splits sum.splits)

text \<open>What a service does with a call it was given, in any order.\<close>

datatype 'w framed_op =
    DoPeer error 'w
  | DoWait
  | DoReply "'w reply_env" bytes
  | DoClose 'w

fun framed_step :: "'w framed_op \<Rightarrow> ('w, 's) FramedCall \<Rightarrow> ('w, 's) FramedCall" where
  "framed_step (DoPeer cx w) k = k"
| "framed_step DoWait k = WaitContext k"
| "framed_step (DoReply env frame) k = snd (framed_Reply env frame k)"
| "framed_step (DoClose w) k = framed_Close w k"

definition framed_run :: "'w framed_op list \<Rightarrow> ('w, 's) FramedCall \<Rightarrow> ('w, 's) FramedCall" where
  "framed_run ops k = fold framed_step ops k"

text \<open>A reply that was allowed: its call open, its caller rechecked, its frame within the limit, the first of the call.\<close>

definition may_reply :: "'w reply_env \<Rightarrow> bytes \<Rightarrow> ('w, 's) FramedCall \<Rightarrow> bool" where
  "may_reply env frame k =
     (fkReply k = None \<and> \<not> fkClosed k \<and> ctxErr (rpCtx env) = None \<and> length frame \<le> unat (fkLimit k) \<and>
      (\<exists>b s p. fkBinding k = Some (b, s) \<and> Binding_Peer b (rpWorld env) s = Inr p))"

lemma finishWatching_None:
  assumes "finishWatching env k = (None, k')"
  shows "fkClosed k' = fkClosed k \<and> fkBinding k' = fkBinding k \<and> fkLimit k' = fkLimit k \<and> sent (fkConn k') = sent (fkConn k)"
  using assms by (auto simp: finishWatching_def Let_def split: if_splits prod.splits option.splits dest: waitFrameEOF_sent)

lemma finishWatching_sent: "finishWatching env k = (e, k') \<Longrightarrow> sent (fkConn k') = sent (fkConn k)"
  by (auto simp: finishWatching_def framed_Close_def Let_def split: if_splits prod.splits option.splits dest!: waitFrameEOF_sent)

lemma send_reply_sent:
  assumes "send_reply env frame k = (e, k')"
  shows "sent (fkConn k') = sent (fkConn k) \<or> length frame \<le> unat (fkLimit k) \<and>
    (\<exists>q. prefix q (put_be32 (of_nat (length frame)) @ frame) \<and> sent (fkConn k') = sent (fkConn k) @ q)"
  using assms
  by (auto simp: send_reply_def split: if_splits prod.splits option.splits dest!: writeFrame_prefix waitFrameEOF_sent)

lemma framed_Reply_sent:
  "sent (fkConn (snd (framed_Reply env frame k))) = sent (fkConn k) \<or> may_reply env frame k \<and>
    (\<exists>q. prefix q (put_be32 (of_nat (length frame)) @ frame) \<and> sent (fkConn (snd (framed_Reply env frame k))) = sent (fkConn k) @ q)"
proof (cases "fkReply k")
  case None
  obtain e k1 where f: "finishWatching env k = (e, k1)" by (cases "finishWatching env k")
  note s1 = finishWatching_sent [OF f]
  show ?thesis
  proof (cases "e = None \<and> framed_Recheck (ctxErr (rpCtx env)) (rpWorld env) k1 = None")
    case True
    then have k1: "fkClosed k1 = fkClosed k" "fkBinding k1 = fkBinding k" "fkLimit k1 = fkLimit k"
      using finishWatching_None f by blast+
    obtain r k2 where p: "send_reply env frame k1 = (r, k2)" by (cases "send_reply env frame k1")
    have "fkConn (snd (framed_Reply env frame k)) = fkConn k2"
      using None f True p by (simp add: framed_Reply_def)
    moreover have "may_reply env frame k" if "length frame \<le> unat (fkLimit k)"
      using True k1 that None
      by (auto simp: may_reply_def framed_Recheck_def framed_Peer_def split: if_splits option.splits sum.splits)
    ultimately show ?thesis using send_reply_sent [OF p] s1 k1 by auto
  next
    case False
    then have "fkConn (snd (framed_Reply env frame k)) = fkConn k1"
      using None f by (auto simp: framed_Reply_def split: option.splits)
    then show ?thesis using s1 by simp
  qed
qed (simp add: framed_Reply_def)

lemma framed_Reply_done: "fkReply (snd (framed_Reply env frame k)) \<noteq> None"
  by (auto simp: framed_Reply_def Let_def split: option.splits prod.splits)

lemma framed_run_replied: "fkReply k \<noteq> None \<Longrightarrow> sent (fkConn (framed_run ops k)) = sent (fkConn k)"
proof (induction ops arbitrary: k)
  case (Cons x ops)
  have "fkReply (framed_step x k) \<noteq> None \<and> sent (fkConn (framed_step x k)) = sent (fkConn k)"
    using Cons.prems by (cases x) (auto simp: WaitContext_def framed_Close_def framed_Reply_def)
  then show ?case using Cons.IH [of "framed_step x k"] by (simp add: framed_run_def)
qed (simp add: framed_run_def)

lemma framed_step_quiet: "(\<nexists>env frame. x = DoReply env frame) \<Longrightarrow> sent (fkConn (framed_step x k)) = sent (fkConn k)"
  by (cases x) (auto simp: WaitContext_def framed_Close_def)

text \<open>
  One reply, to a caller that is still itself. Whatever a service does with a call, asking, waiting,
  replying again and again, closing, in any order, the bytes that leave are those of at most one
  frame, in part or whole: that of the call's first reply, within the limit, made while the call was open and its
  context alive, right after the binding was rechecked.
\<close>

theorem framed_reply_once:
  shows "sent (fkConn (framed_run ops k)) = sent (fkConn k) \<or>
    (\<exists>before env frame later q. ops = before @ DoReply env frame # later \<and> may_reply env frame (framed_run before k) \<and>
       prefix q (put_be32 (of_nat (length frame)) @ frame) \<and> sent (fkConn (framed_run ops k)) = sent (fkConn k) @ q)"
proof (induction ops arbitrary: k)
  case (Cons x ops)
  let ?k = "framed_step x k"
  have run: "framed_run (x # ops) k = framed_run ops ?k" by (simp add: framed_run_def)
  show ?case
  proof (cases "\<exists>env frame. x = DoReply env frame")
    case True
    then obtain env frame where x: "x = DoReply env frame" by blast
    have "sent (fkConn (framed_run ops ?k)) = sent (fkConn ?k)"
      by (rule framed_run_replied) (simp add: x framed_Reply_done del: not_None_eq)
    then show ?thesis
      using framed_Reply_sent [of env frame k] x run
      by (auto simp: framed_run_def intro!: exI [of _ "[]"])
  next
    case False
    from Cons.IH [of ?k] framed_step_quiet [OF False, of k] run show ?thesis
    proof (elim disjE exE conjE, goal_cases)
      case (2 before env frame later q)
      then show ?case
        by (intro disjI2 exI [of _ "x # before"] exI [of _ env] exI [of _ frame] exI [of _ later] exI [of _ q])
          (simp add: framed_run_def)
    qed simp
  qed
qed (simp add: framed_run_def)

subsection \<open>Witnesses\<close>

text \<open>A caller whose user is known and nothing else.\<close>

definition known_binding :: "(unit, bool) Binding" where
  "known_binding = \<lparr>bPeer = silent_peer\<lparr>pUser := attr ''user'' zero_User ProofKernel []\<rparr>, bBoundAt = 0, bInner = steady\<rparr>"

definition demo_receive :: "(unit, bool) receive_env" where
  "demo_receive = \<lparr>rvAt = (\<lambda>_. (\<lparr>ctxErr = None, ctxDeadline = None\<rparr>, 0)), rvWorld = (), rvDeadline = Some None,
     rvClosed = False, rvBind = Inr (known_binding, False), rvValid = None, rvMessage = None\<rparr>"

lemma demo_receive_simps [simp]:
  "rvMessage demo_receive = None" "rvBind demo_receive = Inr (known_binding, False)" "rvDeadline demo_receive = Some None"
  "rvClosed demo_receive = False" "rvAt demo_receive at = (\<lparr>ctxErr = None, ctxDeadline = None\<rparr>, 0)" "rvValid demo_receive = None"
  by (simp_all add: demo_receive_def)

lemma known_binding_user: "Binding_Check known_binding w s (zero_Need\<lparr>nUser := ProofKernel\<rparr>) = None"
  by (simp add: Binding_Check_def Binding_Peer_def known_binding_def steady_def Check_def zero_Need_def unmet_def
      errors_join_def AtLeast_def silent_peer_def rung_defs)

lemma known_binding_path:
  "\<exists>e. Binding_Check known_binding w s (zero_Need\<lparr>nPath := ProofBound\<rparr>) = Some (Joined [ProofErr e])"
  by (simp add: Binding_Check_def Binding_Peer_def known_binding_def steady_def Check_def zero_Need_def unmet_def
      errors_join_def AtLeast_def silent_peer_def rung_defs)


lemma demo_call:
  "\<exists>k. ReceiveFramed demo_receive (zero_Need\<lparr>nUser := ProofKernel\<rparr>) 16 (chunked (put_be32 1 @ [7])) = (None, k) \<and> fkFrame k = [7]"
proof -
  obtain c1 where r: "ReadFull 4 (chunked (put_be32 1 @ [7])) = (Inr (put_be32 1), c1)" "coming (inbox c1) = [7]"
    by (rule readFrame_header [of "chunked (put_be32 1 @ [7])" 1 "[7]"]) simp_all
  obtain c2 where b: "ReadFull 1 c1 = (Inr [7], c2)"
    by (rule ReadFull_enough [of 1 c1]) (simp_all add: r(2))
  have f: "frameLimit 16 = 16" by (simp add: frameLimit_def wire_defs)
  have "readFrameBody 1 16 c1 = (Inr [7], c2)" using b by (simp add: readFrameBody_def)
  moreover have "served_once 1 c1 = (None, 1, c1)" by (simp add: served_once_def wire_defs)
  ultimately show ?thesis
    using r(1) f known_binding_user by (simp add: ReceiveFramed_def receive_stream_def receive_bound_def Let_def)
qed

theorem framed_admission_witness:
  "\<exists>k. ReceiveFramed demo_receive (zero_Need\<lparr>nUser := ProofKernel\<rparr>) 16 (chunked (put_be32 1 @ [7])) = (None, k) \<and>
     fkFrame k = [7] \<and> admitted () (zero_Need\<lparr>nUser := ProofKernel\<rparr>) (frameLimit 16) k"
proof -
  obtain k where k: "ReceiveFramed demo_receive (zero_Need\<lparr>nUser := ProofKernel\<rparr>) 16 (chunked (put_be32 1 @ [7])) = (None, k)" "fkFrame k = [7]"
    using demo_call by blast
  show ?thesis using k framed_admission [OF k(1)] by auto
qed


theorem refused_caller_told_witness:
  "\<exists>e. sent (fkConn (snd (ReceiveFramed demo_receive (zero_Need\<lparr>nPath := ProofBound\<rparr>) 16 (chunked (put_be32 1 @ [7]))))) =
     proofRefusalBytes (Joined [ProofErr e])"
proof -
  obtain e where e: "Binding_Check known_binding (rvWorld demo_receive) False (zero_Need\<lparr>nPath := ProofBound\<rparr>) = Some (Joined [ProofErr e])"
    using known_binding_path by blast
  have "takes_all (chunked (put_be32 1 @ [7]))" "sent (chunked bs) = []" for bs by (simp_all add: takes_all_def chunked_def)
  moreover have "(1 :: 32 word) AND sessionFlag = 0" "(1 :: 32 word) \<le> frameLimit 16"
    by (simp_all add: wire_defs frameLimit_def)
  ultimately show ?thesis
    using refused_caller_told [where c = "chunked (put_be32 1 @ [7])" and h = 1 and rest = "[7]" and maxFrame = 16, OF _ _ _ _ _ _ _ _ e]
    by (intro exI [of _ e]) (simp add: IsTimeout_def)
qed

end
