(* ===== verification/Json_Text.thy ===== *)
theory Json_Text
  imports Prelude
begin

section \<open>The text of records: escapes, UTF-8 and the string reader (go/abstraction/identity/api/rec.go)\<close>

text \<open>
  A Go string is a list of bytes, each a \<^typ>\<open>char\<close>. The writers of the source append to a buffer;
  here they answer what they append. A reader is its unread bytes, the offset of the first of them,
  and the depth of containers it is in; a refusal carries its word and that offset.
\<close>

unbundle bit_operations_syntax

abbreviation QUOTE :: char where "QUOTE \<equiv> CHR 0x22"
abbreviation BSLASH :: char where "BSLASH \<equiv> CHR 0x5C"

definition ord :: "char \<Rightarrow> nat" where "ord c = of_char c"

subsection \<open>Writing strings\<close>

definition hex_digit :: "nat \<Rightarrow> char" where "hex_digit n = ''0123456789abcdef'' ! n"

definition escByte :: "char \<Rightarrow> string" where
  "escByte c =
     (if c = QUOTE then [BSLASH, QUOTE]
      else if c = BSLASH then [BSLASH, BSLASH]
      else if c = CHR 0x08 then [BSLASH, CHR ''b'']
      else if c = CHR 0x0C then [BSLASH, CHR ''f'']
      else if c = CHR 0x0A then [BSLASH, CHR ''n'']
      else if c = CHR 0x0D then [BSLASH, CHR ''r'']
      else if c = CHR 0x09 then [BSLASH, CHR ''t'']
      else if ord c < 0x20
      then [BSLASH, CHR ''u'', CHR ''0'', CHR ''0'', hex_digit (drop_bit 4 (ord c)), hex_digit (ord c AND 0xF)]
      else [c])"

definition esc :: "string \<Rightarrow> string" where
  "esc s = [QUOTE] @ concat (map escByte s) @ [QUOTE]"

subsection \<open>UTF-8\<close>

definition appendRune :: "nat \<Rightarrow> string" where
  "appendRune cp =
     (if cp < 0x80 then [char_of cp]
      else if cp < 0x800 then [char_of (0xC0 OR drop_bit 6 cp), char_of (0x80 OR (cp AND 0x3F))]
      else if cp < 0x10000
      then [char_of (0xE0 OR drop_bit 12 cp), char_of (0x80 OR (drop_bit 6 cp AND 0x3F)), char_of (0x80 OR (cp AND 0x3F))]
      else [char_of (0xF0 OR drop_bit 18 cp), char_of (0x80 OR (drop_bit 12 cp AND 0x3F)),
            char_of (0x80 OR (drop_bit 6 cp AND 0x3F)), char_of (0x80 OR (cp AND 0x3F))])"

text \<open>The first byte of a longer sequence: how many bytes it has, and its part of the code point.\<close>

definition lead_byte :: "nat \<Rightarrow> (nat \<times> nat) option" where
  "lead_byte c =
     (if drop_bit 5 c = 0x6 then Some (2, c AND 0x1F)
      else if drop_bit 4 c = 0xE then Some (3, c AND 0x0F)
      else if drop_bit 3 c = 0x1E then Some (4, c AND 0x07)
      else None)"

fun later_bytes :: "string \<Rightarrow> nat \<Rightarrow> nat option" where
  "later_bytes [] cp = Some cp"
| "later_bytes (b # bs) cp =
     (if drop_bit 6 (ord b) \<noteq> 0x2 then None else later_bytes bs (push_bit 6 cp OR (ord b AND 0x3F)))"

definition lowest :: "nat \<Rightarrow> nat" where "lowest n = [0, 0, 0x80, 0x800, 0x10000] ! n"

definition surrogate :: "nat \<Rightarrow> bool" where "surrogate cp = (0xD800 \<le> cp \<and> cp \<le> 0xDFFF)"

function validUTF8 :: "string \<Rightarrow> bool" where
  "validUTF8 [] = True"
| "validUTF8 (c # b) =
     (if ord c < 0x80 then validUTF8 b
      else (case lead_byte (ord c) of
              None \<Rightarrow> False
            | Some (n, cp0) \<Rightarrow>
                if length (c # b) < n then False
                else (case later_bytes (take (n - 1) b) cp0 of
                        None \<Rightarrow> False
                      | Some cp \<Rightarrow>
                          if cp < lowest n \<or> 0x10FFFF < cp \<or> surrogate cp then False
                          else validUTF8 (drop (n - 1) b))))"
  by pat_completeness auto
termination by (relation "measure length") auto

declare validUTF8.simps(2) [simp del]

subsection \<open>The reader\<close>

record reader =
  rdRest :: string
  rdPos :: nat
  rdDepth :: nat

datatype refusal = Refusal string nat

type_synonym 'a reading = "refusal + 'a \<times> reader"

definition refuse :: "string \<Rightarrow> reader \<Rightarrow> refusal" where "refuse word r = Refusal word (rdPos r)"

definition at :: "reader \<Rightarrow> char" where
  "at r = (case rdRest r of [] \<Rightarrow> CHR 0x00 | c # _ \<Rightarrow> c)"

text \<open>\<^verbatim>\<open>r.pos += n\<close>.\<close>

definition advance :: "nat \<Rightarrow> reader \<Rightarrow> reader" where
  "advance n r = r\<lparr>rdRest := drop n (rdRest r), rdPos := rdPos r + n\<rparr>"

definition is_ws :: "char \<Rightarrow> bool" where
  "is_ws c = (c = CHR 0x20 \<or> c = CHR 0x09 \<or> c = CHR 0x0A \<or> c = CHR 0x0D)"

definition ws :: "reader \<Rightarrow> reader" where
  "ws r = advance (length (takeWhile is_ws (rdRest r))) r"

definition hex_value :: "char \<Rightarrow> nat option" where
  "hex_value c =
     (if 48 \<le> ord c \<and> ord c \<le> 57 then Some (ord c - 48)
      else if 97 \<le> ord c \<and> ord c \<le> 102 then Some (ord c - 97 + 10)
      else if 65 \<le> ord c \<and> ord c \<le> 70 then Some (ord c - 65 + 10)
      else None)"

fun hex_run :: "string \<Rightarrow> nat \<Rightarrow> nat option" where
  "hex_run [] u = Some u"
| "hex_run (c # cs) u = (case hex_value c of None \<Rightarrow> None | Some d \<Rightarrow> hex_run cs (push_bit 4 u OR d))"

definition hex4 :: "reader \<Rightarrow> nat reading" where
  "hex4 r =
     (if length (rdRest r) < 4 then Inl (refuse ''bad_string'' r)
      else (case hex_run (take 4 (rdRest r)) 0 of
              None \<Rightarrow> Inl (refuse ''bad_string'' r)
            | Some u \<Rightarrow> Inr (u, advance 4 r)))"

text \<open>The second half of a surrogate pair.\<close>

definition low_half :: "nat \<Rightarrow> reader \<Rightarrow> string reading" where
  "low_half u r =
     (if take 2 (rdRest r) \<noteq> [BSLASH, CHR ''u''] then Inl (refuse ''bad_string'' r)
      else (case hex4 (advance 2 r) of
              Inl e \<Rightarrow> Inl e
            | Inr (lo, r') \<Rightarrow>
                if lo < 0xDC00 \<or> 0xDFFF < lo then Inl (refuse ''bad_string'' r')
                else Inr (appendRune (0x10000 + push_bit 10 (u - 0xD800) + (lo - 0xDC00)), r')))"

definition escape :: "reader \<Rightarrow> string reading" where
  "escape r0 =
     (let r = advance 1 r0 in
      case rdRest r of
        [] \<Rightarrow> Inl (refuse ''malformed'' r)
      | c # _ \<Rightarrow>
          (let r = advance 1 r in
           if c = QUOTE \<or> c = BSLASH \<or> c = CHR ''/'' then Inr ([c], r)
           else if c = CHR ''b'' then Inr ([CHR 0x08], r)
           else if c = CHR ''f'' then Inr ([CHR 0x0C], r)
           else if c = CHR ''n'' then Inr ([CHR 0x0A], r)
           else if c = CHR ''r'' then Inr ([CHR 0x0D], r)
           else if c = CHR ''t'' then Inr ([CHR 0x09], r)
           else if c = CHR ''u'' then
             (case hex4 r of
                Inl e \<Rightarrow> Inl e
              | Inr (u, r') \<Rightarrow>
                  if 0xDC00 \<le> u \<and> u \<le> 0xDFFF then Inl (refuse ''bad_string'' r')
                  else if 0xD800 \<le> u \<and> u \<le> 0xDBFF then low_half u r'
                  else Inr (appendRune u, r'))
           else Inl (refuse ''bad_string'' r)))"

lemma rest_advance [simp]: "rdRest (advance n r) = drop n (rdRest r)"
  by (simp add: advance_def)

lemma advance_advance [simp]: "advance m (advance n r) = advance (n + m) r"
  by (simp add: advance_def add.commute)

lemma advance_0 [simp]: "advance 0 r = r"
  by (simp add: advance_def)

lemma hex4_advances: "hex4 r = Inr (u, r') \<Longrightarrow> r' = advance 4 r"
  by (auto simp: hex4_def split: if_splits option.splits)

lemma escape_advances:
  "escape r = Inr (s, r') \<Longrightarrow> r' = advance 2 r \<or> r' = advance 6 r \<or> r' = advance 12 r"
  by (auto simp: escape_def low_half_def Let_def numeral_2_eq_2 split: list.splits if_splits sum.splits dest!: hex4_advances)

lemma escape_shorter: "escape r = Inr (s, r') \<Longrightarrow> rdRest r \<noteq> [] \<Longrightarrow> length (rdRest r') < length (rdRest r)"
  by (auto dest!: escape_advances)

function str_loop :: "string \<Rightarrow> reader \<Rightarrow> string reading" where
  "str_loop out r =
     (case rdRest r of
        [] \<Rightarrow> Inl (refuse ''malformed'' r)
      | c # _ \<Rightarrow>
          if c = QUOTE then
            (let r = advance 1 r in
             if \<not> validUTF8 out then Inl (refuse ''bad_string'' r) else Inr (out, r))
          else if ord c < 0x20 then Inl (refuse ''bad_string'' r)
          else if c = BSLASH then (case escape r of Inl e \<Rightarrow> Inl e | Inr (s, r') \<Rightarrow> str_loop (out @ s) r')
          else str_loop (out @ [c]) (advance 1 r))"
  by pat_completeness auto
termination
  by (relation "measure (\<lambda>(out, r). length (rdRest r))") (auto dest: escape_shorter)

declare str_loop.simps [simp del]

definition str :: "reader \<Rightarrow> string reading" where
  "str r = (if at r \<noteq> QUOTE then Inl (refuse ''wrong_type'' r) else str_loop [] (advance 1 r))"


subsection \<open>Writing and reading a string\<close>

lemma str_loop_step:
  "rdRest r = c # cs \<Longrightarrow> c \<noteq> QUOTE \<Longrightarrow> c \<noteq> BSLASH \<Longrightarrow> \<not> ord c < 0x20 \<Longrightarrow> str_loop out r = str_loop (out @ [c]) (advance 1 r)"
  by (simp add: str_loop.simps [of out r])

lemma str_loop_escape:
  "rdRest r = BSLASH # cs \<Longrightarrow> escape r = Inr (s, r') \<Longrightarrow> str_loop out r = str_loop (out @ s) r'"
  by (simp add: str_loop.simps [of out r] ord_def)

lemma hex_value_digit: "n < 16 \<Longrightarrow> hex_value (hex_digit n) = Some n"
proof -
  have "\<forall>n \<in> {..<16}. hex_value (hex_digit n) = Some n" by code_simp
  then show "n < 16 \<Longrightarrow> hex_value (hex_digit n) = Some n" by simp
qed

lemma ord_less: "ord c < 256"
  by (simp add: ord_def)

lemma char_of_ord [simp]: "char_of (ord c) = c"
  by (simp add: ord_def)

lemma ord_char_of [simp]: "n < 256 \<Longrightarrow> ord (char_of n) = n"
  by (simp add: ord_def)

lemma nibble_mod: "(n :: nat) AND 0xF = n mod 16"
proof -
  have "n AND 0xF = take_bit 4 n" by (simp add: take_bit_eq_mask mask_eq_exp_minus_1)
  then show ?thesis by (simp add: take_bit_eq_mod)
qed

lemma nibbles: "push_bit 4 (drop_bit 4 n) OR (n AND 0xF) = (n :: nat)"
proof -
  have "n AND 0xF = take_bit 4 n" by (simp add: take_bit_eq_mask mask_eq_exp_minus_1)
  then show ?thesis by (auto intro!: bit_eqI simp: bit_or_iff bit_push_bit_iff bit_drop_bit_eq bit_take_bit_iff)
qed

lemma str_loop_escByte:
  assumes "rdRest r = escByte c @ cs"
  shows "str_loop out r = str_loop (out @ [c]) (advance (length (escByte c)) r)"
proof (cases "ord c < 0x20 \<or> c = QUOTE \<or> c = BSLASH")
  case False
  then have "escByte c = [c]" by (auto simp: escByte_def ord_def)
  then show ?thesis using assms False str_loop_step [of r c cs out] by simp
next
  case True
  have "\<exists>s. escByte c = BSLASH # s" using True by (auto simp: escByte_def)
  then obtain s where s: "escByte c = BSLASH # s" by blast
  have "escape r = Inr ([c], advance (length (escByte c)) r)"
  proof (cases "escByte c = [BSLASH, CHR ''u'', CHR ''0'', CHR ''0'', hex_digit (drop_bit 4 (ord c)), hex_digit (ord c AND 0xF)]")
    case hex: True
    have l: "drop_bit 4 (ord c) < 16" "ord c AND 0xF < 16"
      using ord_less [of c] by (simp_all add: drop_bit_eq_div less_mult_imp_div_less nibble_mod)
    have z: "hex_value (CHR ''0'') = Some 0" by code_simp
    have "hex_run [CHR ''0'', CHR ''0'', hex_digit (drop_bit 4 (ord c)), hex_digit (ord c AND 0xF)] 0 = Some (ord c)"
      using nibbles [of "ord c"] by (simp add: z hex_value_digit l)
    then have "hex4 (advance 2 r) = Inr (ord c, advance 6 r)" using assms hex by (simp add: hex4_def)
    moreover have "ord c < 0x20" using hex by (auto simp: escByte_def split: if_splits)
    moreover have "length (escByte c) = 6" using hex by simp
    moreover have "escape r = (case hex4 (advance 2 r) of
        Inl e \<Rightarrow> Inl e
      | Inr (u, r') \<Rightarrow>
          if 0xDC00 \<le> u \<and> u \<le> 0xDFFF then Inl (refuse ''bad_string'' r')
          else if 0xD800 \<le> u \<and> u \<le> 0xDBFF then low_half u r'
          else Inr (appendRune u, r'))"
      using assms hex by (simp add: escape_def Let_def numeral_2_eq_2)
    ultimately show ?thesis by (simp add: appendRune_def)
  next
    case False
    then show ?thesis using assms True by (auto simp: escape_def escByte_def split: if_splits)
  qed
  then show ?thesis using str_loop_escape [of r "s @ cs" "[c]"] assms s by simp
qed


lemma str_loop_esc:
  "rdRest r = concat (map escByte s) @ QUOTE # cs \<Longrightarrow>
   str_loop out r = (if validUTF8 (out @ s) then Inr (out @ s, advance (length (concat (map escByte s)) + 1) r)
     else Inl (Refusal ''bad_string'' (rdPos r + length (concat (map escByte s)) + 1)))"
proof (induction s arbitrary: out r)
  case Nil
  then show ?case by (simp add: str_loop.simps [of out r] refuse_def advance_def Let_def)
next
  case (Cons c s)
  have "str_loop out r = str_loop (out @ [c]) (advance (length (escByte c)) r)"
    using Cons.prems by (intro str_loop_escByte) simp
  then show ?case using Cons.IH [of "advance (length (escByte c)) r" "out @ [c]"] Cons.prems
    by (simp add: add.assoc) (simp add: advance_def)
qed

lemma str_esc:
  assumes "rdRest r = esc s @ cs"
  shows "str r = (if validUTF8 s then Inr (s, advance (length (esc s)) r) else Inl (Refusal ''bad_string'' (rdPos r + length (esc s))))"
  using assms str_loop_esc [of "advance 1 r" s cs "[]"] by (simp add: str_def at_def esc_def) (simp add: advance_def)

subsection \<open>UTF-8, exactly\<close>

lemma or_disjoint: "(b :: nat) < 2 ^ k \<Longrightarrow> push_bit k a OR b = a * 2 ^ k + b"
proof -
  assume "b < 2 ^ k"
  then have b: "take_bit k b = b" by (simp add: take_bit_nat_eq_self)
  have "push_bit k a + b = push_bit k a OR b"
    by (rule disjunctive_add) (metis b bit_push_bit_iff bit_take_bit_iff leD)
  then show ?thesis by (simp add: push_bit_eq_mult)
qed

lemma and_mod: "(n :: nat) AND 0x3F = n mod 64" "n AND 0x1F = n mod 32" "n AND 0x0F = n mod 16" "n AND 0x07 = n mod 8"
proof -
  have m: "n AND mask k = n mod 2 ^ k" for k by (simp flip: take_bit_eq_mask take_bit_eq_mod)
  show "n AND 0x3F = n mod 64" "n AND 0x1F = n mod 32" "n AND 0x0F = n mod 16" "n AND 0x07 = n mod 8"
    using m [of 6] m [of 5] m [of 4] m [of 3] by (simp_all add: mask_eq_exp_minus_1)
qed

lemma or_bytes:
  "n < 32 \<Longrightarrow> (0xC0 :: nat) OR n = 0xC0 + n" "n < 16 \<Longrightarrow> (0xE0 :: nat) OR n = 0xE0 + n"
  "n < 8 \<Longrightarrow> (0xF0 :: nat) OR n = 0xF0 + n" "n < 64 \<Longrightarrow> (0x80 :: nat) OR n = 0x80 + n"
  using or_disjoint [of n 5 6] or_disjoint [of n 4 14] or_disjoint [of n 3 30] or_disjoint [of n 6 2]
  by (simp_all add: push_bit_eq_mult)

lemma or_shift: "push_bit 6 cp OR (b mod 64) = cp * 64 + b mod (64 :: nat)"
  using or_disjoint [of "b mod 64" 6 cp] by simp

lemmas utf8_arith = and_mod drop_bit_eq_div or_shift

definition scalar :: "nat \<Rightarrow> bool" where "scalar cp = (cp \<le> 0x10FFFF \<and> \<not> surrogate cp)"

lemma base_div: "x < k \<Longrightarrow> (a * k + x) div k = (a :: nat)" "x < k \<Longrightarrow> (a * k + x) mod k = (x :: nat)"
  by simp_all

lemma base_sum: "c div k = a \<Longrightarrow> c = a * k + c mod (k :: nat)"
  by auto

lemma lead_byte_sums:
  "x < 32 \<Longrightarrow> lead_byte (0xC0 + x) = Some (2, x)" "x < 16 \<Longrightarrow> lead_byte (0xE0 + x) = Some (3, x)"
  "x < 8 \<Longrightarrow> lead_byte (0xF0 + x) = Some (4, x)"
proof -
  assume "x < 32"
  then have "(0xC0 + x) div 32 = 6" "(0xC0 + x) mod 32 = x" using base_div [of x 32 6] by simp_all
  then show "lead_byte (0xC0 + x) = Some (2, x)" unfolding lead_byte_def utf8_arith by simp
next
  assume "x < 16"
  then have "(0xE0 + x) div 32 = 7" "(0xE0 + x) div 16 = 14" "(0xE0 + x) mod 16 = x"
    using base_div [of x 32 7] base_div [of x 16 14] by simp_all
  then show "lead_byte (0xE0 + x) = Some (3, x)" unfolding lead_byte_def utf8_arith by simp
next
  assume "x < 8"
  then have "(0xF0 + x) div 32 = 7" "(0xF0 + x) div 16 = 15" "(0xF0 + x) div 8 = 30" "(0xF0 + x) mod 8 = x"
    using base_div [of "16 + x" 32 7] base_div [of x 16 15] base_div [of x 8 30] by simp_all
  then show "lead_byte (0xF0 + x) = Some (4, x)" unfolding lead_byte_def utf8_arith by simp
qed

lemma lead_byte_cases:
  assumes "lead_byte c = Some (n, x)"
  shows "n = 2 \<and> x < 32 \<and> c = 0xC0 + x \<or> n = 3 \<and> x < 16 \<and> c = 0xE0 + x \<or> n = 4 \<and> x < 8 \<and> c = 0xF0 + x"
proof -
  have "c div 32 = 6 \<Longrightarrow> c = 0xC0 + c mod 32" "c div 16 = 14 \<Longrightarrow> c = 0xE0 + c mod 16" "c div 8 = 30 \<Longrightarrow> c = 0xF0 + c mod 8"
    using base_sum [of c 32 6] base_sum [of c 16 14] base_sum [of c 8 30] by simp_all
  then show ?thesis using assms unfolding lead_byte_def utf8_arith by (auto simp only: option.inject prod.inject split: if_splits) simp_all
qed

lemma later_byte: "y < 64 \<Longrightarrow> later_bytes (char_of (0x80 + y) # bs) cp = later_bytes bs (cp * 64 + y)"
  using base_div [of y 64 2] or_disjoint [of y 6 cp] by (simp add: utf8_arith)

lemma later_byte_cases:
  assumes "later_bytes (b # bs) cp = Some z"
  shows "\<exists>y < 64. b = char_of (0x80 + y) \<and> later_bytes bs (cp * 64 + y) = Some z"
proof -
  have d: "ord b div 64 = 2" "later_bytes bs (cp * 64 + ord b mod 64) = Some z"
    using assms by (auto simp: utf8_arith split: if_splits)
  have "ord b = 0x80 + ord b mod 64" using base_sum [OF d(1)] by simp
  then have "char_of (ord b) = (char_of (0x80 + ord b mod 64) :: char)" by (rule arg_cong)
  then have "b = char_of (0x80 + ord b mod 64)" by (simp only: char_of_ord)
  moreover have "ord b mod 64 < 64" by simp
  ultimately show ?thesis using d(2) by blast
qed

text \<open>The encodings of two, three and four bytes; \<open>cp\<close> has the digits \<open>x\<close>, \<open>y\<close>, \<open>z\<close>, \<open>w\<close> to base 64.\<close>

lemma appendRune_2:
  assumes "cp div 64 = x" "cp mod 64 = y" "0x80 \<le> cp" "cp < 0x800"
  shows "appendRune cp = [char_of (0xC0 + x), char_of (0x80 + y)]"
proof -
  have "x < 32" "y < 64" using assms by auto
  then show ?thesis using assms or_bytes(1) [of x] or_bytes(4) [of y] by (simp add: appendRune_def utf8_arith)
qed

lemma appendRune_3:
  assumes "cp div 64 = p" "cp mod 64 = z" "p div 64 = x" "p mod 64 = y" "0x800 \<le> cp" "cp < 0x10000"
  shows "appendRune cp = [char_of (0xE0 + x), char_of (0x80 + y), char_of (0x80 + z)]"
proof -
  have l: "x < 16" "y < 64" "z < 64" using assms by auto
  have "cp div 4096 = x" using assms(1,3) div_mult2_eq [of cp 64 64] by simp
  then show ?thesis using assms l or_bytes(2) [of x] or_bytes(4) [of y] or_bytes(4) [of z] by (simp add: appendRune_def utf8_arith)
qed

lemma appendRune_4:
  assumes "cp div 64 = p" "cp mod 64 = w" "p div 64 = q" "p mod 64 = z" "q div 64 = x" "q mod 64 = y" "0x10000 \<le> cp" "cp \<le> 0x10FFFF"
  shows "appendRune cp = [char_of (0xF0 + x), char_of (0x80 + y), char_of (0x80 + z), char_of (0x80 + w)]"
proof -
  have "q = cp div 4096" using assms(1,3) div_mult2_eq [of cp 64 64] by simp
  moreover from this have "x = cp div 262144" using assms(5) div_mult2_eq [of cp 4096 64] by simp
  moreover from this have "x < 8" using assms(8) less_mult_imp_div_less [of cp 8 262144] by simp
  moreover have "y < 64" "z < 64" "w < 64" using assms(2,4,6) by auto
  ultimately show ?thesis
    using assms or_bytes(3) [of x] or_bytes(4) [of y] or_bytes(4) [of z] or_bytes(4) [of w] by (simp add: appendRune_def utf8_arith)
qed

lemma lead_rune:
  assumes "lead_byte (ord c) = Some (n, x)" and "length bs = n - 1" and "later_bytes bs x = Some cp"
    and "lowest n \<le> cp" and "cp \<le> 0x10FFFF"
  shows "appendRune cp = c # bs"
  using lead_byte_cases [OF assms(1)]
proof (elim disjE conjE)
  assume n: "n = 2" "x < 32" "ord c = 0xC0 + x"
  have c: "c = char_of (0xC0 + x)" using char_of_ord [of c] n(3) by simp
  obtain b where bs: "bs = [b]" using assms(2) n(1) by (auto simp: length_Suc_conv numeral_2_eq_2)
  obtain y where y: "y < 64" "b = char_of (0x80 + y)" "cp = x * 64 + y"
    using later_byte_cases [of b "[]" x cp] assms(3) bs by auto
  show ?thesis unfolding c bs y(2)
    by (rule appendRune_2) (use y n assms(4) in \<open>simp_all add: lowest_def\<close>)
next
  assume n: "n = 3" "x < 16" "ord c = 0xE0 + x"
  have c: "c = char_of (0xE0 + x)" using char_of_ord [of c] n(3) by simp
  obtain a b where bs: "bs = [a, b]" using assms(2) n(1) by (auto simp: length_Suc_conv numeral_3_eq_3)
  obtain y where y: "y < 64" "a = char_of (0x80 + y)" "later_bytes [b] (x * 64 + y) = Some cp"
    using later_byte_cases [of a "[b]" x cp] assms(3) bs by auto
  define p where "p = x * 64 + y"
  obtain z where z: "z < 64" "b = char_of (0x80 + z)" "cp = p * 64 + z"
    using later_byte_cases [OF y(3)] by (auto simp: p_def)
  have p: "p div 64 = x" "p mod 64 = y" "p < 1024" using y(1) n(2) by (simp_all add: p_def)
  show ?thesis unfolding c bs y(2) z(2)
    by (rule appendRune_3 [of _ p]) (use p z n assms(4) in \<open>simp_all add: lowest_def\<close>)
next
  assume n: "n = 4" "x < 8" "ord c = 0xF0 + x"
  have c: "c = char_of (0xF0 + x)" using char_of_ord [of c] n(3) by simp
  obtain a b d where bs: "bs = [a, b, d]" using assms(2) n(1) by (auto simp: length_Suc_conv numeral_3_eq_3)
  obtain y where y: "y < 64" "a = char_of (0x80 + y)" "later_bytes [b, d] (x * 64 + y) = Some cp"
    using later_byte_cases [of a "[b, d]" x cp] assms(3) bs by auto
  define q where "q = x * 64 + y"
  obtain z where z: "z < 64" "b = char_of (0x80 + z)" "later_bytes [d] (q * 64 + z) = Some cp"
    using later_byte_cases [OF y(3)] by (auto simp: q_def)
  define p where "p = q * 64 + z"
  obtain w where w: "w < 64" "d = char_of (0x80 + w)" "cp = p * 64 + w"
    using later_byte_cases [OF z(3)] by (auto simp: p_def)
  have p: "p div 64 = q" "p mod 64 = z" "q div 64 = x" "q mod 64 = y"
    unfolding p_def using base_div z(1) y(1) by (auto simp only: q_def)
  show ?thesis unfolding c bs y(2) z(2) w(2)
    by (rule appendRune_4 [of _ p _ q]) (use p w n assms(4,5) in \<open>simp_all add: lowest_def\<close>)
qed

lemma validUTF8_lead:
  assumes "\<not> ord c < 0x80" and "lead_byte (ord c) = Some (n, x)" and "length bs = n - 1" and "later_bytes bs x = Some cp" and "0 < n"
  shows "validUTF8 (c # bs @ b) \<longleftrightarrow> lowest n \<le> cp \<and> cp \<le> 0x10FFFF \<and> \<not> surrogate cp \<and> validUTF8 b"
proof -
  have "n = Suc (length bs)" using assms(3,5) by simp
  then show ?thesis using assms by (auto simp: validUTF8.simps(2) not_less)
qed

lemma validUTF8_rune:
  assumes "scalar cp"
  shows "validUTF8 (appendRune cp @ b) = validUTF8 b"
proof -
  have cp: "cp \<le> 0x10FFFF" "\<not> surrogate cp" using assms by (auto simp: scalar_def)
  consider "cp < 0x80" | "0x80 \<le> cp" "cp < 0x800" | "0x800 \<le> cp" "cp < 0x10000" | "0x10000 \<le> cp" by linarith
  then show ?thesis
  proof cases
    case 1
    then show ?thesis by (simp add: appendRune_def validUTF8.simps(2))
  next
    case 2
    define x y where "x = cp div 64" and "y = cp mod 64"
    have d: "x < 32" "y < 64" "cp = x * 64 + y" using 2 by (auto simp: x_def y_def)
    have a: "appendRune cp = [char_of (0xC0 + x), char_of (0x80 + y)]" using 2 by (intro appendRune_2) (simp_all add: x_def y_def)
    have "later_bytes [char_of (0x80 + y)] x = Some cp" using d by (simp only: later_byte) simp
    then show ?thesis using validUTF8_lead [of "char_of (0xC0 + x)" 2 x "[char_of (0x80 + y)]" cp b] a d 2 cp
      by (simp add: lead_byte_sums lowest_def)
  next
    case 3
    define p z where "p = cp div 64" and "z = cp mod 64"
    define x y where "x = p div 64" and "y = p mod 64"
    have "x = cp div 4096" by (simp add: x_def p_def flip: div_mult2_eq)
    then have "x < 16" using 3 by simp
    then have d: "x < 16" "y < 64" "z < 64" "p = x * 64 + y" "cp = p * 64 + z"
      by (simp_all add: x_def y_def p_def z_def)
    have a: "appendRune cp = [char_of (0xE0 + x), char_of (0x80 + y), char_of (0x80 + z)]"
      by (rule appendRune_3 [of _ p]) (use 3 in \<open>simp_all add: x_def y_def p_def z_def\<close>)
    have "later_bytes [char_of (0x80 + y), char_of (0x80 + z)] x = Some cp"
      using d(1-3) unfolding d(5) d(4) by (simp only: later_byte) simp
    then show ?thesis using validUTF8_lead [of "char_of (0xE0 + x)" 3 x "[char_of (0x80 + y), char_of (0x80 + z)]" cp b] a d(1-3) 3 cp
      by (simp add: lead_byte_sums lowest_def)
  next
    case 4
    define p w where "p = cp div 64" and "w = cp mod 64"
    define q z where "q = p div 64" and "z = p mod 64"
    define x y where "x = q div 64" and "y = q mod 64"
    have "x = cp div 262144" by (simp add: x_def q_def p_def flip: div_mult2_eq)
    then have x8: "x < 8" using cp less_mult_imp_div_less [of cp 8 262144] by simp
    have d: "y < 64" "z < 64" "w < 64" "q = x * 64 + y" "p = q * 64 + z" "cp = p * 64 + w"
      by (simp_all add: x_def y_def q_def z_def p_def w_def)
    have a: "appendRune cp = [char_of (0xF0 + x), char_of (0x80 + y), char_of (0x80 + z), char_of (0x80 + w)]"
      by (rule appendRune_4 [of _ p _ q]) (use 4 cp in \<open>simp_all add: x_def y_def p_def z_def q_def w_def\<close>)
    have "later_bytes [char_of (0x80 + y), char_of (0x80 + z), char_of (0x80 + w)] x = Some cp"
      using d(1-3) unfolding d(6) d(5) d(4) by (simp only: later_byte) simp
    then show ?thesis
      using validUTF8_lead [of "char_of (0xF0 + x)" 4 x "[char_of (0x80 + y), char_of (0x80 + z), char_of (0x80 + w)]" cp b] a d(1-3) x8 4 cp
      by (simp add: lead_byte_sums lowest_def)
  qed
qed

text \<open>
  C39: the string reader's UTF-8 check is exact. A byte string is accepted exactly when it is the
  concatenation of the encodings of Unicode scalar values: every overlong form, surrogate, code
  point beyond the range, stray or missing continuation byte is refused, and nothing else.
\<close>

theorem validUTF8_exact:
  "validUTF8 s \<longleftrightarrow> (\<exists>cps. list_all scalar cps \<and> s = concat (map appendRune cps))"
proof
  assume "validUTF8 s"
  then show "\<exists>cps. list_all scalar cps \<and> s = concat (map appendRune cps)"
  proof (induction s rule: validUTF8.induct)
    case 1
    show ?case by (intro exI [of _ "[]"]) simp
  next
    case (2 c b)
    show ?case
    proof (cases "ord c < 0x80")
      case True
      then have "validUTF8 b" using 2(3) by (simp add: validUTF8.simps(2))
      then obtain cps where "list_all scalar cps" "b = concat (map appendRune cps)" using 2(1) True by blast
      moreover have "appendRune (ord c) = [c]" "scalar (ord c)" using True by (simp_all add: appendRune_def scalar_def surrogate_def)
      ultimately show ?thesis by (intro exI [of _ "ord c # cps"]) simp
    next
      case False
      then obtain n x cp where v: "lead_byte (ord c) = Some (n, x)" "n \<le> length (c # b)" "later_bytes (take (n - 1) b) x = Some cp"
          "lowest n \<le> cp" "cp \<le> 0x10FFFF" "\<not> surrogate cp" "validUTF8 (drop (n - 1) b)"
        using 2(3) by (auto simp: validUTF8.simps(2) not_less split: option.splits if_splits)
      obtain cps where cps: "list_all scalar cps" "drop (n - 1) b = concat (map appendRune cps)"
        using 2(2) [OF False v(1) refl _ v(3)] v by (auto simp: not_less)
      have "length (take (n - 1) b) = n - 1" using v(2) by auto
      from lead_rune [OF v(1) this v(3-5)] have "appendRune cp = c # take (n - 1) b" .
      then have "c # b = concat (map appendRune (cp # cps))" using cps(2) by (metis append_Cons append_take_drop_id concat.simps(2) list.map(2))
      moreover have "scalar cp" using v(5,6) by (simp add: scalar_def)
      ultimately show ?thesis using cps(1) by (intro exI [of _ "cp # cps"]) simp
    qed
  qed
next
  have "list_all scalar cps \<Longrightarrow> validUTF8 (concat (map appendRune cps))" for cps
    by (induction cps) (simp_all add: validUTF8_rune)
  then show "\<exists>cps. list_all scalar cps \<and> s = concat (map appendRune cps) \<Longrightarrow> validUTF8 s" by blast
qed

text \<open>
  A written string reads back. Whatever bytes \<open>s\<close> holds, quotes, backslashes, control bytes
  included, and whatever follows, the reader returns \<open>s\<close> itself and stops right after the closing
  quote when \<open>s\<close> is valid UTF-8, and otherwise refuses it with \<^verbatim>\<open>bad_string\<close> at that place.
\<close>

theorem string_round_trip:
  assumes "rdRest r = esc s @ later"
  shows "str r = (if validUTF8 s then Inr (s, r\<lparr>rdRest := later, rdPos := rdPos r + length (esc s)\<rparr>)
    else Inl (Refusal ''bad_string'' (rdPos r + length (esc s))))"
  using str_esc [OF assms] assms by (simp add: advance_def)

theorem string_round_trip_witness:
  "str \<lparr>rdRest = esc [QUOTE, CHR 0x01, CHR ''a''] @ '',x'', rdPos = 3, rdDepth = 0\<rparr> =
     Inr ([QUOTE, CHR 0x01, CHR ''a''], \<lparr>rdRest = '',x'', rdPos = 14, rdDepth = 0\<rparr>)"
proof -
  have "validUTF8 [QUOTE, CHR 0x01, CHR ''a'']" "length (esc [QUOTE, CHR 0x01, CHR ''a'']) = 11" by code_simp+
  then show ?thesis
    using string_round_trip [of "\<lparr>rdRest = esc [QUOTE, CHR 0x01, CHR ''a''] @ '',x'', rdPos = 3, rdDepth = 0\<rparr>"] by simp
qed

end
