(* ===== verification/Wire_Record.thy ===== *)
theory Wire_Record
  imports Json_Text Proof_Ladder
begin

section \<open>The records of the wire vocabulary (go/abstraction/identity/api/rec.go)\<close>

text \<open>
  The generated codec of \<^verbatim>\<open>ProofRequirement\<close> and \<^verbatim>\<open>ProofFailure\<close>: the closed vocabulary of proof
  words, the writers with their fixed layout, and the strict readers, which accept the fields in any
  order, each exactly once. A writer that panics on a value outside the vocabulary answers the
  refusal it panics with.
\<close>

unbundle bit_operations_syntax

subsection \<open>The vocabulary\<close>

type_synonym apiProof = "32 word"

definition WireName :: "apiProof \<Rightarrow> string \<times> bool" where
  "WireName v =
     (if v = 1 then (''none'', True)
      else if v = 2 then (''claimed'', True)
      else if v = 3 then (''invalid'', True)
      else if v = 4 then (''unsigned'', True)
      else if v = 5 then (''unmet'', True)
      else if v = 6 then (''pid'', True)
      else if v = 7 then (''bound'', True)
      else if v = 8 then (''kernel'', True)
      else if v = 9 then (''signed'', True)
      else ([], False))"

definition apiProof_String :: "apiProof \<Rightarrow> string" where
  "apiProof_String v = fst (WireName v)"

definition ParseProof :: "string \<Rightarrow> apiProof \<times> bool" where
  "ParseProof word =
     (if word = ''none'' then (1, True)
      else if word = ''claimed'' then (2, True)
      else if word = ''invalid'' then (3, True)
      else if word = ''unsigned'' then (4, True)
      else if word = ''unmet'' then (5, True)
      else if word = ''pid'' then (6, True)
      else if word = ''bound'' then (7, True)
      else if word = ''kernel'' then (8, True)
      else if word = ''signed'' then (9, True)
      else (0, False))"

definition apiKnown :: "apiProof \<Rightarrow> bool" where
  "apiKnown v = snd (WireName v)"

definition ProofValues :: "apiProof list" where
  "ProofValues = [1, 2, 3, 4, 5, 6, 7, 8, 9]"

definition MarshalText :: "apiProof \<Rightarrow> refusal + string" where
  "MarshalText v = (case WireName v of (word, ok) \<Rightarrow> if \<not> ok then Inl (Refusal ''bad_enum'' 0) else Inr word)"

definition UnmarshalText :: "string \<Rightarrow> refusal + apiProof" where
  "UnmarshalText text = (case ParseProof text of (v, ok) \<Rightarrow> if \<not> ok then Inl (Refusal ''bad_enum'' 0) else Inr v)"

definition MarshalJSON :: "apiProof \<Rightarrow> refusal + string" where
  "MarshalJSON v = (case WireName v of (word, ok) \<Rightarrow> if \<not> ok then Inl (Refusal ''bad_enum'' 0) else Inr (esc word))"

definition new_reader :: "string \<Rightarrow> reader" where
  "new_reader buf = \<lparr>rdRest = buf, rdPos = 0, rdDepth = 0\<rparr>"

definition UnmarshalJSON :: "string \<Rightarrow> refusal + apiProof" where
  "UnmarshalJSON data =
     (case str (ws (new_reader data)) of
        Inl e \<Rightarrow> Inl e
      | Inr (word, r) \<Rightarrow>
          (let r = ws r in
           if rdRest r \<noteq> [] then Inl (refuse ''trailing_bytes'' r)
           else (case ParseProof word of (v, ok) \<Rightarrow> if \<not> ok then Inl (refuse ''bad_enum'' r) else Inr v)))"

subsection \<open>Writing records\<close>

record ProofRequirement =
  rqUser :: apiProof
  rqProcess :: apiProof
  rqPath :: apiProof
  rqPackage :: apiProof
  rqCode :: apiProof

record ProofFailure =
  pfAttribute :: string
  pfHave :: apiProof
  pfNeed :: apiProof
  pfWhy :: string

abbreviation NL :: char where "NL \<equiv> CHR 0x0A"

definition pad :: "nat \<Rightarrow> string" where "pad depth = replicate (depth * 2) (CHR '' '')"

definition member :: "nat \<Rightarrow> string \<Rightarrow> string \<Rightarrow> string" where
  "member depth key text = [NL] @ pad (depth + 1) @ esc key @ '': '' @ esc text"

definition encProofRequirement :: "ProofRequirement \<Rightarrow> nat \<Rightarrow> refusal + string" where
  "encProofRequirement v depth =
     (if \<not> apiKnown (rqUser v) \<or> \<not> apiKnown (rqProcess v) \<or> \<not> apiKnown (rqPath v) \<or> \<not> apiKnown (rqPackage v) \<or> \<not> apiKnown (rqCode v)
      then Inl (Refusal ''bad_enum'' 0)
      else Inr (''{'' @
        member depth ''user'' (apiProof_String (rqUser v)) @ '','' @
        member depth ''process'' (apiProof_String (rqProcess v)) @ '','' @
        member depth ''path'' (apiProof_String (rqPath v)) @ '','' @
        member depth ''package'' (apiProof_String (rqPackage v)) @ '','' @
        member depth ''code'' (apiProof_String (rqCode v)) @
        [NL] @ pad depth @ ''}''))"

definition encProofFailure :: "ProofFailure \<Rightarrow> nat \<Rightarrow> refusal + string" where
  "encProofFailure v depth =
     (if \<not> apiKnown (pfHave v) \<or> \<not> apiKnown (pfNeed v)
      then Inl (Refusal ''bad_enum'' 0)
      else Inr (''{'' @
        member depth ''attribute'' (pfAttribute v) @ '','' @
        member depth ''have'' (apiProof_String (pfHave v)) @ '','' @
        member depth ''need'' (apiProof_String (pfNeed v)) @ '','' @
        member depth ''why'' (pfWhy v) @
        [NL] @ pad depth @ ''}''))"

definition Encode :: "ProofRequirement \<Rightarrow> refusal + string" where
  "Encode v = (case encProofRequirement v 0 of Inl e \<Rightarrow> Inl e | Inr s \<Rightarrow> Inr (s @ [NL]))"

subsection \<open>Reading records\<close>

definition depthLimit :: nat where "depthLimit = 64"

definition enter :: "reader \<Rightarrow> refusal + reader" where
  "enter r = (let r = r\<lparr>rdDepth := rdDepth r + 1\<rparr> in if depthLimit < rdDepth r then Inl (refuse ''depth_exceeded'' r) else Inr r)"

text \<open>A member's key and the colon after it.\<close>

definition read_key :: "reader \<Rightarrow> string reading" where
  "read_key r0 =
     (let r = ws r0 in
      if at r \<noteq> QUOTE then Inl (refuse ''malformed'' r)
      else (case str r of
              Inl e \<Rightarrow> Inl e
            | Inr (key, r) \<Rightarrow>
                (let r = ws r in
                 if at r \<noteq> CHR '':'' then Inl (refuse ''malformed'' r)
                 else Inr (key, ws (advance 1 r)))))"

text \<open>The value of a string field and of a word field whose bit in \<open>seen\<close> is \<open>b\<close>.\<close>

definition text_field :: "32 word \<Rightarrow> 32 word \<Rightarrow> reader \<Rightarrow> (string \<times> 32 word) reading" where
  "text_field b seen r =
     (if seen AND b \<noteq> 0 then Inl (refuse ''duplicate_field'' r)
      else (case str r of Inl e \<Rightarrow> Inl e | Inr (x, r') \<Rightarrow> Inr ((x, seen OR b), r')))"

definition word_field :: "32 word \<Rightarrow> 32 word \<Rightarrow> reader \<Rightarrow> (apiProof \<times> 32 word) reading" where
  "word_field b seen r =
     (case text_field b seen r of
        Inl e \<Rightarrow> Inl e
      | Inr ((x, seen'), r') \<Rightarrow>
          (case ParseProof x of (v, ok) \<Rightarrow> if \<not> ok then Inl (refuse ''bad_enum'' r') else Inr ((v, seen'), r')))"

definition requirement_field :: "string \<Rightarrow> ProofRequirement \<Rightarrow> 32 word \<Rightarrow> reader \<Rightarrow> (ProofRequirement \<times> 32 word) reading" where
  "requirement_field key v seen r =
     (let set = (\<lambda>b upd. case word_field b seen r of Inl e \<Rightarrow> Inl e | Inr ((x, seen'), r') \<Rightarrow> Inr ((upd x, seen'), r')) in
      if key = ''user'' then set 1 (\<lambda>x. v\<lparr>rqUser := x\<rparr>)
      else if key = ''process'' then set 2 (\<lambda>x. v\<lparr>rqProcess := x\<rparr>)
      else if key = ''path'' then set 4 (\<lambda>x. v\<lparr>rqPath := x\<rparr>)
      else if key = ''package'' then set 8 (\<lambda>x. v\<lparr>rqPackage := x\<rparr>)
      else if key = ''code'' then set 16 (\<lambda>x. v\<lparr>rqCode := x\<rparr>)
      else Inl (refuse ''unknown_field'' r))"

definition failure_field :: "string \<Rightarrow> ProofFailure \<Rightarrow> 32 word \<Rightarrow> reader \<Rightarrow> (ProofFailure \<times> 32 word) reading" where
  "failure_field key v seen r =
     (let text = (\<lambda>b upd. case text_field b seen r of Inl e \<Rightarrow> Inl e | Inr ((x, seen'), r') \<Rightarrow> Inr ((upd x, seen'), r'));
          set = (\<lambda>b upd. case word_field b seen r of Inl e \<Rightarrow> Inl e | Inr ((x, seen'), r') \<Rightarrow> Inr ((upd x, seen'), r')) in
      if key = ''attribute'' then text 1 (\<lambda>x. v\<lparr>pfAttribute := x\<rparr>)
      else if key = ''have'' then set 2 (\<lambda>x. v\<lparr>pfHave := x\<rparr>)
      else if key = ''need'' then set 4 (\<lambda>x. v\<lparr>pfNeed := x\<rparr>)
      else if key = ''why'' then text 8 (\<lambda>x. v\<lparr>pfWhy := x\<rparr>)
      else Inl (refuse ''unknown_field'' r))"

lemma str_loop_shorter: "str_loop out r = Inr (s, r') \<Longrightarrow> length (rdRest r') < length (rdRest r)"
proof (induction out r arbitrary: s r' rule: str_loop.induct)
  case (1 out r)
  show ?case
  proof (cases "rdRest r")
    case Nil
    then show ?thesis using 1(3) by (subst (asm) str_loop.simps) simp
  next
    case (Cons c cs)
    consider "c = QUOTE" | "c \<noteq> QUOTE" "ord c < 0x20" | "c = BSLASH" "\<not> ord c < 0x20" | "c \<noteq> QUOTE" "\<not> ord c < 0x20" "c \<noteq> BSLASH" by blast
    then show ?thesis
    proof cases
      case 3
      then obtain t r1 where e: "escape r = Inr (t, r1)" "str_loop (out @ t) r1 = Inr (s, r')"
        using 1(3) Cons by (subst (asm) str_loop.simps) (auto split: sum.splits)
      have "length (rdRest r') < length (rdRest r1)" using 1(1) [OF Cons _ 3(2) 3(1) e(1) refl e(2)] 3 by auto
      then show ?thesis using escape_shorter [OF e(1)] Cons by auto
    next
      case 4
      then have "str_loop (out @ [c]) (advance 1 r) = Inr (s, r')" using 1(3) Cons by (subst (asm) str_loop.simps) simp
      from 1(2) [OF Cons 4 this] show ?thesis by auto
    qed (use 1(3) Cons in \<open>subst (asm) str_loop.simps, auto simp: Let_def split: if_splits\<close>)+
  qed
qed

lemma str_shorter: "str r = Inr (s, r') \<Longrightarrow> length (rdRest r') < length (rdRest r)"
  by (auto simp: str_def split: if_splits dest: str_loop_shorter)

lemma ws_shorter: "length (rdRest (ws r)) \<le> length (rdRest r)"
  by (simp add: ws_def)

lemma read_key_shorter: "read_key r = Inr (k, r') \<Longrightarrow> length (rdRest r') < length (rdRest r)"
proof -
  assume "read_key r = Inr (k, r')"
  then obtain r1 where r1: "str (ws r) = Inr (k, r1)" "r' = ws (advance 1 (ws r1))"
    by (auto simp: read_key_def Let_def split: if_splits sum.splits)
  then show ?thesis
    using str_shorter [OF r1(1)] ws_shorter [of r] ws_shorter [of r1] ws_shorter [of "advance 1 (ws r1)"] by simp
qed

lemma text_field_shorter: "text_field b seen r = Inr (x, r') \<Longrightarrow> length (rdRest r') < length (rdRest r)"
  by (auto simp: text_field_def split: if_splits sum.splits dest: str_shorter)

lemma word_field_shorter: "word_field b seen r = Inr (x, r') \<Longrightarrow> length (rdRest r') < length (rdRest r)"
  by (auto simp: word_field_def split: if_splits sum.splits prod.splits dest: text_field_shorter)

lemma requirement_field_shorter: "requirement_field key v seen r = Inr (x, r') \<Longrightarrow> length (rdRest r') < length (rdRest r)"
  by (auto simp: requirement_field_def Let_def split: if_splits sum.splits dest: word_field_shorter)

lemma failure_field_shorter: "failure_field key v seen r = Inr (x, r') \<Longrightarrow> length (rdRest r') < length (rdRest r)"
  by (auto simp: failure_field_def Let_def split: if_splits sum.splits dest: word_field_shorter text_field_shorter)

function requirement_loop :: "ProofRequirement \<Rightarrow> 32 word \<Rightarrow> reader \<Rightarrow> (ProofRequirement \<times> 32 word) reading" where
  "requirement_loop v seen r =
     (case read_key r of
        Inl e \<Rightarrow> Inl e
      | Inr (key, r1) \<Rightarrow>
          (case requirement_field key v seen r1 of
             Inl e \<Rightarrow> Inl e
           | Inr ((v', seen'), r2) \<Rightarrow>
               if at (ws r2) \<noteq> CHR '','' then Inr ((v', seen'), ws r2)
               else requirement_loop v' seen' (advance 1 (ws r2))))"
  by pat_completeness auto
termination
proof (relation "measure (\<lambda>(v, seen, r). length (rdRest r))", goal_cases)
  case (2 v seen r k key r1 f vs r2 v' seen')
  then show ?case using read_key_shorter [of r key r1] requirement_field_shorter [of key v seen r1 _ r2] ws_shorter [of r2]
    by (cases k; cases f) auto
qed simp

declare requirement_loop.simps [simp del]

function failure_loop :: "ProofFailure \<Rightarrow> 32 word \<Rightarrow> reader \<Rightarrow> (ProofFailure \<times> 32 word) reading" where
  "failure_loop v seen r =
     (case read_key r of
        Inl e \<Rightarrow> Inl e
      | Inr (key, r1) \<Rightarrow>
          (case failure_field key v seen r1 of
             Inl e \<Rightarrow> Inl e
           | Inr ((v', seen'), r2) \<Rightarrow>
               if at (ws r2) \<noteq> CHR '','' then Inr ((v', seen'), ws r2)
               else failure_loop v' seen' (advance 1 (ws r2))))"
  by pat_completeness auto
termination
proof (relation "measure (\<lambda>(v, seen, r). length (rdRest r))", goal_cases)
  case (2 v seen r k key r1 f vs r2 v' seen')
  then show ?case using read_key_shorter [of r key r1] failure_field_shorter [of key v seen r1 _ r2] ws_shorter [of r2]
    by (cases k; cases f) auto
qed simp

declare failure_loop.simps [simp del]

definition decodeProofRequirement :: "reader \<Rightarrow> ProofRequirement reading" where
  "decodeProofRequirement r =
     (if at r \<noteq> CHR ''{'' then Inl (refuse ''wrong_type'' r)
      else (case enter r of
              Inl e \<Rightarrow> Inl e
            | Inr r \<Rightarrow>
                (let r = ws (advance 1 r); v = \<lparr>rqUser = 0, rqProcess = 0, rqPath = 0, rqPackage = 0, rqCode = 0\<rparr> in
                 case (if at r \<noteq> CHR ''}'' then requirement_loop v 0 r else Inr ((v, 0), r)) of
                   Inl e \<Rightarrow> Inl e
                 | Inr ((v, seen), r) \<Rightarrow>
                     if at r \<noteq> CHR ''}'' then Inl (refuse ''malformed'' r)
                     else (let r = (advance 1 r)\<lparr>rdDepth := rdDepth r - 1\<rparr> in
                           if seen AND 31 \<noteq> 31 then Inl (refuse ''missing_field'' r)
                           else if \<not> apiKnown (rqUser v) \<or> \<not> apiKnown (rqProcess v) \<or> \<not> apiKnown (rqPath v) \<or>
                                   \<not> apiKnown (rqPackage v) \<or> \<not> apiKnown (rqCode v)
                           then Inl (refuse ''bad_enum'' r)
                           else Inr (v, r)))))"

definition decodeProofFailure :: "reader \<Rightarrow> ProofFailure reading" where
  "decodeProofFailure r =
     (if at r \<noteq> CHR ''{'' then Inl (refuse ''wrong_type'' r)
      else (case enter r of
              Inl e \<Rightarrow> Inl e
            | Inr r \<Rightarrow>
                (let r = ws (advance 1 r); v = \<lparr>pfAttribute = [], pfHave = 0, pfNeed = 0, pfWhy = []\<rparr> in
                 case (if at r \<noteq> CHR ''}'' then failure_loop v 0 r else Inr ((v, 0), r)) of
                   Inl e \<Rightarrow> Inl e
                 | Inr ((v, seen), r) \<Rightarrow>
                     if at r \<noteq> CHR ''}'' then Inl (refuse ''malformed'' r)
                     else (let r = (advance 1 r)\<lparr>rdDepth := rdDepth r - 1\<rparr> in
                           if seen AND 15 \<noteq> 15 then Inl (refuse ''missing_field'' r)
                           else if \<not> apiKnown (pfHave v) \<or> \<not> apiKnown (pfNeed v) then Inl (refuse ''bad_enum'' r)
                           else Inr (v, r)))))"

definition Decode :: "string \<Rightarrow> refusal + ProofRequirement" where
  "Decode buf =
     (case decodeProofRequirement (ws (new_reader buf)) of
        Inl e \<Rightarrow> Inl e
      | Inr (v, r) \<Rightarrow> (let r = ws r in if rdRest r \<noteq> [] then Inl (refuse ''trailing_bytes'' r) else Inr v))"

subsection \<open>Reading what was written\<close>

lemma drop_more: "drop n xs = ys @ zs \<Longrightarrow> drop (n + length ys) xs = zs"
  by (metis add.commute append_eq_conv_conj drop_drop)

lemma ws_skips:
  assumes "rdRest r = w @ c # cs" "list_all is_ws w" "\<not> is_ws c"
  shows "ws r = advance (length w) r"
proof -
  have "takeWhile is_ws (rdRest r) = w" using assms by (simp add: list_all_iff takeWhile_append2 takeWhile_eq_all_conv)
  then show ?thesis by (simp add: ws_def)
qed

lemma ws_none: "rdRest r = c # cs \<Longrightarrow> \<not> is_ws c \<Longrightarrow> ws r = r"
  using ws_skips [of r "[]"] by simp

lemma ws_ws [simp]: "ws (ws r) = ws r"
proof -
  have "takeWhile is_ws (drop (length (takeWhile is_ws xs)) xs) = []" for xs
    by (induction xs) simp_all
  then show ?thesis by (simp add: ws_def [of "ws r"]) (simp add: ws_def)
qed

lemma is_ws_pad: "list_all is_ws (NL # pad d)"
  by (simp add: pad_def is_ws_def list_all_iff)

lemma not_ws: "\<not> is_ws QUOTE" "\<not> is_ws (CHR '':'')" "\<not> is_ws (CHR '','')" "\<not> is_ws (CHR ''}'')" "\<not> is_ws (CHR ''{'')"
  by (simp_all add: is_ws_def)

lemma read_key_member:
  assumes "rdRest r = NL # pad d @ esc key @ '': '' @ esc text @ later" and "validUTF8 key"
  obtains n where "read_key r = Inr (key, advance n r)" "drop n (rdRest r) = esc text @ later"
proof -
  let ?a = "length (NL # pad d)" and ?k = "length (esc key)"
  have 1: "ws r = advance ?a r"
    by (rule ws_skips [of _ "NL # pad d" QUOTE]) (use assms(1) is_ws_pad not_ws in \<open>simp_all add: esc_def\<close>)
  have r1: "rdRest (advance ?a r) = esc key @ '': '' @ esc text @ later" using assms(1) by simp
  have 2: "at (advance ?a r) = QUOTE" using r1 by (simp add: at_def esc_def)
  have 3: "str (advance ?a r) = Inr (key, advance (?a + ?k) r)" using str_esc [OF r1] assms(2) by simp
  have r2: "rdRest (advance (?a + ?k) r) = '': '' @ esc text @ later" using r1 by (metis advance_advance append_eq_conv_conj rest_advance)
  have 4: "ws (advance (?a + ?k) r) = advance (?a + ?k) r" "at (advance (?a + ?k) r) = CHR '':''"
    using r2 not_ws by (auto intro: ws_none simp: at_def)
  have r3: "rdRest (advance (?a + ?k + 1) r) = [CHR '' ''] @ QUOTE # tl (esc text @ later)"
    using drop_more [of "?a + ?k" "rdRest r" "'':''"] r2 by (simp add: esc_def)
  have 5: "ws (advance (?a + ?k + 1) r) = advance (?a + ?k + 2) r"
    using ws_skips [OF r3] not_ws by (simp add: is_ws_def)
  have "read_key r = Inr (key, advance (?a + ?k + 2) r)"
    using 1 2 3 4 5 by (simp add: read_key_def)
  moreover have "drop (?a + ?k + 2) (rdRest r) = esc text @ later"
    using drop_more [of "?a + ?k" "rdRest r" "'': ''"] r2 by simp
  ultimately show ?thesis by (rule that)
qed

text \<open>The member loop of a record reader, over the reader of one field.\<close>

definition reads :: "(string \<Rightarrow> 'v \<Rightarrow> 32 word \<Rightarrow> reader \<Rightarrow> ('v \<times> 32 word) reading) \<Rightarrow> string \<Rightarrow> string \<Rightarrow> 'v \<Rightarrow> 32 word \<Rightarrow> 'v \<Rightarrow> 32 word \<Rightarrow> bool" where
  "reads field key text v seen v' seen' \<longleftrightarrow>
     (\<forall>r later. rdRest r = esc text @ later \<longrightarrow> field key v seen r = Inr ((v', seen'), advance (length (esc text)) r))"

text \<open>The members of a record as they are written, and as a loop reads them one after the other.\<close>

fun layout :: "nat \<Rightarrow> (string \<times> string) list \<Rightarrow> string" where
  "layout d [] = []"
| "layout d [(key, text)] = member d key text"
| "layout d ((key, text) # m # ms) = member d key text @ '','' @ layout d (m # ms)"

fun reads_all :: "(string \<Rightarrow> 'v \<Rightarrow> 32 word \<Rightarrow> reader \<Rightarrow> ('v \<times> 32 word) reading) \<Rightarrow> (string \<times> string) list \<Rightarrow>
    'v \<Rightarrow> 32 word \<Rightarrow> 'v \<Rightarrow> 32 word \<Rightarrow> bool" where
  "reads_all field [] v seen v' seen' = (v = v' \<and> seen = seen')"
| "reads_all field ((key, text) # ms) v seen v' seen' =
     (\<exists>v1 s1. validUTF8 key \<and> reads field key text v seen v1 s1 \<and> reads_all field ms v1 s1 v' seen')"

locale member_loop =
  fixes field :: "string \<Rightarrow> 'v \<Rightarrow> 32 word \<Rightarrow> reader \<Rightarrow> ('v \<times> 32 word) reading"
    and loop :: "'v \<Rightarrow> 32 word \<Rightarrow> reader \<Rightarrow> ('v \<times> 32 word) reading"
  assumes loop_eq: "loop v seen r =
     (case read_key r of
        Inl e \<Rightarrow> Inl e
      | Inr (key, r1) \<Rightarrow>
          (case field key v seen r1 of
             Inl e \<Rightarrow> Inl e
           | Inr ((v', seen'), r2) \<Rightarrow>
               if at (ws r2) \<noteq> CHR '','' then Inr ((v', seen'), ws r2)
               else loop v' seen' (advance 1 (ws r2))))"
begin

lemma one_member:
  assumes "rdRest r = member d key text @ later" and "validUTF8 key" and "reads field key text v seen v' seen'"
  obtains n where "loop v seen r = (if at (ws (advance n r)) \<noteq> CHR '','' then Inr ((v', seen'), ws (advance n r))
      else loop v' seen' (advance 1 (ws (advance n r))))" "drop n (rdRest r) = later"
proof -
  have r: "rdRest r = NL # pad (d + 1) @ esc key @ '': '' @ esc text @ later" using assms(1) by (simp add: member_def)
  obtain n where n: "read_key r = Inr (key, advance n r)" "drop n (rdRest r) = esc text @ later"
    by (rule read_key_member [OF r assms(2)])
  have "field key v seen (advance n r) = Inr ((v', seen'), advance (n + length (esc text)) r)"
    using assms(3) n(2) by (simp add: reads_def)
  moreover have "drop (n + length (esc text)) (rdRest r) = later" by (rule drop_more [OF n(2)])
  ultimately show ?thesis using that [of "n + length (esc text)"] n(1) by (simp add: loop_eq [of v seen r])
qed

lemma loop_ws: "loop v seen (ws r) = loop v seen r"
  by (simp add: loop_eq [of v seen "ws r"] loop_eq [of v seen r] read_key_def)

lemma next_member:
  assumes "rdRest r = member d key text @ '','' @ later" and "validUTF8 key" and "reads field key text v seen v' seen'"
  obtains n where "loop v seen r = loop v' seen' (advance n r)" "drop n (rdRest r) = later"
proof -
  obtain n where n: "loop v seen r = (if at (ws (advance n r)) \<noteq> CHR '','' then Inr ((v', seen'), ws (advance n r))
      else loop v' seen' (advance 1 (ws (advance n r))))" "drop n (rdRest r) = '','' @ later"
    by (rule one_member [OF assms])
  have "ws (advance n r) = advance n r" "at (advance n r) = CHR '',''"
    using n(2) not_ws by (auto intro: ws_none simp: at_def)
  moreover have "drop (n + 1) (rdRest r) = later" using drop_more [of n _ "'',''" later] n(2) by simp
  ultimately show ?thesis using that [of "n + 1"] n(1) by simp
qed

lemma last_member:
  assumes "rdRest r = member d key text @ NL # pad e @ ''}'' @ later" and "validUTF8 key" and "reads field key text v seen v' seen'"
  obtains n where "loop v seen r = Inr ((v', seen'), advance n r)" "drop n (rdRest r) = ''}'' @ later"
proof -
  obtain n where n: "loop v seen r = (if at (ws (advance n r)) \<noteq> CHR '','' then Inr ((v', seen'), ws (advance n r))
      else loop v' seen' (advance 1 (ws (advance n r))))" "drop n (rdRest r) = NL # pad e @ ''}'' @ later"
    by (rule one_member [OF assms])
  let ?m = "n + length (NL # pad e)"
  have w: "ws (advance n r) = advance ?m r"
    using ws_skips [of "advance n r" "NL # pad e" "CHR ''}''" later] n(2) is_ws_pad not_ws by simp
  have m: "drop ?m (rdRest r) = ''}'' @ later" using drop_more [of n _ "NL # pad e"] n(2) by simp
  then have "at (advance ?m r) = CHR ''}''" by (simp add: at_def)
  then show ?thesis using that [OF _ m] n(1) w by simp
qed

lemma all_members:
  "ms \<noteq> [] \<Longrightarrow> reads_all field ms v seen v' seen' \<Longrightarrow> rdRest r = layout d ms @ NL # pad e @ ''}'' @ later \<Longrightarrow>
   \<exists>n. loop v seen r = Inr ((v', seen'), advance n r) \<and> drop n (rdRest r) = ''}'' @ later"
proof (induction d ms arbitrary: v seen r rule: layout.induct)
  case (2 d key t)
  then show ?case using last_member [of r d key t e later v seen v' seen'] by auto
next
  case (3 d key t m ms)
  obtain v1 s1 where f: "validUTF8 key" "reads field key t v seen v1 s1" "reads_all field (m # ms) v1 s1 v' seen'"
    using 3(3) by auto
  have r: "rdRest r = member d key t @ '','' @ layout d (m # ms) @ NL # pad e @ ''}'' @ later" using 3(4) by simp
  obtain n where n: "loop v seen r = loop v1 s1 (advance n r)" "drop n (rdRest r) = layout d (m # ms) @ NL # pad e @ ''}'' @ later"
    by (rule next_member [OF r f(1,2)])
  have "rdRest (advance n r) = layout d (m # ms) @ NL # pad e @ ''}'' @ later" using n(2) by simp
  from 3(1) [OF _ f(3) this] obtain k where
    k: "loop v1 s1 (advance n r) = Inr ((v', seen'), advance k (advance n r))" "drop k (drop n (rdRest r)) = ''}'' @ later"
    by auto
  then show ?case using n(1) by (intro exI [of _ "n + k"]) (simp add: add.commute)
qed simp

end

interpretation requirement: member_loop requirement_field requirement_loop
  by unfold_locales (subst requirement_loop.simps, rule refl)

interpretation failure: member_loop failure_field failure_loop
  by unfold_locales (subst failure_loop.simps, rule refl)

subsection \<open>Properties\<close>

lemma apiKnown_cases: "apiKnown p \<longleftrightarrow> p \<in> set ProofValues"
  by (simp add: apiKnown_def WireName_def ProofValues_def)

lemma known_word:
  assumes "apiKnown p"
  shows "ParseProof (apiProof_String p) = (p, True)" and "validUTF8 (apiProof_String p)"
proof -
  have "\<forall>p \<in> set ProofValues. ParseProof (apiProof_String p) = (p, True) \<and> validUTF8 (apiProof_String p)" by code_simp
  then show "ParseProof (apiProof_String p) = (p, True)" "validUTF8 (apiProof_String p)"
    using assms by (auto simp: apiKnown_cases)
qed

lemma text_field_reads:
  assumes "rdRest r = esc text @ later" "validUTF8 text" "seen AND b = 0"
  shows "text_field b seen r = Inr ((text, seen OR b), advance (length (esc text)) r)"
  using str_esc [OF assms(1)] assms(2,3) by (simp add: text_field_def)

lemma word_field_reads:
  assumes "rdRest r = esc (apiProof_String p) @ later" "apiKnown p" "seen AND b = 0"
  shows "word_field b seen r = Inr ((p, seen OR b), advance (length (esc (apiProof_String p))) r)"
  using text_field_reads [OF assms(1) known_word(2) [OF assms(2)] assms(3)] known_word(1) [OF assms(2)]
  by (simp add: word_field_def)

lemma requirement_reads:
  assumes "apiKnown p"
  shows "seen AND 1 = 0 \<Longrightarrow> reads requirement_field ''user'' (apiProof_String p) v seen (v\<lparr>rqUser := p\<rparr>) (seen OR 1)"
    "seen AND 2 = 0 \<Longrightarrow> reads requirement_field ''process'' (apiProof_String p) v seen (v\<lparr>rqProcess := p\<rparr>) (seen OR 2)"
    "seen AND 4 = 0 \<Longrightarrow> reads requirement_field ''path'' (apiProof_String p) v seen (v\<lparr>rqPath := p\<rparr>) (seen OR 4)"
    "seen AND 8 = 0 \<Longrightarrow> reads requirement_field ''package'' (apiProof_String p) v seen (v\<lparr>rqPackage := p\<rparr>) (seen OR 8)"
    "seen AND 16 = 0 \<Longrightarrow> reads requirement_field ''code'' (apiProof_String p) v seen (v\<lparr>rqCode := p\<rparr>) (seen OR 16)"
  by (simp_all add: reads_def requirement_field_def word_field_reads assms)

lemma failure_reads:
  assumes "apiKnown p" and "validUTF8 t"
  shows "seen AND 1 = 0 \<Longrightarrow> reads failure_field ''attribute'' t v seen (v\<lparr>pfAttribute := t\<rparr>) (seen OR 1)"
    "seen AND 2 = 0 \<Longrightarrow> reads failure_field ''have'' (apiProof_String p) v seen (v\<lparr>pfHave := p\<rparr>) (seen OR 2)"
    "seen AND 4 = 0 \<Longrightarrow> reads failure_field ''need'' (apiProof_String p) v seen (v\<lparr>pfNeed := p\<rparr>) (seen OR 4)"
    "seen AND 8 = 0 \<Longrightarrow> reads failure_field ''why'' t v seen (v\<lparr>pfWhy := t\<rparr>) (seen OR 8)"
  by (simp_all add: reads_def failure_field_def word_field_reads text_field_reads assms)

lemma keys_valid:
  "validUTF8 ''user''" "validUTF8 ''process''" "validUTF8 ''path''" "validUTF8 ''package''" "validUTF8 ''code''"
  "validUTF8 ''attribute''" "validUTF8 ''have''" "validUTF8 ''need''" "validUTF8 ''why''"
  by code_simp+

text \<open>The reader of a record in its braces, around the member loop.\<close>

lemma opened:
  assumes "rdRest r = ''{'' @ NL # later" and "rdDepth r < 64"
  shows "at r = CHR ''{''" and "enter r = Inr (r\<lparr>rdDepth := rdDepth r + 1\<rparr>)"
    and "rdRest (advance 1 (r\<lparr>rdDepth := rdDepth r + 1\<rparr>)) = NL # later"
  using assms by (simp_all add: at_def enter_def depthLimit_def)

lemma member_starts: "\<exists>t. member d key text = NL # pad (d + 1) @ QUOTE # t"
  by (simp add: member_def esc_def)

lemma member_opens:
  assumes "rdRest r = member d key text @ later"
  shows "at (ws r) = QUOTE"
proof -
  obtain t where "rdRest r = (NL # pad (d + 1)) @ QUOTE # t" using assms member_starts [of d key "text"] by auto
  then have "ws r = advance (length (NL # pad (d + 1))) r" "rdRest (advance (length (NL # pad (d + 1))) r) = QUOTE # t"
    using ws_skips [OF _ is_ws_pad not_ws(1)] by (blast, simp)
  then show ?thesis by (simp add: at_def)
qed

lemma layout_opens: "ms \<noteq> [] \<Longrightarrow> rdRest r = layout d ms @ later \<Longrightarrow> at (ws r) = QUOTE"
  by (induction d ms rule: layout.induct) (auto intro: member_opens)

definition requirement_members :: "ProofRequirement \<Rightarrow> (string \<times> string) list" where
  "requirement_members v = [(''user'', apiProof_String (rqUser v)), (''process'', apiProof_String (rqProcess v)),
     (''path'', apiProof_String (rqPath v)), (''package'', apiProof_String (rqPackage v)), (''code'', apiProof_String (rqCode v))]"

definition failure_members :: "ProofFailure \<Rightarrow> (string \<times> string) list" where
  "failure_members v = [(''attribute'', pfAttribute v), (''have'', apiProof_String (pfHave v)),
     (''need'', apiProof_String (pfNeed v)), (''why'', pfWhy v)]"

lemma requirement_members_read:
  assumes "apiKnown (rqUser v)" "apiKnown (rqProcess v)" "apiKnown (rqPath v)" "apiKnown (rqPackage v)" "apiKnown (rqCode v)"
  shows "reads_all requirement_field (requirement_members v) z 0 v 31"
proof -
  let ?v = "z\<lparr>rqUser := rqUser v, rqProcess := rqProcess v, rqPath := rqPath v, rqPackage := rqPackage v, rqCode := rqCode v\<rparr>"
  note q = requirement_reads(1) [OF assms(1), of 0 z] requirement_reads(2) [OF assms(2), of 1 "z\<lparr>rqUser := rqUser v\<rparr>"]
    requirement_reads(3) [OF assms(3), of 3 "z\<lparr>rqUser := rqUser v, rqProcess := rqProcess v\<rparr>"]
    requirement_reads(4) [OF assms(4), of 7 "z\<lparr>rqUser := rqUser v, rqProcess := rqProcess v, rqPath := rqPath v\<rparr>"]
    requirement_reads(5) [OF assms(5), of 15 "z\<lparr>rqUser := rqUser v, rqProcess := rqProcess v, rqPath := rqPath v, rqPackage := rqPackage v\<rparr>"]
  have "reads_all requirement_field (requirement_members v) z 0 ?v 31"
    unfolding requirement_members_def reads_all.simps
    by (intro exI conjI keys_valid) (rule q [simplified], rule q [simplified], rule q [simplified], rule q [simplified], rule q [simplified], rule refl, rule refl)
  moreover have "?v = v" by (cases v, cases z) simp
  ultimately show ?thesis by simp
qed

lemma failure_members_read:
  assumes "apiKnown (pfHave v)" "apiKnown (pfNeed v)" "validUTF8 (pfAttribute v)" "validUTF8 (pfWhy v)"
  shows "reads_all failure_field (failure_members v) z 0 v 15"
proof -
  let ?v = "z\<lparr>pfAttribute := pfAttribute v, pfHave := pfHave v, pfNeed := pfNeed v, pfWhy := pfWhy v\<rparr>"
  note q = failure_reads(1) [OF assms(1,3), of 0 z] failure_reads(2) [OF assms(1,3), of 1 "z\<lparr>pfAttribute := pfAttribute v\<rparr>"]
    failure_reads(3) [OF assms(2,3), of 3 "z\<lparr>pfAttribute := pfAttribute v, pfHave := pfHave v\<rparr>"]
    failure_reads(4) [OF assms(1,4), of 7 "z\<lparr>pfAttribute := pfAttribute v, pfHave := pfHave v, pfNeed := pfNeed v\<rparr>"]
  have "reads_all failure_field (failure_members v) z 0 ?v 15"
    unfolding failure_members_def reads_all.simps
    by (intro exI conjI keys_valid) (rule q [simplified], rule q [simplified], rule q [simplified], rule q [simplified], rule refl, rule refl)
  moreover have "?v = v" by (cases v, cases z) simp
  ultimately show ?thesis by simp
qed

lemma decode_requirement_encoded:
  assumes "encProofRequirement v d = Inr s" and "rdRest r = s @ later" and "rdDepth r < 64"
  shows "\<exists>r'. decodeProofRequirement r = Inr (v, r') \<and> rdRest r' = later \<and> rdDepth r' = rdDepth r"
proof -
  have k: "apiKnown (rqUser v)" "apiKnown (rqProcess v)" "apiKnown (rqPath v)" "apiKnown (rqPackage v)" "apiKnown (rqCode v)"
    using assms(1) by (auto simp: encProofRequirement_def split: if_splits)
  let ?z = "\<lparr>rqUser = 0, rqProcess = 0, rqPath = 0, rqPackage = 0, rqCode = 0\<rparr>"
  let ?r0 = "advance 1 (r\<lparr>rdDepth := rdDepth r + 1\<rparr>)"
  have r: "rdRest r = CHR ''{'' # layout d (requirement_members v) @ NL # pad d @ ''}'' @ later"
    using assms(1,2) k by (auto simp: encProofRequirement_def requirement_members_def)
  then have r0: "rdRest ?r0 = layout d (requirement_members v) @ NL # pad d @ ''}'' @ later" by simp
  have ne: "requirement_members v \<noteq> []" by (simp add: requirement_members_def)
  obtain n where n: "requirement_loop ?z 0 ?r0 = Inr ((v, 31), advance n ?r0)" "drop n (rdRest ?r0) = ''}'' @ later"
    using requirement.all_members [OF ne requirement_members_read [OF k] r0] by blast
  have "at r = CHR ''{''" "enter r = Inr (r\<lparr>rdDepth := rdDepth r + 1\<rparr>)" "at (ws ?r0) = QUOTE" "at (advance n ?r0) = CHR ''}''"
    using r assms(3) layout_opens [OF ne r0] n(2) by (simp_all add: at_def enter_def depthLimit_def)
  then have "decodeProofRequirement r = Inr (v, (advance 1 (advance n ?r0))\<lparr>rdDepth := rdDepth (advance n ?r0) - 1\<rparr>)"
    using n(1) k unfolding decodeProofRequirement_def by (simp add: Let_def requirement.loop_ws)
  moreover have "rdRest (advance 1 (advance n ?r0)) = later" using drop_more [of n "rdRest ?r0" "''}''"] n(2) by simp
  ultimately show ?thesis by (simp add: advance_def)
qed

lemma decode_failure_encoded:
  assumes "encProofFailure v d = Inr s" and "rdRest r = s @ later" and "rdDepth r < 64" and "validUTF8 (pfAttribute v)" "validUTF8 (pfWhy v)"
  shows "\<exists>r'. decodeProofFailure r = Inr (v, r') \<and> rdRest r' = later \<and> rdDepth r' = rdDepth r"
proof -
  have k: "apiKnown (pfHave v)" "apiKnown (pfNeed v)" using assms(1) by (auto simp: encProofFailure_def split: if_splits)
  let ?z = "\<lparr>pfAttribute = [], pfHave = 0, pfNeed = 0, pfWhy = []\<rparr>"
  let ?r0 = "advance 1 (r\<lparr>rdDepth := rdDepth r + 1\<rparr>)"
  have r: "rdRest r = CHR ''{'' # layout d (failure_members v) @ NL # pad d @ ''}'' @ later"
    using assms(1,2) k by (auto simp: encProofFailure_def failure_members_def)
  then have r0: "rdRest ?r0 = layout d (failure_members v) @ NL # pad d @ ''}'' @ later" by simp
  have ne: "failure_members v \<noteq> []" by (simp add: failure_members_def)
  obtain n where n: "failure_loop ?z 0 ?r0 = Inr ((v, 15), advance n ?r0)" "drop n (rdRest ?r0) = ''}'' @ later"
    using failure.all_members [OF ne failure_members_read [OF k assms(4,5)] r0] by blast
  have "at r = CHR ''{''" "enter r = Inr (r\<lparr>rdDepth := rdDepth r + 1\<rparr>)" "at (ws ?r0) = QUOTE" "at (advance n ?r0) = CHR ''}''"
    using r assms(3) layout_opens [OF ne r0] n(2) by (simp_all add: at_def enter_def depthLimit_def)
  then have "decodeProofFailure r = Inr (v, (advance 1 (advance n ?r0))\<lparr>rdDepth := rdDepth (advance n ?r0) - 1\<rparr>)"
    using n(1) k unfolding decodeProofFailure_def by (simp add: Let_def failure.loop_ws)
  moreover have "rdRest (advance 1 (advance n ?r0)) = later" using drop_more [of n "rdRest ?r0" "''}''"] n(2) by simp
  ultimately show ?thesis by (simp add: advance_def)
qed

definition all_known :: "ProofRequirement \<Rightarrow> bool" where
  "all_known v = list_all apiKnown [rqUser v, rqProcess v, rqPath v, rqPackage v, rqCode v]"

lemma encode_known: "all_known v \<Longrightarrow> \<exists>s. encProofRequirement v d = Inr s"
  by (simp add: all_known_def encProofRequirement_def)

text \<open>
  C38: a requirement survives the wire. A requirement of five members of the vocabulary is written,
  and what is written is read back as that requirement, with nothing left over; a requirement with a
  value outside the vocabulary, the zero value included, is never written.
\<close>

theorem requirement_round_trip:
  "if all_known v then \<exists>s. Encode v = Inr s \<and> Decode s = Inr v else Encode v = Inl (Refusal ''bad_enum'' 0)"
proof (cases "all_known v")
  case True
  obtain s where s: "encProofRequirement v 0 = Inr s" using encode_known [OF True] by blast
  let ?r = "new_reader (s @ [NL])"
  have "hd s = CHR ''{''" "s \<noteq> []" using s by (auto simp: encProofRequirement_def split: if_splits)
  then have "ws ?r = ?r" using not_ws by (cases s) (auto intro!: ws_none simp: new_reader_def)
  moreover obtain r' where r': "decodeProofRequirement ?r = Inr (v, r')" "rdRest r' = [NL]"
    using decode_requirement_encoded [OF s, of ?r "[NL]"] by (auto simp: new_reader_def)
  moreover have "rdRest (ws r') = []" using r'(2) by (simp add: ws_def is_ws_def)
  ultimately have "Decode (s @ [NL]) = Inr v" by (simp add: Decode_def)
  moreover have "Encode v = Inr (s @ [NL])" using s by (simp add: Encode_def)
  ultimately show ?thesis using True by simp
next
  case False
  then show ?thesis by (auto simp: all_known_def Encode_def encProofRequirement_def)
qed

text \<open>
  A diagnostic refusal survives the wire. A failure whose two rungs are members of the vocabulary
  and whose texts are valid UTF-8, whatever characters they hold, is read back exactly wherever it stands in a buffer and at
  whatever indentation it was written, up to the depth limit, and reading stops right after it.
\<close>

theorem failure_round_trip:
  assumes "apiKnown (pfHave v)" "apiKnown (pfNeed v)" "validUTF8 (pfAttribute v)" "validUTF8 (pfWhy v)" and "rdDepth r < 64"
  shows "\<exists>s. encProofFailure v depth = Inr s \<and>
    (rdRest r = s @ later \<longrightarrow> (\<exists>r'. decodeProofFailure r = Inr (v, r') \<and> rdRest r' = later \<and> rdDepth r' = rdDepth r))"
proof -
  obtain s where s: "encProofFailure v depth = Inr s" using assms(1,2) by (simp add: encProofFailure_def)
  then show ?thesis using decode_failure_encoded [OF s _ assms(5,3,4)] by auto
qed

theorem failure_round_trip_witness:
  "\<exists>s r'. encProofFailure \<lparr>pfAttribute = ''path'', pfHave = 6, pfNeed = 7, pfWhy = [QUOTE]\<rparr> 1 = Inr s \<and>
     decodeProofFailure (new_reader (s @ ''!'')) = Inr (\<lparr>pfAttribute = ''path'', pfHave = 6, pfNeed = 7, pfWhy = [QUOTE]\<rparr>, r')"
proof -
  let ?v = "\<lparr>pfAttribute = ''path'', pfHave = 6, pfNeed = 7, pfWhy = [QUOTE]\<rparr>"
  have h: "apiKnown (pfHave ?v)" "apiKnown (pfNeed ?v)" by (simp_all add: apiKnown_def WireName_def)
  have u: "validUTF8 (pfAttribute ?v)" "validUTF8 (pfWhy ?v)" by code_simp+
  obtain s where s: "encProofFailure ?v 1 = Inr s" using h by (simp add: encProofFailure_def)
  have "rdDepth (new_reader (s @ ''!'')) < 64" "rdRest (new_reader (s @ ''!'')) = s @ ''!''" by (simp_all add: new_reader_def)
  with failure_round_trip [OF h u, of "new_reader (s @ ''!'')" 1 "''!''"] s show ?thesis by auto
qed

text \<open>
  The wire vocabulary is the native ladder. The word a native rung prints as is read as the
  member one above its number, for every rung of the ladder; what any other value prints as is no
  word of the vocabulary.
\<close>

theorem vocabulary_native:
  "ParseProof (Proof_String p) = (if p \<le> ProofSigned then (ucast p + 1, True) else (0, False))"
proof (cases "p < 9")
  case True
  then have "unat p < 9" by (simp add: word_less_nat_alt)
  moreover have "\<forall>n < 9. ParseProof (proofNames ! n) = (of_nat (n + 1), True)"
    by (simp add: All_less_Suc numeral_eq_Suc proofNames_def ParseProof_def)
  moreover have "(of_nat (unat p) :: 32 word) = ucast p" by simp
  moreover have "p \<le> ProofSigned" using True by (simp add: ProofSigned_def word_le_nat_alt word_less_nat_alt)
  ultimately show ?thesis using True by (simp add: Proof_String_cases add.commute)
next
  case False
  then show ?thesis by (simp add: Proof_String_cases ParseProof_def ProofSigned_def word_le_nat_alt word_less_nat_alt)
qed

end
