(* ===== verification/Json_Values.thy ===== *)
theory Json_Values
  imports Wire_Record "HOL-Library.Multiset" "HOL-Library.List_Lexorder" "HOL-Library.Char_ord"
begin

section \<open>Numbers, lists and opaque values (go/abstraction/identity/api/rec.go)\<close>

text \<open>
  The rest of the generated codec: 64-bit integers, string lists, and the opaque values a record
  carries without interpreting them. An opaque value is walked by \<^verbatim>\<open>skipValue\<close> and the loop of
  \<^verbatim>\<open>skipContainer\<close>, which call each other; \<open>fuel\<close> bounds the calls, and twice the unread bytes are
  always enough. A map is its association list, in whatever order Go's iteration gives.
\<close>

unbundle bit_operations_syntax

subsection \<open>Writing\<close>

function num_loop :: "64 word \<Rightarrow> string \<Rightarrow> string" where
  "num_loop u d = (if u = 0 then d else num_loop (u div 10) (char_of (48 + unat (u mod 10)) # d))"
  by pat_completeness auto
termination
proof (relation "measure (\<lambda>(u, d). unat u)", goal_cases)
  case (2 u d)
  then have "unat u \<noteq> 0" by (simp add: unat_eq_zero)
  then show ?case by (simp add: unat_div)
qed simp

declare num_loop.simps [simp del]

definition num :: "64 word \<Rightarrow> string" where
  "num n =
     (if n = 0 then ''0''
      else (let u = (if n <s 0 then - n else n)
            in (if n <s 0 then ''-'' else []) @ num_loop u []))"

definition Refusal_Error :: "refusal \<Rightarrow> string" where
  "Refusal_Error e = (case e of Refusal word offset \<Rightarrow> ''refused: '' @ word @ '' at byte '' @ num (of_nat offset))"

fun strs_items :: "nat \<Rightarrow> string list \<Rightarrow> string" where
  "strs_items depth [] = []"
| "strs_items depth [s] = pad (depth + 1) @ esc s @ [NL]"
| "strs_items depth (s # t # rest) = pad (depth + 1) @ esc s @ '','' @ [NL] @ strs_items depth (t # rest)"

definition strs :: "string list \<Rightarrow> nat \<Rightarrow> string" where
  "strs v depth = (if v = [] then ''[]'' else ''['' @ [NL] @ strs_items depth v @ pad depth @ '']'')"

text \<open>A quoted part of an opaque value after its opening quote; a slice past the end panics.\<close>

fun raw_string :: "string \<Rightarrow> (string \<times> string) option" where
  "raw_string [] = Some ([], [])"
| "raw_string (c # s) =
     (if c = BSLASH then
        (case s of
           [] \<Rightarrow> None
         | d # s' \<Rightarrow> (case raw_string s' of None \<Rightarrow> None | Some (t, u) \<Rightarrow> Some (c # d # t, u)))
      else if c = QUOTE then Some ([c], s)
      else (case raw_string s of None \<Rightarrow> None | Some (t, u) \<Rightarrow> Some (c # t, u)))"

lemma raw_string_shorter: "raw_string s = Some (t, u) \<Longrightarrow> length u \<le> length s"
  by (induction s arbitrary: t u rule: raw_string.induct) (fastforce split: if_splits list.splits option.splits)+

lemma dropWhile_shorter: "dropWhile P s = d # s' \<Longrightarrow> length s' < length s"
  using length_dropWhile_le [of P s] by simp

function raw :: "string \<Rightarrow> int \<Rightarrow> string option" where
  "raw [] depth = Some []"
| "raw (c # s) depth =
     (if is_ws c then raw s depth
      else if c = QUOTE then
        (case raw_string s of
           None \<Rightarrow> None
         | Some (t, u) \<Rightarrow> map_option (\<lambda>out. c # t @ out) (raw u depth))
      else if c = CHR ''{'' \<or> c = CHR ''['' then
        (case dropWhile is_ws s of
           d # s' \<Rightarrow>
             if d = CHR ''}'' \<or> d = CHR '']'' then map_option (\<lambda>out. c # d # out) (raw s' depth)
             else map_option (\<lambda>out. c # NL # pad (nat (depth + 1)) @ out) (raw s (depth + 1))
         | [] \<Rightarrow> map_option (\<lambda>out. c # NL # pad (nat (depth + 1)) @ out) (raw s (depth + 1)))
      else if c = CHR ''}'' \<or> c = CHR '']'' then
        map_option (\<lambda>out. NL # pad (nat (depth - 1)) @ c # out) (raw s (depth - 1))
      else if c = CHR '','' then map_option (\<lambda>out. c # NL # pad (nat depth) @ out) (raw s depth)
      else if c = CHR '':'' then map_option (\<lambda>out. c # CHR '' '' # out) (raw s depth)
      else map_option (\<lambda>out. c # out) (raw s depth))"
  by pat_completeness auto
termination
  by (relation "measure (\<lambda>(s, depth). length s)") (auto dest: raw_string_shorter dropWhile_shorter)

fun byteLess :: "string \<Rightarrow> string \<Rightarrow> bool" where
  "byteLess (a # as) (b # bs) = (if a \<noteq> b then ord a < ord b else byteLess as bs)"
| "byteLess [] bs = (bs \<noteq> [])"
| "byteLess (a # as) [] = False"

text \<open>One round of the insertion sort, over the sorted prefix read backwards.\<close>

fun sink :: "string \<Rightarrow> string list \<Rightarrow> string list" where
  "sink k [] = [k]"
| "sink k (x # xs) = (if byteLess k x then x # sink k xs else k # x # xs)"

definition sortedKeys :: "string list \<Rightarrow> string list" where
  "sortedKeys keys = rev (foldl (\<lambda>acc k. sink k acc) [] keys)"

fun rawmap_items :: "(string \<rightharpoonup> string) \<Rightarrow> nat \<Rightarrow> string list \<Rightarrow> string option" where
  "rawmap_items m depth [] = Some []"
| "rawmap_items m depth (k # ks) =
     (case raw (case m k of Some v \<Rightarrow> v | None \<Rightarrow> []) (int depth + 1) of
        None \<Rightarrow> None
      | Some v \<Rightarrow> map_option (\<lambda>out. pad (depth + 1) @ esc k @ '': '' @ v @ (if ks = [] then [] else '','') @ [NL] @ out)
                    (rawmap_items m depth ks))"

definition rawmap :: "(string \<times> string) list \<Rightarrow> nat \<Rightarrow> string option" where
  "rawmap m depth =
     (let keys = sortedKeys (map fst m) in
      if keys = [] then Some ''{}''
      else map_option (\<lambda>out. ''{'' @ [NL] @ out @ pad depth @ ''}'') (rawmap_items (map_of m) depth keys))"

subsection \<open>Reading numbers and literals\<close>

definition is_digit :: "char \<Rightarrow> bool" where "is_digit c = (48 \<le> ord c \<and> ord c \<le> 57)"

lemma at_digit: "is_digit (at r) \<Longrightarrow> rdRest r \<noteq> []"
  by (auto simp: is_digit_def at_def ord_def)

function digits_loop :: "64 word \<Rightarrow> reader \<Rightarrow> 64 word reading" where
  "digits_loop u r =
     (if is_digit (at r) then
        (if 922337203685477580 < u then Inl (refuse ''number_spelling'' r)
         else digits_loop (u * 10 + of_nat (ord (at r) - 48)) (advance 1 r))
      else Inr (u, r))"
  by pat_completeness auto
termination
  by (relation "measure (\<lambda>(u, r). length (rdRest r))") (auto dest: at_digit)

declare digits_loop.simps [simp del]

definition integer :: "64 word \<Rightarrow> 64 word \<Rightarrow> reader \<Rightarrow> 64 word reading" where
  "integer lo hi r =
     (let c = at r; neg = (c = CHR ''-'') in
      if \<not> neg \<and> \<not> is_digit c then Inl (refuse ''wrong_type'' r)
      else
        (let r = (if neg then advance 1 r else r); d = at r in
         if \<not> is_digit d then Inl (refuse ''malformed'' r)
         else (case (if d = CHR ''0'' then Inr (0, advance 1 r) else digits_loop 0 r) of
                 Inl e \<Rightarrow> Inl e
               | Inr (u, r) \<Rightarrow>
                   (let c = at r in
                    if c = CHR ''.'' \<or> c = CHR ''e'' \<or> c = CHR ''E'' \<or> is_digit c then Inl (refuse ''number_spelling'' r)
                    else if neg \<and> u = 0 then Inl (refuse ''number_spelling'' r)
                    else if \<not> (neg \<and> u = 2 ^ 63) \<and> 2 ^ 63 - 1 < u then Inl (refuse ''number_spelling'' r)
                    else (let n = (if neg then - u else u) in
                          if n <s lo \<or> hi <s n then Inl (refuse ''number_spelling'' r) else Inr (n, r))))))"

definition literal :: "string \<Rightarrow> reader \<Rightarrow> refusal + reader" where
  "literal word r =
     (if take (length word) (rdRest r) \<noteq> word then Inl (refuse ''malformed'' r) else Inr (advance (length word) r))"

definition boolean :: "reader \<Rightarrow> bool reading" where
  "boolean r =
     (if at r = CHR ''t'' then (case literal ''true'' r of Inl e \<Rightarrow> Inl e | Inr r' \<Rightarrow> Inr (True, r'))
      else if at r = CHR ''f'' then (case literal ''false'' r of Inl e \<Rightarrow> Inl e | Inr r' \<Rightarrow> Inr (False, r'))
      else Inl (refuse ''wrong_type'' r))"

subsection \<open>Reading string lists\<close>

function strList_loop :: "string list \<Rightarrow> reader \<Rightarrow> string list reading" where
  "strList_loop out r =
     (case str (ws r) of
        Inl e \<Rightarrow> Inl e
      | Inr (s, r1) \<Rightarrow>
          if at (ws r1) \<noteq> CHR '','' then Inr (out @ [s], ws r1)
          else strList_loop (out @ [s]) (advance 1 (ws r1)))"
  by pat_completeness auto
termination
proof (relation "measure (\<lambda>(out, r). length (rdRest r))", goal_cases)
  case (2 out r x s r1)
  then show ?case using str_shorter [of "ws r" s r1] ws_shorter [of r] ws_shorter [of r1] by (cases x) auto
qed simp

declare strList_loop.simps [simp del]

definition strList :: "reader \<Rightarrow> string list reading" where
  "strList r =
     (if at r \<noteq> CHR ''['' then Inl (refuse ''wrong_type'' r)
      else (case enter r of
              Inl e \<Rightarrow> Inl e
            | Inr r \<Rightarrow>
                (let r = ws (advance 1 r) in
                 case (if at r \<noteq> CHR '']'' then strList_loop [] r else Inr ([], r)) of
                   Inl e \<Rightarrow> Inl e
                 | Inr (out, r) \<Rightarrow>
                     if at r \<noteq> CHR '']'' then Inl (refuse ''malformed'' r)
                     else Inr (out, (advance 1 r)\<lparr>rdDepth := rdDepth r - 1\<rparr>))))"

subsection \<open>Walking opaque values\<close>

definition skip_digits :: "reader \<Rightarrow> reader" where
  "skip_digits r = advance (length (takeWhile is_digit (rdRest r))) r"

definition someDigits :: "reader \<Rightarrow> refusal + reader" where
  "someDigits r = (if is_digit (at r) then Inr (skip_digits r) else Inl (refuse ''number_spelling'' r))"

definition skip_fraction :: "reader \<Rightarrow> refusal + reader" where
  "skip_fraction r = (if at r = CHR ''.'' then someDigits (advance 1 r) else Inr r)"

definition skip_exponent :: "reader \<Rightarrow> refusal + reader" where
  "skip_exponent r =
     (if at r = CHR ''e'' \<or> at r = CHR ''E''
      then (let r = advance 1 r in someDigits (if at r = CHR ''+'' \<or> at r = CHR ''-'' then advance 1 r else r))
      else Inr r)"

definition skipNumber :: "reader \<Rightarrow> refusal + reader" where
  "skipNumber r0 =
     (let r = (if at r0 = CHR ''-'' then advance 1 r0 else r0) in
      case (if at r = CHR ''0'' then Inr (advance 1 r)
            else if is_digit (at r) then Inr (skip_digits r)
            else Inl (refuse ''number_spelling'' r)) of
        Inl e \<Rightarrow> Inl e
      | Inr r1 \<Rightarrow> (case skip_fraction r1 of Inl e \<Rightarrow> Inl e | Inr r2 \<Rightarrow> skip_exponent r2))"

definition skipString :: "reader \<Rightarrow> refusal + reader" where
  "skipString r = (case str r of Inl e \<Rightarrow> Inl e | Inr (_, r') \<Rightarrow> Inr r')"

text \<open>The key of a container's item, and the colon after it; an array's item has none.\<close>

definition item_key :: "char \<Rightarrow> string list \<Rightarrow> reader \<Rightarrow> string list reading" where
  "item_key op seen r =
     (if op = CHR ''{'' then
        (if at r \<noteq> QUOTE then Inl (refuse ''malformed'' r)
         else (case str r of
                 Inl e \<Rightarrow> Inl e
               | Inr (k, r) \<Rightarrow>
                   if k \<in> set seen then Inl (refuse ''duplicate_key'' r)
                   else (let r = ws r in
                         if at r \<noteq> CHR '':'' then Inl (refuse ''malformed'' r)
                         else Inr (k # seen, ws (advance 1 r)))))
      else Inr (seen, r))"

fun skipValue :: "nat \<Rightarrow> reader \<Rightarrow> (refusal + reader) option"
  and skip_items :: "nat \<Rightarrow> char \<Rightarrow> string list \<Rightarrow> reader \<Rightarrow> (refusal + reader) option" where
  "skipValue 0 r = None"
| "skipValue (Suc fuel) r =
     (let c = at r in
      if c = QUOTE then Some (skipString r)
      else if c = CHR ''{'' \<or> c = CHR ''['' then
        (let shut = (if c = CHR ''['' then CHR '']'' else CHR ''}'') in
         case enter r of
           Inl e \<Rightarrow> Some (Inl e)
         | Inr r1 \<Rightarrow>
             (let r2 = ws (advance 1 r1) in
              case (if at r2 \<noteq> shut then skip_items fuel c [] r2 else Some (Inr r2)) of
                None \<Rightarrow> None
              | Some (Inl e) \<Rightarrow> Some (Inl e)
              | Some (Inr r3) \<Rightarrow>
                  Some (if at r3 \<noteq> shut then Inl (refuse ''malformed'' r3)
                        else Inr ((advance 1 r3)\<lparr>rdDepth := rdDepth r3 - 1\<rparr>))))
      else if c = CHR ''t'' then Some (literal ''true'' r)
      else if c = CHR ''f'' then Some (literal ''false'' r)
      else if c = CHR ''n'' then Some (literal ''null'' r)
      else if c = CHR ''-'' \<or> is_digit c then Some (skipNumber r)
      else Some (Inl (refuse ''malformed'' r)))"
| "skip_items 0 op seen r = None"
| "skip_items (Suc fuel) op seen r =
     (case item_key op seen (ws r) of
        Inl e \<Rightarrow> Some (Inl e)
      | Inr (seen', r1) \<Rightarrow>
          (case skipValue fuel r1 of
             None \<Rightarrow> None
           | Some (Inl e) \<Rightarrow> Some (Inl e)
           | Some (Inr r2) \<Rightarrow>
               if at (ws r2) \<noteq> CHR '','' then Some (Inr (ws r2))
               else skip_items fuel op seen' (advance 1 (ws r2))))"

definition enough :: "reader \<Rightarrow> nat" where "enough r = 2 * length (rdRest r) + 1"

definition rawValue :: "reader \<Rightarrow> (string reading) option" where
  "rawValue r =
     (case skipValue (enough r) r of
        None \<Rightarrow> None
      | Some (Inl e) \<Rightarrow> Some (Inl e)
      | Some (Inr r') \<Rightarrow> Some (Inr (take (rdPos r' - rdPos r) (rdRest r), r')))"

text \<open>The order two refusals are chosen between.\<close>

definition refusals :: "string list" where
  "refusals = [''malformed'', ''bad_string'', ''number_spelling'', ''wrong_type'', ''depth_exceeded'', ''duplicate_key'',
     ''duplicate_field'', ''unknown_field'', ''missing_field'', ''bad_enum'', ''trailing_bytes'']"

definition refusalRank :: "string \<Rightarrow> int" where
  "refusalRank word = (case List.find (\<lambda>(i, w). w = word) (List.enumerate 0 refusals) of None \<Rightarrow> -1 | Some (i, _) \<Rightarrow> int i)"

subsection \<open>Opaque values are walked to their end\<close>

lemma advance_shorter: "length (rdRest (advance n r)) \<le> length (rdRest r)"
  by simp

lemma advance_1_shorter: "rdRest r \<noteq> [] \<Longrightarrow> length (rdRest (advance 1 r)) < length (rdRest r)"
  by simp

lemma at_nonempty: "at r \<noteq> CHR 0x00 \<Longrightarrow> rdRest r \<noteq> []"
  by (auto simp: at_def)

lemma literal_shorter: "literal w r = Inr r' \<Longrightarrow> w \<noteq> [] \<Longrightarrow> length (rdRest r') < length (rdRest r)"
  by (cases "rdRest r") (auto simp: literal_def split: if_splits)

lemma skipString_shorter: "skipString r = Inr r' \<Longrightarrow> length (rdRest r') < length (rdRest r)"
  by (auto simp: skipString_def split: sum.splits dest: str_shorter)

lemma skip_digits_shorter: "length (rdRest (skip_digits r)) \<le> length (rdRest r)" "is_digit (at r) \<Longrightarrow> length (rdRest (skip_digits r)) < length (rdRest r)"
  using at_digit [of r] by (cases "rdRest r"; auto simp: skip_digits_def at_def)+

lemma someDigits_shorter: "someDigits r = Inr r' \<Longrightarrow> length (rdRest r') \<le> length (rdRest r)"
  using skip_digits_shorter(1) by (auto simp: someDigits_def split: if_splits)

lemma skip_fraction_shorter: "skip_fraction r = Inr r' \<Longrightarrow> length (rdRest r') \<le> length (rdRest r)"
  by (fastforce simp: skip_fraction_def split: if_splits dest: someDigits_shorter)

lemma skip_exponent_shorter: "skip_exponent r = Inr r' \<Longrightarrow> length (rdRest r') \<le> length (rdRest r)"
  by (fastforce simp: skip_exponent_def Let_def split: if_splits dest: someDigits_shorter)

lemma skipNumber_shorter: "skipNumber r = Inr r' \<Longrightarrow> length (rdRest r') < length (rdRest r)"
proof -
  assume a: "skipNumber r = Inr r'"
  let ?r = "if at r = CHR ''-'' then advance 1 r else r"
  have "length (rdRest ?r) \<le> length (rdRest r)" by simp
  moreover obtain r1 r2 where "(if at ?r = CHR ''0'' then Inr (advance 1 ?r) else if is_digit (at ?r) then Inr (skip_digits ?r)
      else Inl (refuse ''number_spelling'' ?r)) = Inr r1" "skip_fraction r1 = Inr r2" "skip_exponent r2 = Inr r'"
    using a by (auto simp: skipNumber_def Let_def split: sum.splits)
  moreover have "length (rdRest r1) < length (rdRest ?r)"
    using calculation(2) skip_digits_shorter(2) [of ?r] at_nonempty [of ?r] advance_1_shorter [of ?r] by (auto split: if_splits)
  ultimately show ?thesis using skip_fraction_shorter [of r1 r2] skip_exponent_shorter [of r2 r'] by linarith
qed

lemma item_key_shorter: "item_key op seen r = Inr (s, r') \<Longrightarrow> length (rdRest r') \<le> length (rdRest r)"
proof -
  assume a: "item_key op seen r = Inr (s, r')"
  show ?thesis
  proof (cases "op = CHR ''{''")
    case True
    then obtain k r1 where "str r = Inr (k, r1)" "r' = ws (advance 1 (ws r1))"
      using a by (auto simp: item_key_def Let_def split: if_splits sum.splits)
    then show ?thesis using str_shorter [of r k r1] ws_shorter [of r1] ws_shorter [of "advance 1 (ws r1)"] by simp
  qed (use a in \<open>simp add: item_key_def\<close>)
qed

lemma enter_rest: "enter r = Inr r1 \<Longrightarrow> rdRest r1 = rdRest r"
  by (auto simp: enter_def Let_def split: if_splits)

lemma skip_shorter:
  "skipValue f r = Some (Inr r') \<Longrightarrow> length (rdRest r') < length (rdRest r)"
  "skip_items f op seen r = Some (Inr r') \<Longrightarrow> length (rdRest r') \<le> length (rdRest r)"
proof (induction f r and f op seen r arbitrary: r' and r' rule: skipValue_skip_items.induct)
  case (2 f r)
  show ?case
  proof (cases "at r = CHR ''{'' \<or> at r = CHR ''[''")
    case True
    then obtain r1 where e: "enter r = Inr r1" using 2(2) by (auto simp: Let_def split: sum.splits)
    let ?shut = "if at r = CHR ''['' then CHR '']'' else CHR ''}''" and ?r2 = "ws (advance 1 r1)"
    obtain r3 where r3: "(if at ?r2 \<noteq> ?shut then skip_items f (at r) [] ?r2 else Some (Inr ?r2)) = Some (Inr r3)"
        "r' = (advance 1 r3)\<lparr>rdDepth := rdDepth r3 - 1\<rparr>"
      using 2(2) True e by (auto simp: Let_def split: option.splits sum.splits if_splits)
    have "length (rdRest r3) \<le> length (rdRest ?r2)" using r3(1) 2(1) [OF refl _ True refl e refl] True by (auto split: if_splits)
    moreover have "length (rdRest ?r2) < length (rdRest r)"
      using ws_shorter [of "advance 1 r1"] at_nonempty [of r] True enter_rest [OF e] by (cases "rdRest r") auto
    ultimately show ?thesis using r3(2) by simp
  next
    case False
    then show ?thesis
      using 2(2) skipString_shorter literal_shorter skipNumber_shorter by (auto simp: Let_def split: if_splits)
  qed
next
  case (4 f op seen r)
  obtain s1 r1 r2 where k: "item_key op seen (ws r) = Inr (s1, r1)" "skipValue f r1 = Some (Inr r2)"
      "(if at (ws r2) \<noteq> CHR '','' then Some (Inr (ws r2)) else skip_items f op s1 (advance 1 (ws r2))) = Some (Inr r')"
    using 4(3) by (auto split: sum.splits option.splits prod.splits if_splits)
  have "length (rdRest r2) < length (rdRest r1)" using 4(1) [OF k(1) refl k(2)] .
  moreover have "length (rdRest r') \<le> length (rdRest r2)"
    using k(3) 4(2) [OF k(1) refl k(2) refl] ws_shorter [of r2] by (auto split: if_splits)
  ultimately show ?case using item_key_shorter [OF k(1)] ws_shorter [of r] by simp
qed simp_all

lemma skip_enough:
  "2 * length (rdRest r) + 1 \<le> f \<Longrightarrow> skipValue f r \<noteq> None"
  "2 * length (rdRest r) + 2 \<le> f \<Longrightarrow> skip_items f op seen r \<noteq> None"
proof (induction f r and f op seen r rule: skipValue_skip_items.induct)
  case (2 f r)
  show ?case
  proof (cases "at r = CHR ''{'' \<or> at r = CHR ''[''")
    case True
    show ?thesis
    proof (cases "enter r")
      case (Inr r1)
      let ?r2 = "ws (advance 1 r1)"
      have "length (rdRest ?r2) < length (rdRest r)"
        using ws_shorter [of "advance 1 r1"] at_nonempty [of r] True enter_rest [OF Inr] by (cases "rdRest r") auto
      then have "at ?r2 \<noteq> (if at r = CHR ''['' then CHR '']'' else CHR ''}'') \<longrightarrow> skip_items f (at r) [] ?r2 \<noteq> None"
        using 2(1) [OF refl _ True refl Inr refl] True 2(2) by auto
      then show ?thesis using True Inr by (auto simp: Let_def split: option.splits sum.splits)
    qed (use True in auto)
  qed (auto simp: Let_def)
next
  case (4 f op seen r)
  show ?case
  proof (cases "item_key op seen (ws r)")
    case (Inr x)
    obtain s1 r1 where x: "x = (s1, r1)" by (cases x)
    have l: "length (rdRest r1) \<le> length (rdRest r)" using item_key_shorter [of op seen "ws r" s1 r1] Inr x ws_shorter [of r] by simp
    obtain v where v: "skipValue f r1 = Some v" using 4(1) [OF Inr x [symmetric]] 4(3) l by auto
    have "skip_items f op s1 (advance 1 (ws r2)) \<noteq> None" if "v = Inr r2" "at (ws r2) = CHR '',''" for r2
    proof -
      have "length (rdRest (advance 1 (ws r2))) < length (rdRest r1)"
        using skip_shorter(1) [of f r1 r2] v that ws_shorter [of r2] by simp
      then show ?thesis using 4(2) [OF Inr x [symmetric] v that(1)] that(2) 4(3) l by auto
    qed
    then show ?thesis using Inr x v by (cases v) auto
  qed simp
qed simp_all

lemma skip_more:
  "skipValue f r \<noteq> None \<Longrightarrow> skipValue (Suc f) r = skipValue f r"
  "skip_items f op seen r \<noteq> None \<Longrightarrow> skip_items (Suc f) op seen r = skip_items f op seen r"
proof (induction f r and f op seen r rule: skipValue_skip_items.induct)
  case (2 f r)
  show ?case
  proof (cases "at r = CHR ''{'' \<or> at r = CHR ''[''")
    case True
    show ?thesis
    proof (cases "enter r")
      case (Inr r1)
      let ?r2 = "ws (advance 1 r1)" and ?shut = "if at r = CHR ''['' then CHR '']'' else CHR ''}''"
      have "at ?r2 \<noteq> ?shut \<longrightarrow> skip_items (Suc f) (at r) [] ?r2 = skip_items f (at r) [] ?r2"
        using 2(1) [OF refl _ True refl Inr refl] 2(2) True Inr by (auto simp: Let_def split: option.splits)
      then show ?thesis using True Inr by (auto simp: Let_def simp del: skip_items.simps)
    qed (use True in auto)
  qed (auto simp: Let_def)
next
  case (4 f op seen r)
  show ?case
  proof (cases "item_key op seen (ws r)")
    case (Inr x)
    obtain s1 r1 where x: "x = (s1, r1)" by (cases x)
    then obtain v where v: "skipValue f r1 = Some v" using 4(3) Inr by (cases "skipValue f r1") auto
    have "skipValue (Suc f) r1 = Some v" using 4(1) [OF Inr x [symmetric]] v by simp
    moreover have "skip_items (Suc f) op s1 (advance 1 (ws r2)) = skip_items f op s1 (advance 1 (ws r2))"
      if "v = Inr r2" "at (ws r2) = CHR '',''" for r2
      using 4(2) [OF Inr x [symmetric] v that(1)] 4(3) Inr x v that by auto
    ultimately show ?thesis using Inr x v by (cases v) (auto simp del: skipValue.simps)
  qed simp
qed simp_all

subsection \<open>Opaque maps\<close>

text \<open>With enough fuel skipping a value is a total function, and it moves the reader on.\<close>

lemma skip_fuel: "skipValue (enough r + k) r = skipValue (enough r) r"
proof (induction k)
  case (Suc k)
  have "skipValue (enough r + k) r \<noteq> None" by (rule skip_enough(1)) (simp add: enough_def)
  then show ?case using Suc skip_more(1) by simp
qed simp

lemma rawValue_shorter: "rawValue r = Some (Inr (v, r')) \<Longrightarrow> length (rdRest r') < length (rdRest r)"
  by (auto simp: rawValue_def split: option.splits sum.splits dest: skip_shorter(1))

lemma rawValue_returns: "rawValue r \<noteq> None"
  using skip_enough(1) [of r "enough r"] by (auto simp: rawValue_def enough_def split: option.splits sum.splits)

function rawMap_loop :: "(string \<times> string) list \<Rightarrow> reader \<Rightarrow> ((string \<times> string) list reading) option" where
  "rawMap_loop out r =
     (case item_key CHR ''{'' (map fst out) (ws r) of
        Inl e \<Rightarrow> Some (Inl e)
      | Inr (seen, r1) \<Rightarrow>
          (case rawValue r1 of
             None \<Rightarrow> None
           | Some (Inl e) \<Rightarrow> Some (Inl e)
           | Some (Inr (v, r2)) \<Rightarrow>
               if at (ws r2) \<noteq> CHR '','' then Some (Inr ((hd seen, v) # out, ws r2))
               else rawMap_loop ((hd seen, v) # out) (advance 1 (ws r2))))"
  by pat_completeness auto
termination
proof (relation "measure (\<lambda>(out, r). length (rdRest r))", goal_cases)
  case (2 out r x seen r1 y z v r2)
  then show ?case
    using item_key_shorter [of "CHR ''{''" "map fst out" "ws r" seen r1] ws_shorter [of r] rawValue_shorter [of r1 v r2] ws_shorter [of r2] by auto
qed simp

declare rawMap_loop.simps [simp del]

definition rawMap :: "reader \<Rightarrow> ((string \<times> string) list reading) option" where
  "rawMap r =
     (if at r \<noteq> CHR ''{'' then Some (Inl (refuse ''wrong_type'' r))
      else (case enter r of
              Inl e \<Rightarrow> Some (Inl e)
            | Inr r \<Rightarrow>
                (let r = ws (advance 1 r) in
                 case (if at r \<noteq> CHR ''}'' then rawMap_loop [] r else Some (Inr ([], r))) of
                   None \<Rightarrow> None
                 | Some (Inl e) \<Rightarrow> Some (Inl e)
                 | Some (Inr (out, r)) \<Rightarrow>
                     Some (if at r \<noteq> CHR ''}'' then Inl (refuse ''malformed'' r)
                           else Inr (out, (advance 1 r)\<lparr>rdDepth := rdDepth r - 1\<rparr>)))))"

lemma rawMap_loop_returns: "rawMap_loop out r \<noteq> None"
proof (induction out r rule: rawMap_loop.induct)
  case (1 out r)
  then show ?case by (subst rawMap_loop.simps) (auto simp: rawValue_returns split: sum.splits option.splits)
qed

text \<open>The encoder's order on keys is the lexicographic order on their bytes, and its exchanges sort by it.\<close>

lemma byteLess_less: "byteLess a b \<longleftrightarrow> a < b"
proof (induction a b rule: byteLess.induct)
  case (2 bs)
  then show ?case by (cases bs) auto
qed (auto simp: less_char_def ord_def)

lemma mset_sink: "mset (sink k xs) = add_mset k (mset xs)"
  by (induction xs) auto

lemma sorted_sink: "sorted (rev xs) \<Longrightarrow> sorted (rev (sink k xs))"
proof (induction xs)
  case (Cons x xs)
  have "set (sink k xs) = insert k (set xs)" using mset_sink [of k xs] by (metis set_mset_add_mset_insert set_mset_mset)
  then show ?case using Cons by (auto simp: byteLess_less sorted_append)
qed simp

lemma sortedKeys_sort: "sortedKeys keys = sort keys"
proof -
  have "mset (foldl (\<lambda>acc k. sink k acc) acc keys) = mset acc + mset keys \<and>
      (sorted (rev acc) \<longrightarrow> sorted (rev (foldl (\<lambda>acc k. sink k acc) acc keys)))" for acc
  proof (induction keys arbitrary: acc)
    case (Cons k keys)
    then show ?case using sorted_sink [of acc k] by (simp add: mset_sink)
  qed simp
  from this [of "[]"] show ?thesis unfolding sortedKeys_def by (intro properties_for_sort [symmetric]) simp_all
qed

text \<open>
  What an opaque map is written as does not depend on the order the map is iterated in. Two
  listings of the same map, each key once, are written byte for byte alike.
\<close>
theorem rawmap_order_independent:
  assumes "distinct (map fst m)" "distinct (map fst m')" "map_of m = map_of m'"
  shows "rawmap m depth = rawmap m' depth"
proof -
  have "set (map fst m) = set (map fst m')" using assms(3) by (metis dom_map_of_conv_image_fst list.set_map)
  then have "mset (map fst m) = mset (map fst m')" using assms(1,2) set_eq_iff_mset_eq_distinct by blast
  then have "sortedKeys (map fst m) = sortedKeys (map fst m')"
    unfolding sortedKeys_sort by (intro properties_for_sort) simp_all
  then show ?thesis by (simp only: rawmap_def assms(3))
qed

theorem rawmap_order_independent_witness:
  "rawmap [(''b'', ''1''), (''a'', ''[ ]'')] 0 = rawmap [(''a'', ''[ ]''), (''b'', ''1'')] 0"
  by (rule rawmap_order_independent) auto

text \<open>
  Reading an opaque value always comes back. Whatever the bytes are, the mutual recursion of
  value and container settles within twice the unread bytes of calls: more fuel never changes the
  answer. When the value is accepted the reader has moved on, so the loop over a map's members
  comes back as well.
\<close>
theorem skipValue_terminates:
  "\<exists>x. (\<forall>k. skipValue (enough r + k) r = Some x) \<and> (case x of Inl _ \<Rightarrow> True | Inr r' \<Rightarrow> length (rdRest r') < length (rdRest r))
     \<and> rawMap r \<noteq> None"
proof -
  obtain x where x: "skipValue (enough r) r = Some x" using skip_enough(1) [of r "enough r"] by (auto simp: enough_def)
  moreover have "case x of Inl _ \<Rightarrow> True | Inr r' \<Rightarrow> length (rdRest r') < length (rdRest r)"
    using x skip_shorter(1) by (auto split: sum.splits)
  moreover have "rawMap r \<noteq> None" by (auto simp: rawMap_def Let_def rawMap_loop_returns split: sum.splits option.splits)
  ultimately show ?thesis using skip_fuel by auto
qed

subsection \<open>Numbers\<close>

definition digits_from :: "nat \<Rightarrow> string \<Rightarrow> nat" where
  "digits_from a ds = foldl (\<lambda>n c. n * 10 + (ord c - 48)) a ds"

lemma digits_from_simps [simp]:
  "digits_from a [] = a" "digits_from a (c # ds) = digits_from (a * 10 + (ord c - 48)) ds"
  "digits_from a (ds @ [c]) = digits_from a ds * 10 + (ord c - 48)"
  by (simp_all add: digits_from_def)

lemma digits_from_ge: "a * 10 ^ length ds \<le> digits_from a ds"
proof (induction ds arbitrary: a)
  case (Cons c ds)
  have "a * 10 ^ length (c # ds) \<le> (a * 10 + (ord c - 48)) * 10 ^ length ds" by (simp add: algebra_simps)
  also have "\<dots> \<le> digits_from (a * 10 + (ord c - 48)) ds" by (rule Cons)
  finally show ?case by (simp only: digits_from_simps)
qed simp

lemma digits_from_utoa: "digits_from 0 (utoa n) = n"
proof -
  have "digits_from 0 (utoa n) = digits_value (utoa n)" by (simp add: digits_from_def digits_value_def ord_def mult.commute)
  then show ?thesis by simp
qed

lemma digit_char_digit: "d < 10 \<Longrightarrow> is_digit (digit_char d) \<and> ord (digit_char d) = 48 + d"
  by (simp add: is_digit_def digit_char_def)

lemma utoa_digits: "list_all is_digit (utoa n)"
proof (induction n rule: utoa.induct)
  case (1 n)
  then show ?case by (subst utoa.simps) (auto simp: digit_char_digit)
qed

lemma utoa_zero: "utoa 0 = ''0''"
  by (simp add: utoa.simps digit_char_def) code_simp

lemma utoa_hd: "0 < n \<Longrightarrow> hd (utoa n) \<noteq> CHR ''0''"
proof (induction n rule: utoa.induct)
  case (1 n)
  have z: "ord (CHR ''0'') = 48" by code_simp
  show ?case
  proof (cases "n < 10")
    case True
    then show ?thesis using 1(2) digit_char_digit [of n] z by (subst utoa.simps) auto
  next
    case False
    then show ?thesis using 1(1) by (subst utoa.simps) simp
  qed
qed

lemma utoa_digits_from:
  "list_all is_digit ds \<Longrightarrow> ds \<noteq> [] \<Longrightarrow> hd ds \<noteq> CHR ''0'' \<Longrightarrow> utoa (digits_from 0 ds) = ds \<and> 0 < digits_from 0 ds"
proof (induction ds rule: rev_induct)
  case (snoc c ds)
  define d where "d = ord c - 48"
  have "is_digit c" using snoc.prems by simp
  then have d: "d < 10" "digit_char d = c" using char_of_ord [of c] by (auto simp: d_def is_digit_def digit_char_def)
  show ?case
  proof (cases "ds = []")
    case True
    have "digit_char 0 = CHR ''0''" by code_simp
    moreover have "c \<noteq> CHR ''0''" using snoc.prems True by simp
    ultimately have "0 < d" using d(2) by (cases "d = 0") auto
    then show ?thesis using True d by (simp add: d_def [symmetric]) (subst utoa.simps, simp)
  next
    case False
    then have u: "utoa (digits_from 0 ds) = ds" "0 < digits_from 0 ds" using snoc by auto
    then have "\<not> digits_from 0 ds * 10 + d < 10" by simp
    moreover have "(digits_from 0 ds * 10 + d) div 10 = digits_from 0 ds" "(digits_from 0 ds * 10 + d) mod 10 = d" using d by simp_all
    ultimately show ?thesis using u d by (simp add: d_def [symmetric]) (subst utoa.simps, simp)
  qed
qed simp

lemma num_loop_utoa: "u \<noteq> 0 \<Longrightarrow> num_loop u d = utoa (unat u) @ d"
proof (induction u d rule: num_loop.induct)
  case (1 u d)
  have q: "unat (u div 10) = unat u div 10" "unat (u mod 10) = unat u mod 10" by (simp_all add: unat_div unat_mod)
  show ?case
  proof (cases "u div 10 = 0")
    case True
    then have "unat u div 10 = 0" using q(1) by simp
    then have "unat u < 10" by simp
    then show ?thesis using 1(2) True q by (simp add: num_loop.simps [of u] num_loop.simps [of 0] utoa.simps [of "unat u"] digit_char_def)
  next
    case False
    then have "\<not> unat u < 10" using q(1) by (metis div_less unsigned_eq_0_iff)
    then show ?thesis using 1 False q by (simp add: num_loop.simps [of u] utoa.simps [of "unat u"] digit_char_def)
  qed
qed

lemma sless_zero: "(n :: 64 word) <s 0 \<longleftrightarrow> 2 ^ 63 \<le> unat n"
proof -
  have b: "bit (unat n) 63 = bit n 63" by (simp only: bit_unsigned_iff) simp
  have "n <s 0 \<longleftrightarrow> bit n 63" using bit_last_iff [of n] by (simp add: word_sless_alt)
  also have "\<dots> \<longleftrightarrow> odd (unat n div 2 ^ 63)" by (simp only: b [symmetric] bit_iff_odd [of "unat n"])
  also have "\<dots> \<longleftrightarrow> 2 ^ 63 \<le> unat n"
  proof -
    have "unat n < 2 ^ 64" using unsigned_less [of n] by simp
    then have "unat n div 2 ^ 63 < 2" by (simp add: less_mult_imp_div_less)
    then have "odd (unat n div 2 ^ 63) \<longleftrightarrow> unat n div 2 ^ 63 = 1" by (auto simp: less_2_cases_iff)
    also have "\<dots> \<longleftrightarrow> 2 ^ 63 \<le> unat n" using \<open>unat n div 2 ^ 63 < 2\<close> by (auto simp: div_eq_0_iff less_2_cases_iff not_less)
    finally show ?thesis .
  qed
  finally show ?thesis .
qed

text \<open>The guard inside the loop keeps the accumulator below \<^term>\<open>2 ^ 64 :: nat\<close>, so no digit wraps it.\<close>

lemma digit_step:
  assumes "\<not> 922337203685477580 < (u :: 64 word)" "is_digit c"
  shows "unat (u * 10 + of_nat (ord c - 48)) = unat u * 10 + (ord c - 48)"
proof -
  have u: "unat u \<le> 922337203685477580" using assms(1) by (simp add: not_less word_le_nat_alt)
  have d: "ord c - 48 \<le> 9" using assms(2) unfolding is_digit_def by linarith
  have e: "unat (of_nat (ord c - 48) :: 64 word) = ord c - 48" using d by (simp add: unat_of_nat)
  have m: "unat (u * 10) = unat u * 10" using u by (simp add: unat_word_ariths)
  show ?thesis using u d by (simp add: unat_word_ariths(1) m e)
qed

lemma digits_loop_sound:
  "digits_loop u r = Inr (w, r') \<Longrightarrow>
     \<exists>ds. list_all is_digit ds \<and> rdRest r = ds @ rdRest r' \<and> r' = advance (length ds) r \<and> \<not> is_digit (at r') \<and> unat w = digits_from (unat u) ds"
proof (induction u r rule: digits_loop.induct)
  case (1 u r)
  show ?case
  proof (cases "is_digit (at r)")
    case False
    then show ?thesis using 1(2) by (subst (asm) digits_loop.simps) (auto intro: exI [of _ "[]"])
  next
    case True
    then have g: "\<not> 922337203685477580 < u" using 1(2) by (subst (asm) digits_loop.simps) (auto split: if_splits)
    then have "digits_loop (u * 10 + of_nat (ord (at r) - 48)) (advance 1 r) = Inr (w, r')"
      using 1(2) True by (subst (asm) digits_loop.simps) simp
    from 1(1) [OF True g this] obtain ds where ds: "list_all is_digit ds" "drop 1 (rdRest r) = ds @ rdRest r'"
      "r' = advance (length ds) (advance 1 r)" "\<not> is_digit (at r')"
      "unat w = digits_from (unat u * 10 + (ord (at r) - 48)) ds"
      using digit_step [OF g True] by auto
    obtain cs where "rdRest r = at r # cs" using at_digit [OF True] by (cases "rdRest r") (auto simp: at_def)
    then show ?thesis using ds True by (intro exI [of _ "at r # ds"]) simp
  qed
qed

lemma digits_loop_complete:
  assumes "list_all is_digit ds" "rdRest r = ds @ cs" "\<not> is_digit (at (advance (length ds) r))" "digits_from (unat u) ds \<le> 2 ^ 63"
  shows "\<exists>w. digits_loop u r = Inr (w, advance (length ds) r) \<and> unat w = digits_from (unat u) ds"
  using assms
proof (induction ds arbitrary: u r)
  case Nil
  then show ?case by (subst digits_loop.simps) simp
next
  case (Cons c ds)
  have c: "at r = c" "is_digit c" using Cons.prems by (auto simp: at_def)
  have "unat u * 10 * 10 ^ length ds \<le> (unat u * 10 + (ord c - 48)) * 10 ^ length ds" by (rule mult_le_mono1) simp
  also have "\<dots> \<le> digits_from (unat u * 10 + (ord c - 48)) ds" by (rule digits_from_ge)
  also have "\<dots> \<le> 2 ^ 63" using Cons.prems(4) by simp
  finally have "unat u * 10 * 10 ^ length ds \<le> 2 ^ 63" .
  moreover have "unat u * 10 * 1 \<le> unat u * 10 * 10 ^ length ds" by (rule mult_le_mono2) simp
  ultimately have "unat u * 10 \<le> 2 ^ 63" by linarith
  then have g: "\<not> 922337203685477580 < u" by (simp add: not_less word_le_nat_alt)
  note s = digit_step [OF g c(2)]
  have "\<exists>w. digits_loop (u * 10 + of_nat (ord c - 48)) (advance 1 r) = Inr (w, advance (length ds) (advance 1 r))
      \<and> unat w = digits_from (unat (u * 10 + of_nat (ord c - 48))) ds"
    by (rule Cons.IH) (use Cons.prems s in auto)
  then show ?case using c g s by (subst digits_loop.simps) simp
qed

definition magnitude :: "reader \<Rightarrow> 64 word reading" where
  "magnitude r = (if at r = CHR ''0'' then Inr (0, advance 1 r) else digits_loop 0 r)"

lemma magnitude_sound:
  assumes "is_digit (at r)" "magnitude r = Inr (u, r')"
  shows "rdRest r = utoa (unat u) @ rdRest r' \<and> r' = advance (length (utoa (unat u))) r"
proof (cases "at r = CHR ''0''")
  case True
  moreover obtain cs where "rdRest r = at r # cs" using at_digit [OF assms(1)] by (cases "rdRest r") (auto simp: at_def)
  ultimately show ?thesis using assms by (auto simp: magnitude_def utoa_zero)
next
  case False
  then have "digits_loop 0 r = Inr (u, r')" using assms(2) by (simp add: magnitude_def)
  from digits_loop_sound [OF this]
  obtain ds where ds: "list_all is_digit ds" "rdRest r = ds @ rdRest r'" "r' = advance (length ds) r" "\<not> is_digit (at r')"
      "unat u = digits_from 0 ds"
    unfolding unsigned_0 by blast
  have "ds \<noteq> []"
  proof
    assume "ds = []"
    then have "r' = r" using ds(3) by simp
    then show False using ds(4) assms(1) by simp
  qed
  then have "hd ds = at r" using ds(2) by (cases ds) (auto simp: at_def)
  then have "utoa (unat u) = ds" using utoa_digits_from [OF ds(1) \<open>ds \<noteq> []\<close>] False ds(5) by simp
  then show ?thesis using ds(2,3) by (simp only: simp_thms)
qed

lemma utoa_starts: "utoa n = c # s \<Longrightarrow> is_digit c"
  using utoa_digits [of n] by simp

lemma magnitude_complete:
  assumes "rdRest r = utoa (unat u) @ cs" "\<not> is_digit (at (advance (length (utoa (unat u))) r))" "unat u \<le> 2 ^ 63"
  shows "is_digit (at r) \<and> magnitude r = Inr (u, advance (length (utoa (unat u))) r)"
proof (cases "unat u = 0")
  case True
  then have "u = 0" by (simp only: unsigned_eq_0_iff)
  then show ?thesis using assms True by (auto simp: magnitude_def utoa_zero at_def is_digit_def ord_def)
next
  case False
  obtain c s where cs: "utoa (unat u) = c # s" using utoa_nonempty [of "unat u"] by (cases "utoa (unat u)") auto
  then have "c \<noteq> CHR ''0''" "at r = c" using utoa_hd [of "unat u"] False assms(1) by (auto simp: at_def)
  moreover have "\<exists>w. digits_loop 0 r = Inr (w, advance (length (utoa (unat u))) r) \<and> unat w = digits_from (unat (0 :: 64 word)) (utoa (unat u))"
    by (rule digits_loop_complete [OF utoa_digits assms(1,2)]) (simp only: unsigned_0 digits_from_utoa assms(3))
  ultimately obtain w where w: "magnitude r = Inr (w, advance (length (utoa (unat u))) r)" "unat w = unat u"
    by (auto simp: magnitude_def digits_from_utoa simp del: digits_from_simps)
  then have "w = u" by (simp only: word_unat_eq_iff)
  then show ?thesis using w \<open>at r = c\<close> utoa_starts [OF cs] by simp
qed

lemma num_unsigned: "unat u < 2 ^ 63 \<Longrightarrow> num u = utoa (unat u)"
  using sless_zero [of u] by (cases "u = 0") (simp_all add: num_def Let_def num_loop_utoa utoa_zero not_le)

lemma num_negative:
  assumes "u \<noteq> 0" "unat u \<le> 2 ^ 63"
  shows "num (- u) = CHR ''-'' # utoa (unat u)" "- u <s 0"
proof -
  have "unat u \<noteq> 0" using assms(1) by (simp only: unsigned_eq_0_iff not_False_eq_True)
  then have "unat (- u) = 2 ^ 64 - unat u" using unat_sub_if' [of 0 u] by simp
  then show s: "- u <s 0" using assms(2) by (simp add: sless_zero)
  show "num (- u) = CHR ''-'' # utoa (unat u)" using s assms(1) by (simp add: num_def Let_def num_loop_utoa)
qed

lemma unat_negated: "n <s 0 \<Longrightarrow> unat (- n) \<le> 2 ^ 63" for n :: "64 word"
  using unat_sub_if' [of 0 n] by (simp add: sless_zero)

text \<open>What may follow a number: nothing that would spell a longer or a fractional one.\<close>

definition ends_number :: "reader \<Rightarrow> bool" where
  "ends_number r = (\<not> is_digit (at r) \<and> at r \<noteq> CHR ''.'' \<and> at r \<noteq> CHR ''e'' \<and> at r \<noteq> CHR ''E'')"

definition in_range :: "64 word \<Rightarrow> 64 word \<Rightarrow> 64 word \<Rightarrow> bool" where
  "in_range lo hi n = (lo \<le>s n \<and> n \<le>s hi)"

lemma not_sless: "\<not> a <s b \<longleftrightarrow> b \<le>s (a :: 64 word)"
  by (simp add: word_sless_alt word_sle_eq not_less)

lemma integer_unsigned:
  assumes "at r \<noteq> CHR ''-''"
  shows "integer lo hi r = Inr (n, r') \<longleftrightarrow>
    is_digit (at r) \<and> magnitude r = Inr (n, r') \<and> ends_number r' \<and> unat n < 2 ^ 63 \<and> in_range lo hi n"
proof -
  have "2 ^ 63 - 1 < u \<longleftrightarrow> \<not> unat u < 2 ^ 63" for u :: "64 word" by (simp add: word_less_nat_alt) linarith
  then show ?thesis using assms
    by (auto simp: integer_def magnitude_def [symmetric] Let_def ends_number_def in_range_def not_sless [symmetric] simp del: word_neq_0_conv
      split: if_splits sum.splits prod.splits)
qed

lemma integer_signed:
  assumes "at r = CHR ''-''"
  shows "integer lo hi r = Inr (n, r') \<longleftrightarrow>
    (\<exists>u. is_digit (at (advance 1 r)) \<and> magnitude (advance 1 r) = Inr (u, r') \<and> ends_number r' \<and> u \<noteq> 0 \<and> unat u \<le> 2 ^ 63 \<and> n = - u
      \<and> in_range lo hi n)"
proof -
  have "\<not> (u = 2 ^ 63) \<and> 2 ^ 63 - 1 < u \<longleftrightarrow> \<not> unat u \<le> 2 ^ 63" for u :: "64 word"
    by (simp add: word_less_nat_alt word_unat_eq_iff) linarith
  then show ?thesis using assms
    by (auto simp: integer_def magnitude_def [symmetric] Let_def ends_number_def in_range_def not_sless [symmetric] simp del: word_neq_0_conv
      split: if_splits sum.splits prod.splits)
qed

text \<open>
  C40: a whole number is read in exactly one spelling. The reader answers a number and moves on
  precisely when the bytes it passes over are the ones the encoder writes for that number, the
  number is within the field's range, and what follows could not make the spelling longer or
  fractional. So there are no leading zeros, no minus zero, no fractions and no exponents, and
  the whole signed 64-bit range, its least value included, is read without wrapping.
\<close>
theorem integer_exact:
  "integer lo hi r = Inr (n, r') \<longleftrightarrow>
     lo \<le>s n \<and> n \<le>s hi \<and> rdRest r = num n @ rdRest r' \<and> r' = advance (length (num n)) r \<and> ends_number r'"
  (is "?L \<longleftrightarrow> ?R")
proof
  assume ?L
  show ?R
  proof (cases "at r = CHR ''-''")
    case False
    note i = integer_unsigned [OF this, THEN iffD1, OF \<open>?L\<close>]
    then show ?thesis using magnitude_sound [of r n r'] num_unsigned [of n] unfolding in_range_def by metis
  next
    case True
    then obtain u where u: "is_digit (at (advance 1 r))" "magnitude (advance 1 r) = Inr (u, r')" "ends_number r'" "u \<noteq> 0"
      "unat u \<le> 2 ^ 63" "n = - u" "in_range lo hi n" using integer_signed [THEN iffD1, OF True \<open>?L\<close>] by blast
    obtain cs where "rdRest r = CHR ''-'' # cs" using True by (cases "rdRest r") (auto simp: at_def)
    then show ?thesis
      using magnitude_sound [OF u(1,2)] num_negative(1) [OF u(4,5)] u(3,6,7) unfolding in_range_def
      by (metis advance_advance append_Cons drop0 drop_Suc_Cons One_nat_def length_Cons plus_1_eq_Suc rest_advance)
  qed
next
  assume R: ?R
  then have R: "in_range lo hi n" "rdRest r = num n @ rdRest r'" "r' = advance (length (num n)) r" "ends_number r'"
    unfolding in_range_def by blast+
  show ?L
  proof (cases "n <s 0")
    case False
    then have u: "unat n < 2 ^ 63" by (simp add: sless_zero)
    note R' = R(2,3) [unfolded num_unsigned [OF u]]
    have "\<not> is_digit (at r')" using R(4) by (simp add: ends_number_def)
    then have m: "is_digit (at r)" "magnitude r = Inr (n, r')"
      using magnitude_complete [OF R'(1), folded R'(2)] u by linarith+
    then have "at r \<noteq> CHR ''-''" by (auto simp: is_digit_def ord_def)
    then show ?thesis using m u R by (simp only: integer_unsigned simp_thms)
  next
    case True
    define u where "u = - n"
    have "n \<noteq> 0" using True by auto
    have u: "u \<noteq> 0" "unat u \<le> 2 ^ 63" "n = - u" using unat_negated [OF True] \<open>n \<noteq> 0\<close> by (simp_all add: u_def)
    note n = num_negative(1) [OF u(1,2), folded u(3)]
    then have a: "at r = CHR ''-''" using R(2) by (simp add: at_def)
    have d: "rdRest (advance 1 r) = utoa (unat u) @ rdRest r'" using R(2) n by simp
    have e: "r' = advance (length (utoa (unat u))) (advance 1 r)" unfolding R(3) n by simp
    have "\<not> is_digit (at r')" using R(4) by (simp add: ends_number_def)
    then have "is_digit (at (advance 1 r))" "magnitude (advance 1 r) = Inr (u, r')"
      using magnitude_complete [OF d, folded e] u(2) by blast+
    then show ?thesis using a u R integer_signed [OF a] by blast
  qed
qed

end
