(* ===== verification/Net_Addr.thy ===== *)
theory Net_Addr
  imports Go_Errors
begin

section \<open>Network addresses\<close>

text \<open>
  What the sources use of Go's \<^verbatim>\<open>net/netip\<close>: the zero address, a four-byte address, and a
  sixteen-byte address with its zone; and the little-endian integers the system tables hold.
\<close>

datatype Addr = NoAddr | Addr4 bytes | Addr6 bytes string

type_synonym AddrPort = "Addr \<times> 16 word"

definition AddrFromSlice :: "bytes \<Rightarrow> Addr option" where
  "AddrFromSlice bs = (if length bs = 4 then Some (Addr4 bs) else if length bs = 16 then Some (Addr6 bs []) else None)"

definition Is4In6 :: "Addr \<Rightarrow> bool" where
  "Is4In6 a = (case a of Addr6 bs zone \<Rightarrow> take 12 bs = replicate 10 0 @ [0xFF, 0xFF] | _ \<Rightarrow> False)"

definition Unmap :: "Addr \<Rightarrow> Addr" where
  "Unmap a = (case a of Addr6 bs zone \<Rightarrow> if Is4In6 a then Addr4 (drop 12 bs) else a | _ \<Rightarrow> a)"

definition Is4 :: "Addr \<Rightarrow> bool" where
  "Is4 a = (case a of Addr4 _ \<Rightarrow> True | _ \<Rightarrow> False)"

definition IsLoopback :: "Addr \<Rightarrow> bool" where
  "IsLoopback a =
     (case Unmap a of
        NoAddr \<Rightarrow> False
      | Addr4 bs \<Rightarrow> (case bs of [] \<Rightarrow> False | b # _ \<Rightarrow> b = 127)
      | Addr6 bs zone \<Rightarrow> bs = replicate 15 0 @ [1])"

text \<open>\<^verbatim>\<open>binary.LittleEndian.Uint32\<close>, of the first four bytes, and its inverse.\<close>

definition uint32_le :: "bytes \<Rightarrow> 32 word" where "uint32_le bs = uint32_be (rev (take 4 bs))"

definition put_le32 :: "32 word \<Rightarrow> bytes" where "put_le32 w = rev (put_be32 w)"

lemma length_put_le32 [simp]: "length (put_le32 w) = 4"
  by (simp add: put_le32_def)

lemma uint32_le_put [simp, wire_simps]: "uint32_le (put_le32 w @ rest) = w"
  by (simp add: uint32_le_def put_le32_def)

lemma Unmap_idem [simp]: "Unmap (Unmap a) = Unmap a"
  by (auto simp: Unmap_def Is4In6_def split: Addr.splits)

end
