(* ===== verification/Socket_Tables.thy ===== *)
theory Socket_Tables
  imports Net_Addr
begin

section \<open>Socket owner tables (sockets.go, sockets\_windows.go)\<close>

text \<open>
  The listening sockets of a process tree and the rule that all of them stay on loopback. The
  system's table is a buffer: a count, then rows of fixed size. The question whether a process
  belongs to the tree is asked of the system while the table is walked, so \<open>owned\<close> takes the
  number of the question as well: two questions about one process may be answered differently.
\<close>

record Socket =
  skProto :: string
  skAddr :: Addr
  skPort :: int
  skPID :: int

record ownerTableLayout =
  olProto :: string
  olRowSize :: nat
  olAddrAt :: nat
  olAddrBytes :: nat
  olPortAt :: nat
  olPidAt :: nat

definition tcp4OwnerLayout :: ownerTableLayout where
  "tcp4OwnerLayout = \<lparr>olProto = ''tcp'', olRowSize = 24, olAddrAt = 4, olAddrBytes = 4, olPortAt = 8, olPidAt = 20\<rparr>"

definition tcp6OwnerLayout :: ownerTableLayout where
  "tcp6OwnerLayout = \<lparr>olProto = ''tcp'', olRowSize = 56, olAddrAt = 0, olAddrBytes = 16, olPortAt = 20, olPidAt = 52\<rparr>"

definition udp4OwnerLayout :: ownerTableLayout where
  "udp4OwnerLayout = \<lparr>olProto = ''udp'', olRowSize = 12, olAddrAt = 0, olAddrBytes = 4, olPortAt = 4, olPidAt = 8\<rparr>"

definition udp6OwnerLayout :: ownerTableLayout where
  "udp6OwnerLayout = \<lparr>olProto = ''udp'', olRowSize = 28, olAddrAt = 0, olAddrBytes = 16, olPortAt = 20, olPidAt = 24\<rparr>"

subsection \<open>Reading a table\<close>

text \<open>One row; the port is two bytes in network order.\<close>

definition owner_row :: "ownerTableLayout \<Rightarrow> bytes \<Rightarrow> Socket option" where
  "owner_row layout row =
     (case AddrFromSlice (take (olAddrBytes layout) (drop (olAddrAt layout) row)) of
        None \<Rightarrow> None
      | Some addr \<Rightarrow>
          Some \<lparr>skProto = olProto layout, skAddr = addr,
                skPort = int (unat (row ! olPortAt layout) * 256 + unat (row ! (olPortAt layout + 1))),
                skPID = int (unat (uint32_le (drop (olPidAt layout) row)))\<rparr>)"

fun owner_rows :: "ownerTableLayout \<Rightarrow> nat \<Rightarrow> bytes \<Rightarrow> go_error + Socket list" where
  "owner_rows layout 0 rows = Inr []"
| "owner_rows layout (Suc count) rows =
     (case owner_row layout (take (olRowSize layout) rows) of
        None \<Rightarrow> Inl (New ''owner table address'')
      | Some s \<Rightarrow>
          (case owner_rows layout count (drop (olRowSize layout) rows) of
             Inl err \<Rightarrow> Inl err
           | Inr sockets \<Rightarrow> Inr (s # sockets)))"

definition parseOwnerTable :: "bytes \<Rightarrow> ownerTableLayout \<Rightarrow> go_error + Socket list" where
  "parseOwnerTable buf layout =
     (if length buf < 4 then Inl (New ''owner table shorter than its count'')
      else (let count = unat (uint32_le buf); rows = drop 4 buf in
            if length rows div olRowSize layout < count then Inl (New ''owner table count exceeds its buffer'')
            else owner_rows layout count rows))"

text \<open>
  One call of the system's table function: with a buffer of the given size it answers a result
  code, the size it sets, and the bytes it writes. An empty buffer has no first byte to point at
  and panics, \<open>None\<close>.
\<close>

type_synonym table_call = "nat \<Rightarrow> 32 word \<Rightarrow> nat \<times> 32 word \<times> bytes"

definition errorInsufficientBuffer :: nat where "errorInsufficientBuffer = 122"

fun readOwnerTable_loop :: "table_call \<Rightarrow> nat \<Rightarrow> nat \<Rightarrow> 32 word \<Rightarrow> (go_error + bytes) option" where
  "readOwnerTable_loop call attempt 0 room = Some (Inl (New ''the table kept growing''))"
| "readOwnerTable_loop call attempt (Suc left) room =
     (if room = 0 then None
      else (case call attempt room of
              (r, room', content) \<Rightarrow>
                (let buf = take (unat room) (content @ replicate (unat room) 0) in
                 if r = 0 then
                   (if length buf < unat room' then Some (Inl (New ''table larger than its buffer''))
                    else Some (Inr (take (unat room') buf)))
                 else if r = errorInsufficientBuffer then readOwnerTable_loop call (Suc attempt) left (room' + 4096)
                 else Some (Inl (Errorf [Errno r])))))"

definition readOwnerTable :: "table_call \<Rightarrow> (go_error + bytes) option" where
  "readOwnerTable call = readOwnerTable_loop call 0 8 16384"

text \<open>The four tables, each read whole before the next.\<close>

fun ownedSockets_loop :: "(table_call \<times> ownerTableLayout) list \<Rightarrow> (go_error + Socket list) option" where
  "ownedSockets_loop [] = Some (Inr [])"
| "ownedSockets_loop ((call, layout) # tables) =
     (case readOwnerTable call of
        None \<Rightarrow> None
      | Some (Inl err) \<Rightarrow> Some (Inl err)
      | Some (Inr buf) \<Rightarrow>
          (case parseOwnerTable buf layout of
             Inl err \<Rightarrow> Some (Inl (Errorf [err]))
           | Inr sockets \<Rightarrow>
               (case ownedSockets_loop tables of
                  None \<Rightarrow> None
                | Some (Inl err) \<Rightarrow> Some (Inl err)
                | Some (Inr later) \<Rightarrow> Some (Inr (sockets @ later)))))"

definition ownedSockets :: "table_call \<Rightarrow> table_call \<Rightarrow> table_call \<Rightarrow> table_call \<Rightarrow> (go_error + Socket list) option" where
  "ownedSockets tcp4 tcp6 udp4 udp6 =
     ownedSockets_loop [(tcp4, tcp4OwnerLayout), (tcp6, tcp6OwnerLayout), (udp4, udp4OwnerLayout), (udp6, udp6OwnerLayout)]"

subsection \<open>Staying on loopback\<close>

type_synonym membership = "(int \<rightharpoonup> bool) \<times> nat"

text \<open>The closure \<^verbatim>\<open>member\<close>: a process is asked about once, and never when its id is not positive.\<close>

definition tree_member :: "(nat \<Rightarrow> int \<Rightarrow> bool) \<Rightarrow> int \<Rightarrow> membership \<Rightarrow> bool \<times> membership" where
  "tree_member owned pid m =
     (case m of (known, asked) \<Rightarrow>
        (case known pid of
           Some inside \<Rightarrow> (inside, m)
         | None \<Rightarrow>
             if 0 < pid then (owned asked pid, (known(pid \<mapsto> owned asked pid), Suc asked))
             else (False, (known(pid \<mapsto> False), asked))))"

fun loopback_loop :: "(nat \<Rightarrow> int \<Rightarrow> bool) \<Rightarrow> AddrPort \<Rightarrow> Socket list \<Rightarrow> bool \<Rightarrow> membership \<Rightarrow> error \<times> membership" where
  "loopback_loop owned want [] expected m =
     (if \<not> expected then Some (Errorf [Err ErrBeyondLoopback]) else None, m)"
| "loopback_loop owned want (s # sockets) expected m =
     (let addr = Unmap (skAddr s) in
      if \<not> IsLoopback addr then
        (case tree_member owned (skPID s) m of
           (True, m') \<Rightarrow> (Some (Errorf [Err ErrBeyondLoopback]), m')
         | (False, m') \<Rightarrow> loopback_loop owned want sockets expected m')
      else if \<not> expected \<and> skProto s = ''tcp'' \<and> (addr, of_int (skPort s)) = want then
        (case tree_member owned (skPID s) m of
           (inside, m') \<Rightarrow> loopback_loop owned want sockets inside m')
      else loopback_loop owned want sockets expected m)"

definition CheckLoopbackOnly :: "Socket list \<Rightarrow> (nat \<Rightarrow> int \<Rightarrow> bool) \<Rightarrow> AddrPort \<Rightarrow> error \<times> membership" where
  "CheckLoopbackOnly sockets owned listener =
     loopback_loop owned (Unmap (fst listener), snd listener) sockets False (Map.empty, 0)"

text \<open>\<^verbatim>\<open>OwnedByTree\<close>: the process's creation time and the tree's answer, both as of question \<open>k\<close>.\<close>

definition OwnedByTree :: "(nat \<Rightarrow> int \<Rightarrow> Time \<Rightarrow> go_error + bool) option \<Rightarrow> (nat \<Rightarrow> int \<Rightarrow> go_error + Time) \<Rightarrow> nat \<Rightarrow> int \<Rightarrow> bool" where
  "OwnedByTree contains processCreation k pid =
     (case contains of
        None \<Rightarrow> False
      | Some c \<Rightarrow>
          if pid \<le> 0 then False
          else (case processCreation k pid of
                  Inl err \<Rightarrow> False
                | Inr started \<Rightarrow> c k pid started = Inr True))"

definition CheckTreeLoopback ::
  "go_error + Socket list \<Rightarrow> AddrPort \<Rightarrow> (nat \<Rightarrow> int \<Rightarrow> Time \<Rightarrow> go_error + bool) option \<Rightarrow>
    (nat \<Rightarrow> int \<Rightarrow> go_error + Time) \<Rightarrow> error" where
  "CheckTreeLoopback sockets listener contains processCreation =
     (case sockets of
        Inl err \<Rightarrow> Some (Errorf [Err ErrBeyondLoopback])
      | Inr ss \<Rightarrow> fst (CheckLoopbackOnly ss (OwnedByTree contains processCreation) listener))"

subsection \<open>What a table says\<close>

text \<open>A row of \<open>layout\<close> that a system writes for the socket \<open>s\<close>; its other bytes are free.\<close>

definition describes :: "ownerTableLayout \<Rightarrow> bytes \<Rightarrow> Socket \<Rightarrow> bool" where
  "describes layout row s =
     (length row = olRowSize layout \<and> skProto s = olProto layout
      \<and> AddrFromSlice (take (olAddrBytes layout) (drop (olAddrAt layout) row)) = Some (skAddr s)
      \<and> (\<exists>hi lo. take 2 (drop (olPortAt layout) row) = [hi, lo] \<and> skPort s = int (unat hi * 256 + unat lo))
      \<and> (\<exists>pid. take 4 (drop (olPidAt layout) row) = put_le32 pid \<and> skPID s = int (unat pid)))"

lemma describes_row: "describes layout row s \<Longrightarrow> owner_row layout row = Some s"
proof -
  assume d: "describes layout row s"
  then obtain hi lo pid where f: "take 2 (drop (olPortAt layout) row) = [hi, lo]" "skPort s = int (unat hi * 256 + unat lo)"
    "take 4 (drop (olPidAt layout) row) = put_le32 pid" "skPID s = int (unat pid)" by (auto simp: describes_def)
  have l: "olPortAt layout + 1 < length row"
    using arg_cong [OF f(1), of length] by auto
  have "row ! olPortAt layout = hi" "row ! (olPortAt layout + 1) = lo"
    using arg_cong [OF f(1), of "\<lambda>xs. xs ! 0"] arg_cong [OF f(1), of "\<lambda>xs. xs ! 1"] l by simp_all
  moreover have "uint32_le (drop (olPidAt layout) row) = pid"
    using f(3) uint32_le_put [of pid "[]"] by (simp add: uint32_le_def)
  ultimately show ?thesis using d f(2,4) by (simp add: owner_row_def describes_def)
qed

lemma owner_rows_read:
  "list_all2 (describes layout) rows ss \<Longrightarrow> owner_rows layout (length rows) (concat rows @ slack) = Inr ss"
proof (induction rule: list_all2_induct)
  case (Cons row rows s ss)
  have "length row = olRowSize layout" using Cons.hyps(1) by (simp add: describes_def)
  then show ?case using Cons.IH describes_row [OF Cons.hyps(1)] by simp
qed simp

lemma rows_fit:
  "list_all2 (describes layout) rows ss \<Longrightarrow> length (concat rows) = length rows * olRowSize layout"
  by (induction rule: list_all2_induct) (simp_all add: describes_def)

text \<open>
  An owner table is read as written. A count followed by that many rows, each describing one
  socket at the layout's offsets, is read as exactly those sockets, in order, whatever the other
  bytes of the rows hold and whatever follows them; a count beyond the buffer is refused.
\<close>
theorem owner_table_read:
  assumes "list_all2 (describes layout) rows ss" and "0 < olRowSize layout" and "length rows < 2 ^ 32"
  shows "parseOwnerTable (put_le32 (of_nat (length rows)) @ concat rows @ slack) layout = Inr ss \<and>
    (length slack < olRowSize layout \<longrightarrow> length rows < unat n \<longrightarrow>
       parseOwnerTable (put_le32 n @ concat rows @ slack) layout = Inl (New ''owner table count exceeds its buffer''))"
proof -
  have c: "unat (of_nat (length rows) :: 32 word) = length rows" using assms(3) by (simp add: unat_of_nat)
  have l: "length (concat rows @ slack) div olRowSize layout = length rows + length slack div olRowSize layout"
    using rows_fit [OF assms(1)] assms(2) by simp
  then show ?thesis using owner_rows_read [OF assms(1)] c by (simp add: parseOwnerTable_def Let_def)
qed

definition demo_row :: bytes where
  "demo_row = put_le32 2 @ [127, 0, 0, 1] @ [0x1F, 0x90] @ [0, 0] @ [0, 0, 0, 0] @ [0, 0, 0, 0] @ put_le32 4242"

definition demo_socket :: Socket where
  "demo_socket = \<lparr>skProto = ''tcp'', skAddr = Addr4 [127, 0, 0, 1], skPort = 8080, skPID = 4242\<rparr>"

lemma demo_describes: "describes tcp4OwnerLayout demo_row demo_socket"
proof -
  have "take 2 (drop (olPortAt tcp4OwnerLayout) demo_row) = [0x1F, 0x90]" by code_simp
  moreover have "take 4 (drop (olPidAt tcp4OwnerLayout) demo_row) = put_le32 4242" by code_simp
  moreover have "AddrFromSlice (take (olAddrBytes tcp4OwnerLayout) (drop (olAddrAt tcp4OwnerLayout) demo_row)) = Some (skAddr demo_socket)"
    by code_simp
  moreover have "length demo_row = olRowSize tcp4OwnerLayout" "skProto demo_socket = olProto tcp4OwnerLayout" by code_simp+
  moreover have "skPort demo_socket = int (unat (0x1F :: byte) * 256 + unat (0x90 :: byte))" "skPID demo_socket = int (unat (4242 :: 32 word))"
    by (simp_all add: demo_socket_def)
  ultimately show ?thesis unfolding describes_def by blast
qed

theorem owner_table_read_witness:
  "parseOwnerTable (put_le32 1 @ demo_row @ [7]) tcp4OwnerLayout = Inr [demo_socket] \<and>
   parseOwnerTable (put_le32 2 @ demo_row @ [7]) tcp4OwnerLayout = Inl (New ''owner table count exceeds its buffer'')"
  using owner_table_read [of tcp4OwnerLayout "[demo_row]" "[demo_socket]" "[7]" 2] demo_describes by (simp add: tcp4OwnerLayout_def)

subsection \<open>What the loopback rule accepts\<close>

definition listens :: "AddrPort \<Rightarrow> Socket \<Rightarrow> bool" where
  "listens want s = (IsLoopback (Unmap (skAddr s)) \<and> skProto s = ''tcp'' \<and> (Unmap (skAddr s), of_int (skPort s)) = want)"

text \<open>Every answer on record was given once, about a positive id; a yes was the system's.\<close>

definition record_of :: "(nat \<Rightarrow> int \<Rightarrow> bool) \<Rightarrow> membership \<Rightarrow> bool" where
  "record_of owned m =
     (case m of (known, asked) \<Rightarrow>
        finite (dom known) \<and> card {pid \<in> dom known. 0 < pid} = asked \<and>
        (\<forall>pid. known pid = Some True \<longrightarrow> 0 < pid \<and> (\<exists>k < asked. owned k pid)))"

lemma tree_member_step:
  assumes "tree_member owned pid (known, asked) = (inside, (known', asked'))" "record_of owned (known, asked)"
  shows "known \<subseteq>\<^sub>m known'" "known' pid = Some inside" "record_of owned (known', asked')"
proof -
  show "known \<subseteq>\<^sub>m known'" "known' pid = Some inside"
    using assms(1) by (auto simp: tree_member_def map_le_def split: option.splits if_splits)
  show "record_of owned (known', asked')"
  proof (cases "known pid = None \<and> 0 < pid")
    case True
    define held where "held = {q \<in> dom known. 0 < q}"
    have r: "finite (dom known)" "card held = asked" "\<forall>q. known q = Some True \<longrightarrow> 0 < q \<and> (\<exists>k < asked. owned k q)"
      using assms(2) by (simp_all add: record_of_def held_def)
    have k: "known' = known(pid \<mapsto> owned asked pid)" "asked' = Suc asked" using assms(1) True by (auto simp: tree_member_def)
    have "finite held" using r(1) by (simp add: held_def)
    moreover have "{q \<in> dom known'. 0 < q} = insert pid held" "pid \<notin> held" using True by (auto simp: k held_def)
    ultimately have "card {q \<in> dom known'. 0 < q} = Suc asked" using r(2) by simp
    then show ?thesis using r True k less_Suc_eq by (auto simp: record_of_def)
  next
    case False
    then have "asked' = asked" "known' = known \<or> \<not> 0 < pid \<and> known' = known(pid \<mapsto> False)"
      using assms(1) by (auto simp: tree_member_def split: option.splits if_splits)
    moreover have "\<not> 0 < pid \<Longrightarrow> {q \<in> dom (known(pid \<mapsto> False)). 0 < q} = {q \<in> dom known. 0 < q}" by auto
    ultimately show ?thesis using assms(2) by (auto simp: record_of_def split: if_splits)
  qed
qed

lemma loopback_loop_spec:
  assumes "loopback_loop owned want ss expected (known, asked) = (err, (known', asked'))" "record_of owned (known, asked)"
  shows "known \<subseteq>\<^sub>m known' \<and> record_of owned (known', asked') \<and> (err \<noteq> None \<longrightarrow> err = Some (Errorf [Err ErrBeyondLoopback])) \<and>
    (err = None \<longleftrightarrow>
      (\<forall>s \<in> set ss. \<not> IsLoopback (Unmap (skAddr s)) \<longrightarrow> known' (skPID s) = Some False) \<and>
      (expected \<or> (\<exists>s \<in> set ss. listens want s \<and> known' (skPID s) = Some True)))"
  using assms
proof (induction ss arbitrary: expected known asked)
  case (Cons s ss)
  show ?case
  proof (cases "\<not> IsLoopback (Unmap (skAddr s)) \<or> \<not> expected \<and> skProto s = ''tcp'' \<and> (Unmap (skAddr s), of_int (skPort s)) = want")
    case False
    then have "loopback_loop owned want ss expected (known, asked) = (err, (known', asked'))"
      using Cons.prems(1) by (auto simp: Let_def)
    from Cons.IH [OF this Cons.prems(2)] show ?thesis using False by (auto simp: listens_def)
  next
    case True
    obtain inside known1 asked1 where m: "tree_member owned (skPID s) (known, asked) = (inside, (known1, asked1))"
      by (metis prod.exhaust)
    note step = tree_member_step [OF m Cons.prems(2)]
    have kept: "known1 \<subseteq>\<^sub>m known' \<Longrightarrow> known' (skPID s) = Some inside" using step(2) by (auto simp: map_le_def dom_def)
    show ?thesis
    proof (cases "IsLoopback (Unmap (skAddr s))")
      case False
      show ?thesis
      proof (cases inside)
        case True
        then show ?thesis using Cons.prems(1) False m step by (auto simp: Let_def)
      next
        case False': False
        then have "loopback_loop owned want ss expected (known1, asked1) = (err, (known', asked'))"
          using Cons.prems(1) False m by (simp add: Let_def)
        from Cons.IH [OF this step(3)] show ?thesis using False False' kept step(1) map_le_trans by (auto simp: listens_def)
      qed
    next
      case up: True
      then have "loopback_loop owned want ss inside (known1, asked1) = (err, (known', asked'))"
        using Cons.prems(1) True m by (simp add: Let_def)
      from Cons.IH [OF this step(3)] show ?thesis using up True kept step(1) map_le_trans by (cases inside) (auto simp: listens_def)
    qed
  qed
qed (auto split: if_splits)



end
