(* ===== verification/Linux_Identity.thy ===== *)
theory Linux_Identity
  imports Bindings Go_Strings
begin

section \<open>Linux: the peer of an AF\_UNIX socket (identity\_linux.go, procfs\_linux.go, bind\_linux.go)\<close>

text \<open>
  The kernel is a parameter: a record of what its system calls and /proc files answer. A
  reading that may change between two calls is indexed by the instant of the call, and each
  call site of a function has its own instant, later than the previous ones. The contents of
  /proc files are strings, parsed here as procfs\_linux.go parses them.
\<close>

record linux_host =
  lhSocketpair :: "go_error + unit"
  lhProbePidfd :: "go_error + int"
  lhProbePeersec :: "go_error + string"
  lhDomain :: "go_error + int"
  lhAcceptconn :: "go_error + int"
  lhPeercred :: "go_error + int \<times> int \<times> int"
  lhPeersec :: "go_error + string"
  lhPeerpidfd :: "nat \<Rightarrow> go_error + int"
  lhFdinfo :: "nat \<Rightarrow> int \<Rightarrow> go_error + string"
  lhExe :: "nat \<Rightarrow> int \<Rightarrow> go_error + string"
  lhStat :: "nat \<Rightarrow> int \<Rightarrow> go_error + string"
  lhProcStat :: "go_error + string"
  lhAuxv :: "go_error + (int \<times> int) list"
  lhFlatpak :: "nat \<Rightarrow> int \<Rightarrow> go_error + string"
  lhCgroup :: "nat \<Rightarrow> int \<Rightarrow> go_error + string"
  lhClose :: "nat \<Rightarrow> int \<Rightarrow> error"
  lhNow :: Time
  lhErrText :: "go_error \<Rightarrow> string"
  lhShowTime :: "Time \<Rightarrow> string"
  lhQuote :: "string \<Rightarrow> string"

subsection \<open>Reading /proc\<close>

fun fieldInt_lines :: "string list \<Rightarrow> string \<Rightarrow> int option" where
  "fieldInt_lines [] label = None"
| "fieldInt_lines (line # rest) label =
     (if \<not> HasPrefix line label then fieldInt_lines rest label
      else ParseInt64 (TrimSpace (drop (length label) line)))"

definition fieldInt :: "string \<Rightarrow> string \<Rightarrow> int option" where
  "fieldInt s label = fieldInt_lines (Split s newline) label"

definition errNoPidfdInfo :: go_error where
  "errNoPidfdInfo = New ''no Pid line: this is not a pidfd, or the kernel does not report one''"

definition errPidMismatch :: "int \<Rightarrow> int \<Rightarrow> go_error" where
  "errPidMismatch got want = New (''the pidfd for this connection names pid '' @ itoa got @
     '' but SO_PEERCRED named pid '' @ itoa want)"

definition pidfdAlive :: "linux_host \<Rightarrow> nat \<Rightarrow> int \<Rightarrow> int \<Rightarrow> go_error + bool" where
  "pidfdAlive h t pidfd want =
     (case lhFdinfo h t pidfd of
        Inl err \<Rightarrow> Inl (Errorf [err])
      | Inr b \<Rightarrow>
          (case fieldInt b ''Pid:'' of
             None \<Rightarrow> Inl (Errorf [errNoPidfdInfo])
           | Some got \<Rightarrow>
               if got \<le> 0 then Inr False
               else if got \<noteq> want then Inl (errPidMismatch got want)
               else Inr True))"

definition processExe :: "linux_host \<Rightarrow> nat \<Rightarrow> int \<Rightarrow> go_error + string \<times> bool" where
  "processExe h t pid =
     (case lhExe h t pid of
        Inl err \<Rightarrow> Inl err
      | Inr link \<Rightarrow>
          (case CutSuffix link '' (deleted)'' of
             (s, True) \<Rightarrow> Inr (s, True)
           | (_, False) \<Rightarrow> Inr (link, False)))"

text \<open>Integer division and remainder truncate toward zero in Go.\<close>

definition go_quot :: "int \<Rightarrow> int \<Rightarrow> int" where
  "go_quot a b = sgn a * sgn b * (\<bar>a\<bar> div \<bar>b\<bar>)"

definition go_rem :: "int \<Rightarrow> int \<Rightarrow> int" where
  "go_rem a b = a - go_quot a b * b"

text \<open>\<^verbatim>\<open>time.Unix\<close>: seconds and nanoseconds from 1970, as nanoseconds from Go's zero time.\<close>

definition Unix :: "int \<Rightarrow> int \<Rightarrow> Time" where
  "Unix sec nsec = (sec + 62135596800) * Second + nsec"

fun bootEpoch_lines :: "string list \<Rightarrow> go_error + int" where
  "bootEpoch_lines [] = Inl (New ''/proc/stat has no btime'')"
| "bootEpoch_lines (line # rest) =
     (let fields = Fields line in
      if length fields \<noteq> 2 \<or> hd fields \<noteq> ''btime'' then bootEpoch_lines rest
      else (case ParseInt64 (fields ! 1) of
              None \<Rightarrow> Inl (Errorf [New ''/proc/stat btime''])
            | Some seconds \<Rightarrow> Inr seconds))"

definition bootEpoch :: "linux_host \<Rightarrow> go_error + int" where
  "bootEpoch h = (case lhProcStat h of Inl err \<Rightarrow> Inl err | Inr b \<Rightarrow> bootEpoch_lines (Split b newline))"

definition clockTicks :: "linux_host \<Rightarrow> int" where
  "clockTicks h =
     (case lhAuxv h of
        Inl err \<Rightarrow> 100
      | Inr av \<Rightarrow> (case filter (\<lambda>(k, v). k = 17 \<and> 0 < v) av of [] \<Rightarrow> 100 | (k, v) # _ \<Rightarrow> v))"

definition processStartTime :: "linux_host \<Rightarrow> nat \<Rightarrow> int \<Rightarrow> go_error + Time" where
  "processStartTime h t pid =
     (case lhStat h t pid of
        Inl err \<Rightarrow> Inl err
      | Inr s \<Rightarrow>
          (case LastIndexByte s (CHR '')'') of
             None \<Rightarrow> Inl (New ''/proc/<pid>/stat is not in the expected form'')
           | Some i \<Rightarrow>
               (let fields = Fields (drop (Suc i) s) in
                if length fields \<le> 19 then Inl (New ''/proc/<pid>/stat has too few fields for a start time'')
                else (case ParseInt64 (fields ! 19) of
                        None \<Rightarrow> Inl (New ''strconv.ParseInt'')
                      | Some ticks \<Rightarrow>
                          (case bootEpoch h of
                             Inl err \<Rightarrow> Inl err
                           | Inr boot \<Rightarrow>
                               (let hz = clockTicks h;
                                    seconds = go_quot ticks hz;
                                    nanos = go_quot (go_rem ticks hz * Second) hz
                                in Inr (Unix (boot + seconds) nanos)))))))"

fun snapFromCgroup_lines :: "string list \<Rightarrow> string" where
  "snapFromCgroup_lines [] = []"
| "snapFromCgroup_lines (line # rest_lines) =
     (case Index line ''snap.'' of
        None \<Rightarrow> snapFromCgroup_lines rest_lines
      | Some i \<Rightarrow>
          (let rest = drop (i + 5) line;
               rest = (case IndexByte rest (CHR ''/'') of Some j \<Rightarrow> take j rest | None \<Rightarrow> rest);
               rest = TrimSuffix rest ''.scope'';
               rest = TrimSuffix rest ''.service'';
               parts = Split rest (CHR ''.'')
           in if 2 \<le> length parts then parts ! 0 @ ''.'' @ parts ! 1 else snapFromCgroup_lines rest_lines))"

definition snapFromCgroup :: "string \<Rightarrow> string" where
  "snapFromCgroup s = snapFromCgroup_lines (Split s newline)"

text \<open>The loop of \<^verbatim>\<open>iniValue\<close>; \<open>inside\<close> is its variable \<^verbatim>\<open>in\<close>.\<close>

fun iniValue_lines :: "bool \<Rightarrow> string list \<Rightarrow> string \<Rightarrow> string \<Rightarrow> string" where
  "iniValue_lines inside [] sect key = []"
| "iniValue_lines inside (l # rest_lines) sect key =
     (let line = TrimSpace l in
      if HasPrefix line ''['' then iniValue_lines (line = ''['' @ sect @ '']'') rest_lines sect key
      else if inside then
        (case Cut line (CHR ''='') of
           (k, v, ok) \<Rightarrow>
             if ok \<and> TrimSpace k = key then TrimSpace v else iniValue_lines inside rest_lines sect key)
      else iniValue_lines inside rest_lines sect key)"

definition iniValue :: "string \<Rightarrow> string \<Rightarrow> string \<Rightarrow> string" where
  "iniValue s sect key = iniValue_lines False (Split s newline) sect key"

definition whyFlatpak :: string where
  "whyFlatpak = ''read from .flatpak-info inside the peer's own mount namespace, '' @
     ''which bubblewrap mounts read-only''"

definition whyNoSandbox :: string where
  "whyNoSandbox = ''the peer is not in a sandbox this package can recognise (Flatpak, Snap or '' @
     ''Firejail); Linux has no general answer to what a process is - see CONTRACT.md''"

definition sandboxPackage :: "linux_host \<Rightarrow> nat \<Rightarrow> int \<Rightarrow> string \<times> string" where
  "sandboxPackage h t pid =
     (case lhFlatpak h t pid of
        Inr b \<Rightarrow>
          (let app = iniValue b ''Application'' ''name'' in
           if app \<noteq> [] then (''flatpak:'' @ app, whyFlatpak)
           else (''flatpak:'', ''the peer is in a Flatpak sandbox whose .flatpak-info names no application''))
      | Inl _ \<Rightarrow>
          (case lhCgroup h (t + 1) pid of
             Inr b \<Rightarrow>
               (let sid = snapFromCgroup b in
                if sid \<noteq> [] then (''snap:'' @ sid, ''read from the peer's cgroup path, which snapd sets at launch'')
                else if Contains b ''firejail''
                then (''firejail:'', ''the peer's cgroup names firejail, which does not carry an application id'')
                else ([], whyNoSandbox))
           | Inl _ \<Rightarrow> ([], whyNoSandbox)))"

subsection \<open>The ceiling\<close>

definition whyPeerCred :: string where
  "whyPeerCred =
     ''uid and gid are the credentials the kernel recorded for the peer at connect(2); the '' @
     ''peer never spoke them and cannot influence them''"

definition whyPidKernel :: string where
  "whyPidKernel =
     ''the pid is the one the kernel recorded at connect(2); the number is a fact about the '' @
     ''connection, but what it refers to now is a separate question - see path''"

definition whyPidfdBound :: string where
  "whyPidfdBound =
     ''read from /proc through a pid held open by the pidfd the kernel handed out for this '' @
     ''connection, so the number cannot have been reassigned to a different process''"

definition whyNoPidfd :: string where
  "whyNoPidfd =
     ''read from /proc by pid, after the fact: this kernel has no SO_PEERPIDFD (Linux 6.5) '' @
     ''to pin the process, so a pid reused between connect and now would answer instead''"

definition whyNoCode :: string where
  "whyNoCode =
     ''Linux has no per-connection code signature verification for ordinary ELF binaries; '' @
     ''IMA and dm-verity are not queryable this way, and this is not expected to change''"

definition whyPackageAdvisory :: string where
  "whyPackageAdvisory =
     ''a sandbox application id is advisory: it is read from the peer's own mount namespace '' @
     ''(Flatpak) or from a cgroup name (Snap), and neither is beyond the reach of a hostile '' @
     ''process running as the same user - see CONTRACT.md''"

definition whyLsmLabel :: string where
  "whyLsmLabel = ''; SO_PEERSEC also carries the peer's LSM label, which is the closest Linux comes '' @
     ''to naming a program rather than a file''"

definition whyBindingPidfd :: string where
  "whyBindingPidfd = ''SO_PEERPIDFD: the kernel derives a pidfd from the connection itself, so it names '' @
     ''a process instance that cannot be reassigned and cannot follow a later writer. It does follow '' @
     ''execve, which Bind captures the image path to refuse''"

text \<open>The seven answers that mean the absence of a label.\<close>

definition meaningfulLSMLabel :: "string \<Rightarrow> bool" where
  "meaningfulLSMLabel s =
     (s \<notin> set [[], ''kernel'', ''unlabeled'', ''unlabeled_t'', ''unconfined'', ''unconfined (enforce)'',
        ''unconfined (complain)''])"

definition pidfdSupport :: "linux_host \<Rightarrow> bool \<times> string" where
  "pidfdSupport h =
     (case lhSocketpair h of
        Inl err \<Rightarrow> (False, ''could not probe for SO_PEERPIDFD (socketpair: '' @ lhErrText h err @ '')'')
      | Inr _ \<Rightarrow>
          (case lhProbePidfd h of
             Inl err \<Rightarrow> (False, ''SO_PEERPIDFD is unavailable on this kernel ('' @ lhErrText h err @
               ''); it needs Linux 6.5, and without it nothing read from /proc can be pinned to the process that connected'')
           | Inr fd \<Rightarrow> (True, [])))"

definition lsmSupport :: "linux_host \<Rightarrow> bool \<times> string" where
  "lsmSupport h =
     (case lhSocketpair h of
        Inl err \<Rightarrow> (False, ''could not probe for SO_PEERSEC (socketpair: '' @ lhErrText h err @ '')'')
      | Inr _ \<Rightarrow>
          (case lhProbePeersec h of
             Inl err \<Rightarrow> (False, ''SO_PEERSEC is unavailable on this kernel ('' @ lhErrText h err @ '')'')
           | Inr ctx \<Rightarrow>
               if \<not> meaningfulLSMLabel ctx
               then (False, ''no LSM is labelling processes on this system (SO_PEERSEC answers '' @
                       lhQuote h ctx @ '')'')
               else (True, [])))"

definition linux_ceiling :: "linux_host \<Rightarrow> Limits" where
  "linux_ceiling h =
     (let (pidfd, pidfdWhy) = pidfdSupport h;
          (lsm, lsmWhy) = lsmSupport h;
          derived = (if pidfd then ProofBound else ProofPID);
          derivedWhy = (if pidfd then whyPidfdBound else whyNoPidfd @ '' ('' @ pidfdWhy @ '')'');
          userWhy = (if lsm then whyPeerCred @ whyLsmLabel
                     else whyPeerCred @ ''; '' @ lsmWhy @ '', so User.SecurityContext will be empty'');
          binding = (if pidfd then whyBindingPidfd
                     else whyNoPidfd @ '' ('' @ pidfdWhy @ ''), so this machine cannot bind a peer: Bind refuses rather than answering from a number'')
      in \<lparr>lPlatform = ''linux'',
          lBest = \<lparr>nUser = ProofKernel, nProcess = ProofKernel, nPath = derived, nPackage = derived,
                    nCode = ProofNone\<rparr>,
          lWhy = [''user'' \<mapsto> userWhy, ''process'' \<mapsto> whyPidKernel, ''path'' \<mapsto> derivedWhy,
                  ''package'' \<mapsto> derivedWhy @ ''; '' @ whyPackageAdvisory, ''code'' \<mapsto> whyNoCode],
          lTransport = ''unix'', lBindable = pidfd, lBinding = binding, lStronger = []\<rparr>)"

subsection \<open>Resolving a peer\<close>

definition AF_UNIX :: int where "AF_UNIX = 1"

definition requireAcceptedUnixSocket :: "linux_host \<Rightarrow> error" where
  "requireAcceptedUnixSocket h =
     (case lhDomain h of
        Inl err \<Rightarrow> Some (Errorf [Err ErrUnsupportedConn])
      | Inr domain \<Rightarrow>
          if domain \<noteq> AF_UNIX then Some (Errorf [Err ErrUnsupportedConn])
          else (case lhAcceptconn h of
                  Inr listening \<Rightarrow> if listening \<noteq> 0 then Some (Errorf [Err ErrNotServerEnd]) else None
                | Inl _ \<Rightarrow> None))"

text \<open>The principal: the credentials and the LSM label stamped at connect.\<close>

definition peer_principal :: "linux_host \<Rightarrow> int \<Rightarrow> int \<Rightarrow> User Attr" where
  "peer_principal h uid gid =
     (let user = zero_User\<lparr>uKind := ''posix'', uUID := uid, uGID := gid\<rparr> in
      case lhPeersec h of
        Inl err \<Rightarrow> attr ''user'' user ProofKernel
          (whyPeerCred @ ''; no LSM label (SO_PEERSEC: '' @ lhErrText h err @ '')'')
      | Inr ctx \<Rightarrow>
          if \<not> meaningfulLSMLabel ctx
          then attr ''user'' user ProofKernel (whyPeerCred @ ''; no LSM label (SO_PEERSEC answers '' @
                 lhQuote h ctx @ '', which is the absence of a label)'')
          else attr ''user'' (user\<lparr>uSecurityContext := ctx\<rparr>) ProofKernel (whyPeerCred @
                 ''; SecurityContext is the peer's LSM label as of connect(2), assigned by policy at exec and not by the peer''))"

record pin =
  pinFd :: "int option"
  pinBound :: bool
  pinReadable :: bool
  pinWhy :: string

text \<open>Step 5: pin the process with \<^verbatim>\<open>SO_PEERPIDFD\<close> and look whether it is alive.\<close>

definition pin_process :: "linux_host \<Rightarrow> nat \<Rightarrow> int \<Rightarrow> pin" where
  "pin_process h t pid =
     (case lhPeerpidfd h t of
        Inr pidfd \<Rightarrow>
          (case pidfdAlive h (t + 1) pidfd pid of
             Inl err \<Rightarrow> \<lparr>pinFd = Some pidfd, pinBound = False, pinReadable = False,
               pinWhy = ''the pidfd the kernel gave for this connection could not be checked ('' @
                 lhErrText h err @ ''), so nothing was read out of the pid''\<rparr>
           | Inr False \<Rightarrow> \<lparr>pinFd = Some pidfd, pinBound = False, pinReadable = False,
               pinWhy = ''the peer has exited: the pidfd for this connection no longer names a running process, so /proc has nothing left to say about it''\<rparr>
           | Inr True \<Rightarrow> \<lparr>pinFd = Some pidfd, pinBound = True, pinReadable = True, pinWhy = whyPidfdBound\<rparr>)
      | Inl err \<Rightarrow> \<lparr>pinFd = None, pinBound = False, pinReadable = True,
          pinWhy = whyNoPidfd @ '' (SO_PEERPIDFD: '' @ lhErrText h err @ '')''\<rparr>)"

definition startTimeSlop :: Duration where
  "startTimeSlop = 2 * Second"

definition whyDeleted :: string where
  "whyDeleted = ''the peer's executable has been unlinked since it started, so this path no longer '' @
     ''refers to the file it is running''"

text \<open>Step 7: the image path.\<close>

definition resolve_path :: "linux_host \<Rightarrow> nat \<Rightarrow> int \<Rightarrow> Proof \<Rightarrow> string \<Rightarrow> Peer \<Rightarrow> Peer" where
  "resolve_path h t pid derived derivedWhy p =
     (case processExe h t pid of
        Inl err \<Rightarrow> add_note (''path: '' @ lhErrText h err)
          (p\<lparr>pPath := unknown [] ''path'' (''/proc/'' @ itoa pid @ ''/exe could not be read: '' @ lhErrText h err)\<rparr>)
      | Inr (link, True) \<Rightarrow> add_note (''path: '' @ whyDeleted) (p\<lparr>pPath := attr ''path'' link ProofPID whyDeleted\<rparr>)
      | Inr (link, False) \<Rightarrow> p\<lparr>pPath := attr ''path'' link derived
          (derivedWhy @ ''; a path is a name, not an identity - see CONTRACT.md'')\<rparr>)"

text \<open>Step 8: the sandbox application id.\<close>

definition resolve_package :: "linux_host \<Rightarrow> nat \<Rightarrow> int \<Rightarrow> Proof \<Rightarrow> string \<Rightarrow> Peer \<Rightarrow> Peer" where
  "resolve_package h t pid derived derivedWhy p =
     (case sandboxPackage h t pid of
        (nm, why) \<Rightarrow>
          if nm = [] then p\<lparr>pPackage := unknown [] ''package'' why\<rparr>
          else add_note (''package: '' @ whyPackageAdvisory)
            (p\<lparr>pPackage := attr ''package'' nm derived (why @ ''; '' @ derivedWhy @ ''; '' @ whyPackageAdvisory)\<rparr>))"

definition unresolved :: "Time \<Rightarrow> Peer" where
  "unresolved now =
     \<lparr>pPlatform = ''linux'', pTransport = ''unix'', pObservedAt = now,
      pUser = unknown zero_User ''user'' ''not resolved'',
      pProcess = unknown zero_Process ''process'' ''not resolved'',
      pPath = unknown [] ''path'' ''not resolved'', pPackage = unknown [] ''package'' ''not resolved'',
      pCode = unknown zero_Code ''code'' whyNoCode, pNotes = [], pEvidenceValidUntil = 0\<rparr>"

text \<open>
  Steps 6 to 9, once the credentials name \<open>pid\<close> and the pin was attempted at \<open>t\<close>. \<open>p\<close> carries
  the principal already.
\<close>

definition resolve_process :: "linux_host \<Rightarrow> Time \<Rightarrow> nat \<Rightarrow> int \<Rightarrow> pin \<Rightarrow> Peer \<Rightarrow> Peer" where
  "resolve_process h at t pid pn p0 =
     (let p = (if \<not> pinBound pn then add_note (''process: '' @ pinWhy pn) p0 else p0);
          started = processStartTime h (t + 2) pid;
          proc = (case started of Inr st \<Rightarrow> zero_Process\<lparr>prPID := pid, prStartTime := st\<rparr>
                                | Inl _ \<Rightarrow> zero_Process\<lparr>prPID := pid\<rparr>);
          late = (case started of Inr st \<Rightarrow> \<not> pinBound pn \<and> at + startTimeSlop < st | Inl _ \<Rightarrow> False)
      in if late then
           (let reused = ''pid '' @ itoa pid @ '' now belongs to a process that started at '' @
                  lhShowTime h (prStartTime proc) @ '', after this connection existed at '' @ lhShowTime h at @
                  ''; it is not the peer''
            in (add_note (''process: '' @ reused)
                 (p\<lparr>pProcess := attr ''process'' (proc\<lparr>prRecycled := True\<rparr>) ProofKernel reused\<rparr>))
               \<lparr>pPath := unknown [] ''path'' reused, pPackage := unknown [] ''package'' reused\<rparr>)
         else
           (let processWhy = (if \<not> pinBound pn then whyPidKernel @ ''; '' @ pinWhy pn else whyPidKernel);
                p = p\<lparr>pProcess := attr ''process'' proc ProofKernel processWhy\<rparr>
            in if \<not> pinReadable pn then
                 p\<lparr>pPath := unknown [] ''path'' (pinWhy pn), pPackage := unknown [] ''package'' (pinWhy pn)\<rparr>
               else
                 (let derived = (if pinBound pn then ProofBound else ProofPID);
                      p = resolve_path h (t + 3) pid derived (pinWhy pn) p;
                      p = resolve_package h (t + 4) pid derived (pinWhy pn) p;
                      p = p\<lparr>pCode := unknown zero_Code ''code'' whyNoCode\<rparr>
                  in case pinFd pn of
                       Some fd \<Rightarrow>
                         if pinBound pn \<and> pidfdAlive h (t + 6) fd pid = Inr False
                         then add_note ''process: the peer exited while it was being identified; what was read before that is still about the right process'' p
                         else p
                     | None \<Rightarrow> p)))"

definition linux_ofHandle :: "linux_host \<Rightarrow> Options option \<Rightarrow> nat \<Rightarrow> go_error + Peer" where
  "linux_ofHandle h opts t =
     (case requireAcceptedUnixSocket h of
        Some err \<Rightarrow> Inl err
      | None \<Rightarrow>
          (case lhPeercred h of
             Inl err \<Rightarrow> Inl (Errorf [Err ErrUnsupportedConn])
           | Inr (pid, uid, gid) \<Rightarrow>
               if pid = 0 then Inl (Errorf [Err ErrUnsupportedConn])
               else Inr (resolve_process h (connectedAt opts (lhNow h)) t pid (pin_process h t pid)
                      ((unresolved (lhNow h))\<lparr>pUser := peer_principal h uid gid\<rparr>))))"

subsection \<open>Binding (bind\_linux.go)\<close>

text \<open>
  The state of a binding and the descriptors the process holds open. \<^verbatim>\<open>linux_ofHandle\<close> closes the
  pidfd it opens before it returns (\<^verbatim>\<open>defer\<close>), so it leaves the descriptors as they were.
\<close>

record linuxBinding =
  lbPidfd :: int
  lbPid :: int
  lbExe :: string

type_synonym linux_handle = "linuxBinding \<times> int list"

definition linux_release :: "linux_host \<times> nat \<Rightarrow> linux_handle \<Rightarrow> error \<times> linux_handle" where
  "linux_release = (\<lambda>(h, t) (b, fds).
     if lbPidfd b < 0 then (None, (b, fds))
     else (lhClose h t (lbPidfd b), (b\<lparr>lbPidfd := -1\<rparr>, remove1 (lbPidfd b) fds)))"

definition linux_alive :: "linux_host \<times> nat \<Rightarrow> linux_handle \<Rightarrow> go_error + bool" where
  "linux_alive = (\<lambda>(h, t) (b, fds). pidfdAlive h t (lbPidfd b) (lbPid b))"

definition linux_recheck :: "linux_host \<times> nat \<Rightarrow> linux_handle \<Rightarrow> error" where
  "linux_recheck = (\<lambda>(h, t) (b, fds).
     if linux_alive (h, t) (b, fds) \<noteq> Inr True then None
     else (case processExe h (t + 1) (lbPid b) of
             Inl err \<Rightarrow> None
           | Inr (exe, _) \<Rightarrow> if exe \<noteq> lbExe b then Some (Errorf [Err ErrPeerMoved]) else None))"

definition linux_binder :: "(linux_host \<times> nat, linux_handle) Binder" where
  "linux_binder = \<lparr>recheck = linux_recheck, alive = linux_alive, release = linux_release\<rparr>"

definition linux_bindHandle :: "linux_host \<Rightarrow> Options option \<Rightarrow> nat \<Rightarrow> int list \<Rightarrow>
    (go_error + linuxBinding \<times> Peer) \<times> int list" where
  "linux_bindHandle h opts t fds =
     (case requireAcceptedUnixSocket h of
        Some err \<Rightarrow> (Inl err, fds)
      | None \<Rightarrow>
          if \<not> fst (pidfdSupport h) then (Inl (Errorf [Err ErrNoBinding]), fds)
          else
            (case lhPeerpidfd h t of
               Inl err \<Rightarrow> (Inl (Errorf [Err ErrNoBinding]), fds)
             | Inr pidfd \<Rightarrow>
                 (let fds1 = pidfd # fds;
                      b = \<lparr>lbPidfd = pidfd, lbPid = -1, lbExe = []\<rparr>;
                      fail = (\<lambda>err. (Inl err, snd (snd (linux_release (h, t) (b, fds1)))))
                  in case lhPeercred h of
                       Inl err \<Rightarrow> fail (Errorf [Err ErrUnsupportedConn])
                     | Inr (pid, uid, gid) \<Rightarrow>
                         (let b = b\<lparr>lbPid := pid\<rparr> in
                          case pidfdAlive h (t + 1) pidfd pid of
                            Inl err \<Rightarrow> fail (Errorf [Err ErrNoBinding])
                          | Inr False \<Rightarrow> fail (Err ErrPeerGone)
                          | Inr True \<Rightarrow>
                              (case processExe h (t + 2) pid of
                                 Inl err \<Rightarrow> fail (Errorf [Err ErrPeerGone])
                               | Inr (exe, _) \<Rightarrow>
                                   (case linux_ofHandle h opts (t + 3) of
                                      Inl err \<Rightarrow> fail err
                                    | Inr peer \<Rightarrow> (Inr (b\<lparr>lbExe := exe\<rparr>, peer), fds1)))))))"

text \<open>\<^verbatim>\<open>bindServerHandle\<close> of server\_linux.go is \<^verbatim>\<open>bindHandle\<close>.\<close>

definition linux_bindServerHandle :: "linux_host \<Rightarrow> Options option \<Rightarrow> nat \<Rightarrow> int list \<Rightarrow>
    (go_error + linuxBinding \<times> Peer) \<times> int list" where
  "linux_bindServerHandle h opts t fds = linux_bindHandle h opts t fds"

subsection \<open>What a resolved peer can say\<close>

lemma rung_order [ladder_simps]:
  "ProofNone \<le> (x :: Proof)" "ProofPID \<le> ProofBound" "ProofBound \<le> ProofKernel" "ProofPID \<le> ProofKernel"
  "ProofNone < ProofPID" "ProofPID < ProofBound" "ProofBound < ProofKernel" "ProofKernel < ProofSigned"
  by (simp_all add: rung_defs)

lemma resolve_path_sels [simp]:
  "pUser (resolve_path h t pid d w p) = pUser p" "pProcess (resolve_path h t pid d w p) = pProcess p"
  "pPackage (resolve_path h t pid d w p) = pPackage p" "pCode (resolve_path h t pid d w p) = pCode p"
  by (auto simp: resolve_path_def split: sum.splits prod.splits bool.splits)

lemma resolve_package_sels [simp]:
  "pUser (resolve_package h t pid d w p) = pUser p" "pProcess (resolve_package h t pid d w p) = pProcess p"
  "pPath (resolve_package h t pid d w p) = pPath p" "pCode (resolve_package h t pid d w p) = pCode p"
  by (auto simp: resolve_package_def split: prod.splits)

lemma resolve_path_rung:
  "attr_proof (pPath (resolve_path h t pid d w p)) =
     (case processExe h t pid of Inl _ \<Rightarrow> ProofNone | Inr (_, deleted) \<Rightarrow> if deleted then ProofPID else d)"
  by (auto simp: resolve_path_def split: sum.splits prod.splits bool.splits)

lemma resolve_package_rung:
  "attr_proof (pPackage (resolve_package h t pid d w p)) =
     (if fst (sandboxPackage h t pid) = [] then ProofNone else d)"
  by (auto simp: resolve_package_def split: prod.splits)

lemma pin_process_bound:
  "pinBound (pin_process h t pid) \<longleftrightarrow>
     (\<exists>fd. lhPeerpidfd h t = Inr fd \<and> pidfdAlive h (t + 1) fd pid = Inr True)"
  by (auto simp: pin_process_def split: sum.splits bool.splits)

lemma pin_bound_readable: "pinBound (pin_process h t pid) \<Longrightarrow> pinReadable (pin_process h t pid)"
  by (auto simp: pin_process_def split: sum.splits bool.splits)

text \<open>The two early returns, and what is left of the path and the package on each.\<close>

definition started_late :: "linux_host \<Rightarrow> Time \<Rightarrow> nat \<Rightarrow> int \<Rightarrow> pin \<Rightarrow> bool" where
  "started_late h at t pid pn =
     (case processStartTime h (t + 2) pid of
        Inr st \<Rightarrow> \<not> pinBound pn \<and> at + startTimeSlop < st | Inl _ \<Rightarrow> False)"

lemma started_late_pinned: "pinBound pn \<Longrightarrow> \<not> started_late h at t pid pn"
  by (simp add: started_late_def split: sum.splits)

lemma resolve_process_rungs:
  "attr_proof (pUser (resolve_process h at t pid pn p)) = attr_proof (pUser p)"
  "attr_proof (pProcess (resolve_process h at t pid pn p)) = ProofKernel"
  "attr_proof (pPath (resolve_process h at t pid pn p)) =
     (if started_late h at t pid pn \<or> \<not> pinReadable pn then ProofNone
      else (case processExe h (t + 3) pid of Inl _ \<Rightarrow> ProofNone
            | Inr (_, deleted) \<Rightarrow> if \<not> deleted \<and> pinBound pn then ProofBound else ProofPID))"
  "attr_proof (pPackage (resolve_process h at t pid pn p)) =
     (if started_late h at t pid pn \<or> \<not> pinReadable pn \<or> fst (sandboxPackage h (t + 4) pid) = [] then ProofNone
      else if pinBound pn then ProofBound else ProofPID)"
  by (auto simp: resolve_process_def started_late_def Let_def resolve_path_rung resolve_package_rung
      split: sum.splits prod.splits option.splits if_splits)

lemma resolve_process_code:
  "pCode p = unknown zero_Code ''code'' whyNoCode \<Longrightarrow>
   pCode (resolve_process h at t pid pn p) = unknown zero_Code ''code'' whyNoCode"
  by (auto simp: resolve_process_def Let_def split: sum.splits option.splits)

lemma resolve_process_value:
  "attr_value (pProcess (resolve_process h at t pid pn p)) =
     \<lparr>prPID = pid, prStartTime = (case processStartTime h (t + 2) pid of Inr st \<Rightarrow> st | Inl _ \<Rightarrow> 0),
      prRecycled = started_late h at t pid pn, prGeneration = 0\<rparr>"
  by (auto simp: resolve_process_def started_late_def Let_def zero_Process_def
      split: sum.splits option.splits if_splits)

lemma linux_ofHandle_InrE:
  assumes "linux_ofHandle h opts t = Inr p"
  obtains pid uid gid where "lhPeercred h = Inr (pid, uid, gid)" "pid \<noteq> 0"
    "requireAcceptedUnixSocket h = None"
    "p = resolve_process h (connectedAt opts (lhNow h)) t pid (pin_process h t pid)
           ((unresolved (lhNow h))\<lparr>pUser := peer_principal h uid gid\<rparr>)"
  using assms by (auto simp: linux_ofHandle_def split: option.splits sum.splits if_splits)

lemma peer_principal_rung [simp]: "attr_proof (peer_principal h uid gid) = ProofKernel"
  by (auto simp: peer_principal_def Let_def split: sum.splits)

lemma unresolved_code [simp]: "pCode ((unresolved now)\<lparr>pUser := u\<rparr>) = unknown zero_Code ''code'' whyNoCode"
  by (simp add: unresolved_def)

lemma linux_ceiling_best:
  "lBest (linux_ceiling h) =
     \<lparr>nUser = ProofKernel, nProcess = ProofKernel,
      nPath = (if fst (pidfdSupport h) then ProofBound else ProofPID),
      nPackage = (if fst (pidfdSupport h) then ProofBound else ProofPID), nCode = ProofNone\<rparr>"
  by (auto simp: linux_ceiling_def Let_def split: prod.splits)

text \<open>
  Without a per-connection pidfd nothing rises above \<^verbatim>\<open>ProofPID\<close>, so the ceiling is kept when
  the start-up probe and the connection agree about \<^verbatim>\<open>SO_PEERPIDFD\<close>.
\<close>

lemma linux_ofHandle_within:
  assumes "linux_ofHandle h opts t = Inr p"
    and agree: "fst (pidfdSupport h) \<or> (\<exists>e. lhPeerpidfd h t = Inl e)"
  shows "need_le (rungs p) (lBest (linux_ceiling h))"
proof -
  obtain pid uid gid where p: "p = resolve_process h (connectedAt opts (lhNow h)) t pid (pin_process h t pid)
      ((unresolved (lhNow h))\<lparr>pUser := peer_principal h uid gid\<rparr>)"
    using linux_ofHandle_InrE [OF assms(1)] by metis
  have nb: "\<not> fst (pidfdSupport h) \<Longrightarrow> \<not> pinBound (pin_process h t pid)"
    using agree by (auto simp: pin_process_bound)
  show ?thesis
    using nb unfolding p need_le_def rungs_def linux_ceiling_best
    by (auto simp: resolve_process_rungs resolve_process_code ladder_simps split: sum.splits)
qed

lemma linux_bindHandle_InrE:
  assumes "linux_bindHandle h opts t fds = (Inr (b, p), fds')"
  obtains pidfd pid uid gid exe deleted where
    "requireAcceptedUnixSocket h = None" "fst (pidfdSupport h)" "lhPeerpidfd h t = Inr pidfd"
    "lhPeercred h = Inr (pid, uid, gid)" "pidfdAlive h (t + 1) pidfd pid = Inr True"
    "processExe h (t + 2) pid = Inr (exe, deleted)" "linux_ofHandle h opts (t + 3) = Inr p"
    "b = \<lparr>lbPidfd = pidfd, lbPid = pid, lbExe = exe\<rparr>" "fds' = pidfd # fds"
  using assms by (auto simp: linux_bindHandle_def Let_def split: option.splits sum.splits if_splits bool.splits)

interpretation linux_bind: bounded_transport
  "\<lambda>(h, opts, t, fds). linux_ceiling h"
  "\<lambda>(h, opts, t, fds). map_sum id snd (fst (linux_bindHandle h opts t fds))"
proof unfold_locales
  fix a :: "linux_host \<times> Options option \<times> nat \<times> int list" and p
  obtain h opts t fds where a: "a = (h, opts, t, fds)" by (cases a)
  assume "(case a of (h, opts, t, fds) \<Rightarrow> map_sum id snd (fst (linux_bindHandle h opts t fds))) = Inr p"
  then obtain b where "linux_bindHandle h opts t fds = (Inr (b, p), snd (linux_bindHandle h opts t fds))"
    by (cases "linux_bindHandle h opts t fds"; cases "fst (linux_bindHandle h opts t fds)") (auto simp: a)
  then show "need_le (rungs p) (lBest (case a of (h, opts, t, fds) \<Rightarrow> linux_ceiling h))"
    by (rule linux_bindHandle_InrE) (simp add: a linux_ofHandle_within)
qed

interpretation linux_fd: handle_owner linux_binder "\<lambda>(b, fds). lbPidfd b < 0"
  by unfold_locales (auto simp: linux_binder_def linux_release_def split: prod.splits)

text \<open>
  C2: on Linux a policy that \<^verbatim>\<open>CanEver\<close> refuses at start-up is refused for every peer \<^verbatim>\<open>Bind\<close>
  captures afterwards, whatever the kernel answers: a binding never exceeds the ceiling.
\<close>

theorem linux_ceiling_sound:
  assumes "CanEver (linux_ceiling h) n = Some e"
    and "linux_bindHandle h opts t fds = (Inr (b, p), fds')"
  shows "\<exists>e'. Check p n = Some e' \<and> errors_is e' (Err ErrNotProven)"
  using linux_bind.impossible_policy_refuses_all [of "(h, opts, t, fds)" n e p] assms by simp

text \<open>
  When the pid's process demonstrably started after the connection existed, the peer is
  marked recycled and neither a path nor a package is reported for it, whatever /proc would have
  answered. The pid itself stays at \<^verbatim>\<open>ProofKernel\<close>.
\<close>

theorem linux_recycled_pid:
  assumes p: "linux_ofHandle h opts t = Inr p"
    and cred: "lhPeercred h = Inr (pid, uid, gid)"
    and nopin: "lhPeerpidfd h t = Inl e"
    and st: "processStartTime h (t + 2) pid = Inr st"
    and late: "connectedAt opts (lhNow h) + startTimeSlop < st"
  shows "prRecycled (attr_value (pProcess p)) \<and> attr_proof (pProcess p) = ProofKernel \<and>
    (\<forall>m. \<exists>e. AtLeast (pPath p) m = Inl e) \<and> (\<forall>m. \<exists>e. AtLeast (pPackage p) m = Inl e)"
proof -
  have "\<not> pinBound (pin_process h t pid)" using nopin by (simp add: pin_process_bound)
  then have late: "started_late h (connectedAt opts (lhNow h)) t pid (pin_process h t pid)"
    using st late by (simp add: started_late_def)
  have "attr_proof (pPath p) = ProofNone" "attr_proof (pPackage p) = ProofNone"
      "attr_proof (pProcess p) = ProofKernel" "prRecycled (attr_value (pProcess p))"
    using p cred late
    by (auto elim!: linux_ofHandle_InrE simp: resolve_process_rungs resolve_process_value)
  then show ?thesis by (simp add: AtLeast_def)
qed

subsection \<open>A host to run the model on\<close>

text \<open>Process 42 of user 1000 is connected; its pidfd is descriptor 7. At instant 20 it has executed another program.\<close>

definition demo_host :: linux_host where
  "demo_host =
     \<lparr>lhSocketpair = Inr (), lhProbePidfd = Inr 5, lhProbePeersec = Inr ''unconfined'', lhDomain = Inr 1,
      lhAcceptconn = Inr 0, lhPeercred = Inr (42, 1000, 1000), lhPeersec = Inr ''unconfined'',
      lhPeerpidfd = (\<lambda>t. Inr 7), lhFdinfo = (\<lambda>t fd. if fd = 7 then Inr ''Pid: 42'' else Inl (Errno 2)),
      lhExe = (\<lambda>t pid. Inr (if t < 20 then ''/usr/bin/app'' else ''/usr/bin/other'')),
      lhStat = (\<lambda>t pid. Inl (Errno 13)), lhProcStat = Inr ''btime 1700000000'', lhAuxv = Inr [(17, 100)],
      lhFlatpak = (\<lambda>t pid. Inl (Errno 2)), lhCgroup = (\<lambda>t pid. Inr ''0::/user.slice''),
      lhClose = (\<lambda>t fd. None), lhNow = 1000, lhErrText = (\<lambda>e. ''error''), lhShowTime = itoa,
      lhQuote = (\<lambda>s. s)\<rparr>"

text \<open>The same host without \<^verbatim>\<open>SO_PEERPIDFD\<close>, whose pid 42 started long after the connection.\<close>

definition old_kernel :: linux_host where
  "old_kernel = demo_host\<lparr>lhProbePidfd := Inl (Errno 92), lhPeerpidfd := (\<lambda>t. Inl (Errno 92)),
     lhStat := (\<lambda>t pid. Inr ''42 (a) b) S 1 1 1 0 0 0 0 0 0 0 0 0 0 0 20 0 1 0 500 9'')\<rparr>"

lemma demo_alive: "pidfdAlive demo_host t 7 42 = Inr True"
  by (simp add: pidfdAlive_def demo_host_def) code_simp

lemma demo_exe: "processExe demo_host t pid = Inr (if t < 20 then ''/usr/bin/app'' else ''/usr/bin/other'', False)"
  by (simp add: processExe_def demo_host_def CutSuffix_def HasSuffix_def)

lemma demo_accepts: "requireAcceptedUnixSocket demo_host = None" "requireAcceptedUnixSocket old_kernel = None"
  by (simp_all add: requireAcceptedUnixSocket_def demo_host_def old_kernel_def AF_UNIX_def)

lemma demo_cred [simp]: "lhPeercred demo_host = Inr (42, 1000, 1000)" "lhPeerpidfd demo_host t = Inr 7"
    "lhPeercred old_kernel = Inr (42, 1000, 1000)" "lhPeerpidfd old_kernel t = Inl (Errno 92)"
  by (simp_all add: demo_host_def old_kernel_def)

lemma demo_support: "fst (pidfdSupport demo_host)"
  by (simp add: pidfdSupport_def demo_host_def)

lemma demo_ofHandle: "\<exists>p. linux_ofHandle demo_host opts t = Inr p" "\<exists>p. linux_ofHandle old_kernel opts t = Inr p"
  by (simp_all add: linux_ofHandle_def demo_accepts)

lemma demo_bind:
  "\<exists>p. linux_bindHandle demo_host opts 0 [] =
     (Inr (\<lparr>lbPidfd = 7, lbPid = 42, lbExe = ''/usr/bin/app''\<rparr>, p), [7])"
  using demo_ofHandle(1) [of opts 3]
  by (auto simp: linux_bindHandle_def Let_def demo_accepts demo_support demo_alive demo_exe)

lemma linux_CanEver_code: "0 < nCode n \<Longrightarrow> \<exists>e. CanEver (linux_ceiling h) n = Some e"
  using CanEver_None_iff [of "linux_ceiling h" n]
  by (auto simp: linux_ceiling_best need_le_def rung_defs word_gt_0)

theorem linux_ceiling_sound_witness:
  "\<exists>p b fds. linux_bindHandle demo_host None 0 [] = (Inr (b, p), fds) \<and>
     Check p (zero_Need\<lparr>nCode := ProofPID\<rparr>) \<noteq> None"
proof -
  obtain p where b: "linux_bindHandle demo_host None 0 [] =
      (Inr (\<lparr>lbPidfd = 7, lbPid = 42, lbExe = ''/usr/bin/app''\<rparr>, p), [7])"
    using demo_bind by blast
  obtain e where "CanEver (linux_ceiling demo_host) (zero_Need\<lparr>nCode := ProofPID\<rparr>) = Some e"
    using linux_CanEver_code [of "zero_Need\<lparr>nCode := ProofPID\<rparr>" demo_host] by (auto simp: rung_defs)
  then show ?thesis using linux_ceiling_sound [OF _ b] b by fastforce
qed

lemma old_kernel_start: "processStartTime old_kernel (Suc (Suc 0)) 42 = Inr (Unix 1700000005 0)"
  by code_simp

theorem linux_recycled_pid_witness:
  "\<exists>p. linux_ofHandle old_kernel None 0 = Inr p \<and> prRecycled (attr_value (pProcess p)) \<and>
     (\<exists>e. AtLeast (pPath p) ProofPID = Inl e)"
proof -
  obtain p where p: "linux_ofHandle old_kernel None 0 = Inr p" using demo_ofHandle by blast
  have "connectedAt None (lhNow old_kernel) + startTimeSlop < Unix 1700000005 0"
    by code_simp
  then show ?thesis
    using p linux_recycled_pid [of old_kernel None 0 p 42 1000 1000 "Errno 92" "Unix 1700000005 0"] old_kernel_start
    by auto
qed

subsection \<open>What a bound path is evidence of\<close>

text \<open>
  The documented behaviour of the kernel that the binding relies on, for a kernel in which
  \<open>holder t pid\<close> is the process that has number \<open>pid\<close> at instant \<open>t\<close>, \<open>runs t q\<close> the file
  process \<open>q\<close> executes then, and \<open>q0\<close> the process that opened the connection:
  while a pidfd of the connection is open its number is not given to another process, and
  /proc/<pid>/exe answers about the process that has the number.
\<close>

definition pidfd_pins :: "(nat \<Rightarrow> int \<Rightarrow> 'q option) \<Rightarrow> 'q \<Rightarrow> int \<Rightarrow> nat \<Rightarrow> bool" where
  "pidfd_pins holder q0 pid t \<longleftrightarrow> (\<forall>t' \<ge> t. holder t' pid = Some q0 \<or> holder t' pid = None)"

definition exe_of_holder :: "linux_host \<Rightarrow> (nat \<Rightarrow> int \<Rightarrow> 'q option) \<Rightarrow> (nat \<Rightarrow> 'q \<Rightarrow> string) \<Rightarrow> bool" where
  "exe_of_holder h holder runs \<longleftrightarrow>
     (\<forall>t pid link. lhExe h t pid = Inr link \<longrightarrow> (\<exists>q. holder t pid = Some q \<and> runs t q = link))"

lemma processExe_image:
  assumes "processExe h t pid = Inr (exe, deleted)" and "exe_of_holder h holder runs"
    and "pidfd_pins holder q0 pid t0" "t0 \<le> t"
  shows "runs t q0 = (if deleted then exe @ '' (deleted)'' else exe)"
proof -
  obtain link where link: "lhExe h t pid = Inr link"
    using assms(1) by (auto simp: processExe_def split: sum.splits)
  then obtain q where q: "holder t pid = Some q" "runs t q = link"
    using assms(2) unfolding exe_of_holder_def by blast
  have "q = q0" using assms(3,4) q(1) by (auto simp: pidfd_pins_def dest: spec [of _ t])
  moreover have "link = (if deleted then exe @ '' (deleted)'' else exe)"
    using assms(1) link by (auto simp: processExe_def CutSuffix_def HasSuffix_def split: if_splits)
      (metis append_take_drop_id)
  ultimately show ?thesis using q by simp
qed

lemma resolve_process_path:
  assumes "attr_proof (pPath (resolve_process h at t pid pn p)) = ProofBound"
  shows "processExe h (t + 3) pid = Inr (attr_value (pPath (resolve_process h at t pid pn p)), False) \<and> pinBound pn"
  using assms
  by (auto simp: resolve_process_def resolve_path_def Let_def rung_defs
      split: sum.splits prod.splits option.splits if_splits bool.splits)



text \<open>
  A Linux peer that executes another program after it was bound is refused. Whenever the
  process is still alive and its image can be read at the recheck, \<^verbatim>\<open>Binding.Peer\<close> and
  \<^verbatim>\<open>Binding.Check\<close> answer only if the image is the one captured at \<^verbatim>\<open>Bind\<close>, and otherwise fail
  with \<^verbatim>\<open>ErrPeerMoved\<close>.
\<close>

theorem linux_exec_refused:
  assumes bind: "linux_bindHandle h opts t fds = (Inr (i, p), fds')"
    and B: "Bind linux_binder (Inr ((i, fds'), p)) now = Inr (b, st)"
    and live: "Alive b (h', t') st = Inr True"
    and exe: "processExe h' (t' + 1) (lbPid i) = Inr (exe, deleted)"
  shows "\<exists>captured gone. processExe h (t + 2) (lbPid i) = Inr (captured, gone) \<and>
     Binding_Peer b (h', t') st =
       (if exe = captured then Inr p else Inl (Errorf [Err ErrPeerMoved])) \<and>
     (exe \<noteq> captured \<longrightarrow> errors_Is (Binding_Check b (h', t') st n) (Err ErrPeerMoved))"
proof -
  have bs: "b = \<lparr>bPeer = p, bBoundAt = now, bInner = bindingState_binder linux_binder\<rparr>"
      "st = new_bindingState (i, fds')"
    using B by (auto simp: Bind_def)
  obtain captured gone where c: "processExe h (t + 2) (lbPid i) = Inr (captured, gone)" "lbExe i = captured"
    using bind by (auto elim!: linux_bindHandle_InrE)
  have "linux_alive (h', t') (i, fds') = Inr True"
    using live by (simp add: bs Alive_def bindingState_binder_def state_alive_def new_bindingState_def linux_binder_def)
  then have "Binding_Peer b (h', t') st = (if exe = captured then Inr p else Inl (Errorf [Err ErrPeerMoved]))"
    using exe c by (simp add: bs Binding_Peer_def bindingState_binder_def state_recheck_def
        new_bindingState_def linux_binder_def linux_recheck_def)
  then show ?thesis using c by (simp add: Binding_Check_def)
qed

theorem linux_exec_refused_witness:
  "\<exists>p i fds b st. linux_bindHandle demo_host None 0 [] = (Inr (i, p), fds) \<and>
     Bind linux_binder (Inr ((i, fds), p)) 5 = Inr (b, st) \<and>
     Binding_Peer b (demo_host, 30) st = Inl (Errorf [Err ErrPeerMoved])"
proof -
  let ?i = "\<lparr>lbPidfd = 7, lbPid = 42, lbExe = ''/usr/bin/app''\<rparr>"
  obtain p where b: "linux_bindHandle demo_host None 0 [] = (Inr (?i, p), [7])" using demo_bind by blast
  obtain bb st where B: "Bind linux_binder (Inr ((?i, [7]), p)) 5 = Inr (bb, st)"
    by (simp add: Bind_def)
  have live: "Alive bb (demo_host, 30) st = Inr True"
    using B demo_alive [of 30]
    by (auto simp: Bind_def Alive_def bindingState_binder_def state_alive_def new_bindingState_def
        linux_binder_def linux_alive_def)
  have "Binding_Peer bb (demo_host, 30) st = Inl (Errorf [Err ErrPeerMoved])"
    using linux_exec_refused [OF b B live, of "''/usr/bin/other''" False zero_Need]
      demo_exe [of "30 + 1" 42] demo_exe [of "0 + 2" 42] by auto
  then show ?thesis using b B by blast
qed



text \<open>
  C9: closing refuses later questions for a binding made by \<^verbatim>\<open>Bind\<close> but not for one made by
  \<^verbatim>\<open>BindServer\<close>. On Linux, after \<^verbatim>\<open>Close\<close>, \<^verbatim>\<open>Binding.Peer\<close> of a server binding hands out the
  captured peer: its closed pidfd is \<open>-1\<close>, /proc/self/fdinfo/-1 cannot be read, and \<^verbatim>\<open>recheck\<close>
  takes that for a peer that exited.
\<close>

theorem linux_server_binding_after_close:
  assumes bind: "linux_bindServerHandle h opts t fds = (Inr (i, p), fds')"
    and B: "BindServer linux_binder (Inr ((i, fds'), p)) now = Inr (b, st)"
    and B': "Bind linux_binder (Inr ((i, fds'), p)) now = Inr (b', st')"
    and pidfd: "0 \<le> lbPidfd i"
    and nofd: "lhFdinfo h' t' (-1) = Inl err"
  shows "Binding_Peer b (h', t') (snd (Binding_Close b w st)) = Inr p \<and>
    Binding_Peer b' (h', t') (snd (Binding_Close b' w st')) = Inl (Err ErrClosed)"
proof -
  have b: "b = \<lparr>bPeer = p, bBoundAt = now, bInner = linux_binder\<rparr>" "st = (i, fds')"
    using B by (auto simp: BindServer_def)
  have "linux_recheck (h', t') (snd (linux_release w (i, fds'))) = None"
    using pidfd nofd by (auto simp: linux_recheck_def linux_release_def linux_alive_def pidfdAlive_def
        split: prod.splits)
  then have server: "Binding_Peer b (h', t') (snd (Binding_Close b w st)) = Inr p"
    by (simp add: b Binding_Peer_def Binding_Close_def linux_binder_def)
  have b': "bInner b' = bindingState_binder linux_binder" using B' by (auto simp: Bind_def)
  have "Binding_Peer b' (h', t') (snd (Binding_Close b' w st')) = Inl (Err ErrClosed)"
    using bs.closed_views_refuse(1) [of "snd (Binding_Close b' w st')" b' 0 linux_binder "(h', t')"]
      bs.release_releases [of linux_binder w st'] by (simp add: b' Binding_Close_def)
  with server show ?thesis by blast
qed

theorem linux_server_binding_after_close_witness:
  "\<exists>p i fds b st. linux_bindServerHandle demo_host None 0 [] = (Inr (i, p), fds) \<and>
     BindServer linux_binder (Inr ((i, fds), p)) 5 = Inr (b, st) \<and>
     Binding_Peer b (demo_host, 30) (snd (Binding_Close b (demo_host, 29) st)) = Inr p"
proof -
  let ?i = "\<lparr>lbPidfd = 7, lbPid = 42, lbExe = ''/usr/bin/app''\<rparr>"
  obtain p where b: "linux_bindServerHandle demo_host None 0 [] = (Inr (?i, p), [7])"
    using demo_bind by (auto simp: linux_bindServerHandle_def)
  obtain sb st where B: "BindServer linux_binder (Inr ((?i, [7]), p)) 5 = Inr (sb, st)"
    by (simp add: BindServer_def)
  obtain cb cst where C: "Bind linux_binder (Inr ((?i, [7]), p)) 5 = Inr (cb, cst)"
    by (simp add: Bind_def)
  have "lhFdinfo demo_host 30 (-1) = Inl (Errno 2)" by (simp add: demo_host_def)
  then have "Binding_Peer sb (demo_host, 30) (snd (Binding_Close sb (demo_host, 29) st)) = Inr p"
    using linux_server_binding_after_close [OF b B C, of demo_host 30 "Errno 2" "(demo_host, 29)"] by simp
  then show ?thesis using b B by blast
qed

end
