(* ===== verification/Go_Numbers.thy ===== *)
theory Go_Numbers
  imports Go_Strings
begin

section \<open>Unsigned numbers in text\<close>

text \<open>
  \<^verbatim>\<open>strconv.ParseUint\<close> with an explicit base, and \<^verbatim>\<open>strconv.FormatUint\<close> in base ten. The value
  that comes with an error is part of the model: some callers ignore the error.
\<close>

definition digit_of :: "char \<Rightarrow> nat option" where
  "digit_of c =
     (let n = (of_char c :: nat) in
      if 48 \<le> n \<and> n \<le> 57 then Some (n - 48)
      else if 97 \<le> n \<and> n \<le> 122 then Some (n - 87)
      else if 65 \<le> n \<and> n \<le> 90 then Some (n - 55)
      else None)"

text \<open>The loop: a character that is no digit of the base is an error of syntax and gives zero, a value out of range gives the greatest.\<close>

fun uint_loop :: "nat \<Rightarrow> nat \<Rightarrow> nat \<Rightarrow> string \<Rightarrow> nat \<times> bool" where
  "uint_loop base bits n [] = (n, True)"
| "uint_loop base bits n (c # cs) =
     (case digit_of c of
        None \<Rightarrow> (0, False)
      | Some d \<Rightarrow>
          if base \<le> d then (0, False)
          else if 2 ^ bits \<le> n * base + d then (2 ^ bits - 1, False)
          else uint_loop base bits (n * base + d) cs)"

definition ParseUint :: "string \<Rightarrow> nat \<Rightarrow> nat \<Rightarrow> nat \<times> bool" where
  "ParseUint s base bits = (if s = [] then (0, False) else uint_loop base bits 0 s)"

definition FormatUint :: "nat \<Rightarrow> string" where "FormatUint n = utoa n"

subsection \<open>Numbers in a fixed number of upper-case digits\<close>

text \<open>What C's \<^verbatim>\<open>%0kX\<close> prints of a number below \<open>16 ^ k\<close>.\<close>

definition hex_upper :: "nat \<Rightarrow> char" where
  "hex_upper d = char_of (if d < 10 then 48 + d else 55 + d)"

fun hex_fixed :: "nat \<Rightarrow> nat \<Rightarrow> string" where
  "hex_fixed 0 n = []"
| "hex_fixed (Suc k) n = hex_fixed k (n div 16) @ [hex_upper (n mod 16)]"

lemma length_hex_fixed [simp]: "length (hex_fixed k n) = k"
  by (induction k arbitrary: n) auto

lemma digit_of_hex_upper: "d < 16 \<Longrightarrow> digit_of (hex_upper d) = Some d"
  by (simp add: digit_of_def hex_upper_def Let_def)

lemma uint_loop_append:
  "uint_loop base bits n s = (m, True) \<Longrightarrow> uint_loop base bits n (s @ t) = uint_loop base bits m t"
  by (induction base bits n s rule: uint_loop.induct) (auto split: option.splits if_splits)

lemma uint_loop_hex: "n < 16 ^ k \<Longrightarrow> 4 * k \<le> bits \<Longrightarrow> uint_loop 16 bits 0 (hex_fixed k n) = (n, True)"
proof (induction k arbitrary: n)
  case (Suc k)
  have "n div 16 < 16 ^ k" using Suc.prems(1) by (simp add: less_mult_imp_div_less mult.commute)
  then have ih: "uint_loop 16 bits 0 (hex_fixed k (n div 16)) = (n div 16, True)" using Suc by simp
  have "(16 :: nat) ^ Suc k = 2 ^ (4 * Suc k)" by (simp only: power_mult) simp
  also have "\<dots> \<le> 2 ^ bits" using Suc.prems(2) by (intro power_increasing) auto
  finally have "n < 2 ^ bits" using Suc.prems(1) by linarith
  then have "uint_loop 16 bits (n div 16) [hex_upper (n mod 16)] = (n, True)" by (simp add: digit_of_hex_upper)
  then show ?case using uint_loop_append [OF ih] by simp
qed simp

lemma ParseUint_hex:
  assumes "0 < k" "n < 16 ^ k" "4 * k \<le> bits"
  shows "ParseUint (hex_fixed k n) 16 bits = (n, True)"
proof -
  have "hex_fixed k n \<noteq> []" using length_hex_fixed [of k n] assms(1) by fastforce
  then show ?thesis using uint_loop_hex [OF assms(2,3)] by (simp add: ParseUint_def)
qed

lemma uint_loop_utoa: "n < 2 ^ bits \<Longrightarrow> uint_loop 10 bits 0 (utoa n) = (n, True)"
proof (induction n rule: utoa.induct)
  case (1 n)
  have d: "d < 10 \<Longrightarrow> digit_of (digit_char d) = Some d" for d by (simp add: digit_of_def digit_char_def Let_def)
  show ?case
  proof (cases "n < 10")
    case True
    then show ?thesis using 1(2) d [of n] by (simp add: utoa.simps [of n])
  next
    case False
    then have "uint_loop 10 bits 0 (utoa (n div 10)) = (n div 10, True)" using 1 by simp
    from uint_loop_append [OF this] show ?thesis using False 1(2) d [of "n mod 10"] by (simp add: utoa.simps [of n])
  qed
qed

lemma ParseUint_utoa: "n < 2 ^ bits \<Longrightarrow> ParseUint (utoa n) 10 bits = (n, True)"
  by (simp add: ParseUint_def uint_loop_utoa)

end
