(* ===== verification/Loopback.thy ===== *)
theory Loopback
  imports Linux_Identity Net_Addr Go_Numbers
begin

section \<open>Loopback connections (loopback.go, loopback\_linux.go)\<close>

text \<open>
  A loopback TCP connection carries no credentials. On Linux the client's end is looked up in
  /proc/net/tcp, the one process that holds its inode is found by scanning descriptor tables,
  pinned, and looked at again behind the pin. The answers of the system are fields of the host;
  those that can change take the instant of the read. A scan is not atomic: what it sees of
  each process at one instant is a separate answer, and nothing relates them.
\<close>

definition TransportLoopback :: string where "TransportLoopback = ''tcp-loopback''"

record loopback_host =
  lpLinux :: linux_host
  lpOpenSelf :: "go_error + int"
  lpGetuid :: int
  lpBigEndian :: bool
  lpNetTcp :: "nat \<Rightarrow> go_error + string"
  lpProcDir :: "nat \<Rightarrow> go_error + string list"
  lpOwner :: "nat \<Rightarrow> string \<Rightarrow> (int \<times> int) option"
  lpFdLinks :: "nat \<Rightarrow> int \<Rightarrow> go_error + string option list"
  lpPidfdOpen :: "nat \<Rightarrow> int \<Rightarrow> go_error + int"

subsection \<open>The ceiling\<close>

definition pidfdOpenSupport :: "loopback_host \<Rightarrow> bool \<times> string" where
  "pidfdOpenSupport h =
     (case lpOpenSelf h of
        Inl err \<Rightarrow> (False, ''pidfd_open is unavailable on this kernel ('' @ lhErrText (lpLinux h) err @
          ''); it needs Linux 5.3, and without it a scanned pid cannot be pinned'')
      | Inr fd \<Rightarrow> (True, []))"

definition whySocketUid :: string where
  "whySocketUid = ''the uid /proc/net/tcp reports is the credential the kernel attached to the socket when it was created''"

definition loopbackCeiling :: "loopback_host \<Rightarrow> Limits" where
  "loopbackCeiling h =
     (case pidfdOpenSupport h of
        (ok, why) \<Rightarrow>
          (let binding = (if ok then ''/proc/net/tcp names the client socket's inode and owning uid; the one same-uid process whose descriptor table holds that inode is pinned with pidfd_open and its image path captured, and a socket held by two processes, or later by another, is refused as moved''
                          else why @ '', so this machine cannot bind a loopback peer'');
               path = (if ok then ProofBound else ProofNone)
           in \<lparr>lPlatform = ''linux'',
               lBest = \<lparr>nUser = ProofKernel, nProcess = path, nPath = path, nPackage = path, nCode = ProofNone\<rparr>,
               lWhy = [''user'' \<mapsto> whySocketUid,
                       ''process'' \<mapsto> ''found by scanning same-uid descriptor tables for the socket inode, then pinned with pidfd_open and scanned again behind the pin'',
                       ''path'' \<mapsto> ''/proc/<pid>/exe read behind the pidfd; a path is a name, not an identity'',
                       ''package'' \<mapsto> ''a sandbox application id read behind the pidfd; '' @ whyPackageAdvisory,
                       ''code'' \<mapsto> whyNoCode],
               lTransport = TransportLoopback, lBindable = ok, lBinding = binding,
               lStronger = ''unix: SO_PEERCRED and SO_PEERPIDFD are stamped onto the connection itself, so the process needs no scan''\<rparr>))"

subsection \<open>The socket table\<close>

record tcpRow =
  twEstablished :: bool
  twUid :: int
  twInode :: nat

text \<open>\<^verbatim>\<open>binary.NativeEndian.PutUint32\<close>.\<close>

definition native_bytes :: "bool \<Rightarrow> 32 word \<Rightarrow> bytes" where
  "native_bytes big w = (if big then put_be32 w else put_le32 w)"

definition procAddr :: "bool \<Rightarrow> string \<Rightarrow> AddrPort option" where
  "procAddr big s =
     (case Cut s (CHR '':'') of
        (host, port, ok) \<Rightarrow>
          if \<not> ok \<or> length host \<noteq> 8 then None
          else (case (ParseUint host 16 32, ParseUint port 16 16) of
                  ((a, True), (p, True)) \<Rightarrow> Some (Addr4 (native_bytes big (of_nat a)), of_nat p)
                | _ \<Rightarrow> None))"

fun socket_rows :: "bool \<Rightarrow> AddrPort \<Rightarrow> AddrPort \<Rightarrow> string list \<Rightarrow> go_error + tcpRow option" where
  "socket_rows big client server [] = Inr None"
| "socket_rows big client server (line # rest) =
     (let f = Fields line in
      if length f < 10 then socket_rows big client server rest
      else if procAddr big (f ! 1) \<noteq> Some client \<or> procAddr big (f ! 2) \<noteq> Some server then socket_rows big client server rest
      else (case (ParseInt64 (f ! 7), ParseUint (f ! 9) 10 64) of
              (Some uid, (inode, True)) \<Rightarrow>
                Inr (Some \<lparr>twEstablished = (fst (ParseUint (f ! 3) 16 8) = 1), twUid = uid, twInode = inode\<rparr>)
            | _ \<Rightarrow> Inl (New ''/proc/net/tcp row is not in the expected form'')))"

definition socketRow :: "loopback_host \<Rightarrow> nat \<Rightarrow> AddrPort \<Rightarrow> AddrPort \<Rightarrow> go_error + tcpRow option" where
  "socketRow h t client server =
     (case lpNetTcp h t of
        Inl err \<Rightarrow> Inl err
      | Inr data \<Rightarrow> socket_rows (lpBigEndian h) client server (tl (Split data newline)))"

subsection \<open>The holders of a socket\<close>

definition socket_link :: "nat \<Rightarrow> string" where "socket_link inode = ''socket:['' @ FormatUint inode @ '']''"

definition holds :: "loopback_host \<Rightarrow> nat \<Rightarrow> int \<Rightarrow> string \<Rightarrow> bool" where
  "holds h t pid link = (case lpFdLinks h t pid of Inl err \<Rightarrow> False | Inr targets \<Rightarrow> Some link \<in> set targets)"

fun holder_scan :: "loopback_host \<Rightarrow> nat \<Rightarrow> string \<Rightarrow> int \<Rightarrow> string list \<Rightarrow> int list" where
  "holder_scan h t link uid [] = []"
| "holder_scan h t link uid (name # names) =
     (case ParseInt64 name of
        None \<Rightarrow> holder_scan h t link uid names
      | Some pid \<Rightarrow>
          if pid \<le> 0 then holder_scan h t link uid names
          else (case lpOwner h t name of
                  None \<Rightarrow> holder_scan h t link uid names
                | Some (owner, gid) \<Rightarrow>
                    if owner \<noteq> uid then holder_scan h t link uid names
                    else if holds h t pid link then pid # holder_scan h t link uid names
                    else holder_scan h t link uid names))"

definition holders :: "loopback_host \<Rightarrow> nat \<Rightarrow> nat \<Rightarrow> int \<Rightarrow> go_error + int list" where
  "holders h t inode uid =
     (case lpProcDir h t of
        Inl err \<Rightarrow> Inl err
      | Inr names \<Rightarrow> Inr (holder_scan h t (socket_link inode) uid names))"

subsection \<open>The binding\<close>

record loopbackLinuxBinding =
  lkClient :: AddrPort
  lkServer :: AddrPort
  lkInode :: nat
  lkUid :: int
  lkPidfd :: int
  lkPid :: int
  lkExe :: string

type_synonym loopback_handle = "loopbackLinuxBinding \<times> int list"

definition loopback_release :: "loopback_host \<times> nat \<Rightarrow> loopback_handle \<Rightarrow> error \<times> loopback_handle" where
  "loopback_release = (\<lambda>(h, t) (b, fds).
     if lkPidfd b < 0 then (None, (b, fds))
     else (lhClose (lpLinux h) t (lkPidfd b), (b\<lparr>lkPidfd := -1\<rparr>, remove1 (lkPidfd b) fds)))"

definition loopback_alive :: "loopback_host \<times> nat \<Rightarrow> loopback_handle \<Rightarrow> go_error + bool" where
  "loopback_alive = (\<lambda>(h, t) (b, fds). pidfdAlive (lpLinux h) t (lkPidfd b) (lkPid b))"

text \<open>\<^verbatim>\<open>emptyHolderRescan\<close>: whether the second reading shows the connection closed, and what it contradicts.\<close>

definition emptyHolderRescan :: "loopbackLinuxBinding \<Rightarrow> tcpRow option \<Rightarrow> bool \<times> error" where
  "emptyHolderRescan b row =
     (case row of
        None \<Rightarrow> (True, None)
      | Some r \<Rightarrow>
          if \<not> twEstablished r then (True, None)
          else if twInode r \<noteq> lkInode b then (False, Some (Errorf [Err ErrPeerMoved]))
          else (False, None))"

text \<open>The tail of \<^verbatim>\<open>recheck\<close>: the scan must show the pinned process alone, still running the captured file.\<close>

definition recheck_holders :: "loopback_host \<Rightarrow> nat \<Rightarrow> loopbackLinuxBinding \<Rightarrow> int list \<Rightarrow> error" where
  "recheck_holders h t b pids =
     (if pids \<noteq> [lkPid b] then Some (Errorf [Err ErrPeerMoved])
      else (case processExe (lpLinux h) t (lkPid b) of
              Inl err \<Rightarrow> None
            | Inr (exe, deleted) \<Rightarrow> if exe \<noteq> lkExe b then Some (Errorf [Err ErrPeerMoved]) else None))"

definition loopback_check :: "loopback_host \<Rightarrow> nat \<Rightarrow> loopbackLinuxBinding \<Rightarrow> error" where
  "loopback_check h t b =
     (case socketRow h t (lkClient b) (lkServer b) of
        Inl err \<Rightarrow> None
      | Inr None \<Rightarrow> None
      | Inr (Some row) \<Rightarrow>
          if \<not> twEstablished row then None
          else if twInode row \<noteq> lkInode b then Some (Errorf [Err ErrPeerMoved])
          else (case holders h (t + 1) (lkInode b) (lkUid b) of
                  Inl err \<Rightarrow> None
                | Inr pids \<Rightarrow>
                    if pids = [] then
                      (case socketRow h (t + 2) (lkClient b) (lkServer b) of
                         Inl readErr \<Rightarrow> recheck_holders h (t + 3) b pids
                       | Inr again \<Rightarrow>
                           (case emptyHolderRescan b again of
                              (shut, err) \<Rightarrow> if shut \<or> err \<noteq> None then err else recheck_holders h (t + 3) b pids))
                    else recheck_holders h (t + 3) b pids))"

definition loopback_binder :: "(loopback_host \<times> nat, loopback_handle) Binder" where
  "loopback_binder =
     \<lparr>recheck = (\<lambda>(h, t) (b, fds). loopback_check h t b), alive = loopback_alive, release = loopback_release\<rparr>"

text \<open>What is said of the pinned process once nothing contradicts it.\<close>

definition loopback_peer :: "loopback_host \<Rightarrow> nat \<Rightarrow> int \<Rightarrow> int \<Rightarrow> string \<times> bool \<Rightarrow> Time \<Rightarrow> Peer" where
  "loopback_peer h t uid pid img started =
     (let user = zero_User\<lparr>uKind := ''posix'', uUID := uid,
            uGID := (case lpOwner h t (itoa pid) of Some (owner, gid) \<Rightarrow> gid | None \<Rightarrow> -1)\<rparr>;
          p = \<lparr>pPlatform = ''linux'', pTransport = TransportLoopback, pObservedAt = lhNow (lpLinux h),
               pUser = attr ''user'' user ProofKernel (whySocketUid @ ''; the gid is the pinned holder's''),
               pProcess = attr ''process'' (zero_Process\<lparr>prPID := pid, prStartTime := started\<rparr>) ProofBound
                 ''the one same-uid process whose descriptor table holds the client socket, pinned with pidfd_open and scanned again behind the pin'',
               pPath = (if snd img then attr ''path'' (fst img) ProofPID whyDeleted
                        else attr ''path'' (fst img) ProofBound ''read behind the pidfd; a path is a name, not an identity - see CONTRACT.md''),
               pPackage = (case sandboxPackage (lpLinux h) (t + 1) pid of
                             (nm, why) \<Rightarrow> if nm = [] then unknown [] ''package'' why
                                         else attr ''package'' nm ProofBound (why @ ''; '' @ whyPackageAdvisory)),
               pCode = unknown zero_Code ''code'' whyNoCode, pNotes = [], pEvidenceValidUntil = 0\<rparr>
      in add_note ''transport: a loopback TCP connection carries no credentials; the process came from a descriptor-table scan'' p)"

text \<open>From the scan's one holder: pin it, look behind the pin, and check once more.\<close>

definition pin_holder ::
  "loopback_host \<Rightarrow> AddrPort \<Rightarrow> AddrPort \<Rightarrow> Options option \<Rightarrow> nat \<Rightarrow> int list \<Rightarrow> tcpRow \<Rightarrow> int \<Rightarrow>
    (go_error + loopbackLinuxBinding \<times> Peer) \<times> int list" where
  "pin_holder h client server opts t fds row pid =
     (case lpPidfdOpen h t pid of
        Inl err \<Rightarrow> (Inl (Errorf [Err ErrPeerGone]), fds)
      | Inr pidfd \<Rightarrow>
          (let fds1 = pidfd # fds;
               b = \<lparr>lkClient = client, lkServer = server, lkInode = twInode row, lkUid = twUid row, lkPidfd = pidfd,
                    lkPid = pid, lkExe = []\<rparr>;
               fail = (\<lambda>err. (Inl err, snd (snd (loopback_release (h, t) (b, fds1)))))
           in if pidfdAlive (lpLinux h) (t + 1) pidfd pid \<noteq> Inr True then fail (Errorf [Err ErrPeerGone])
              else if \<not> holds h (t + 2) pid (socket_link (twInode row)) then fail (Errorf [Err ErrPeerMoved])
              else (case processExe (lpLinux h) (t + 3) pid of
                      Inl err \<Rightarrow> fail (Errorf [Err ErrPeerGone])
                    | Inr (exe, deleted) \<Rightarrow>
                        (let b = b\<lparr>lkExe := exe\<rparr> in
                         case processStartTime (lpLinux h) (t + 4) pid of
                           Inl err \<Rightarrow> fail (Errorf [Err ErrNoBinding])
                         | Inr started \<Rightarrow>
                             if connectedAt opts (lhNow (lpLinux h)) + startTimeSlop < started then fail (Errorf [Err ErrPeerMoved])
                             else (case loopback_check h (t + 5) b of
                                     Some err \<Rightarrow> fail err
                                   | None \<Rightarrow> (Inr (b, loopback_peer h (t + 9) (twUid row) pid (exe, deleted) started), fds1))))))"

definition bindLoopback ::
  "loopback_host \<Rightarrow> AddrPort \<Rightarrow> AddrPort \<Rightarrow> Options option \<Rightarrow> nat \<Rightarrow> int list \<Rightarrow>
    (go_error + loopbackLinuxBinding \<times> Peer) \<times> int list" where
  "bindLoopback h client server opts t fds =
     (if \<not> fst (pidfdOpenSupport h) then (Inl (Errorf [Err ErrNoBinding]), fds)
      else (case socketRow h t client server of
              Inl err \<Rightarrow> (Inl (Errorf [Err ErrNoBinding]), fds)
            | Inr None \<Rightarrow> (Inl (Errorf [Err ErrPeerGone]), fds)
            | Inr (Some row) \<Rightarrow>
                if twUid row \<noteq> lpGetuid h then (Inl (Errorf [Err ErrNoBinding]), fds)
                else if twEstablished row \<and> twInode row = 0 then (Inl (Errorf [Err ErrPeerPending]), fds)
                else (case holders h (t + 1) (twInode row) (twUid row) of
                        Inl err \<Rightarrow> (Inl (Errorf [Err ErrNoBinding]), fds)
                      | Inr [] \<Rightarrow> (Inl (Errorf [Err ErrPeerPending]), fds)
                      | Inr [pid] \<Rightarrow> pin_holder h client server opts (t + 2) fds row pid
                      | Inr _ \<Rightarrow> (Inl (Errorf [Err ErrPeerMoved]), fds))))"

subsection \<open>Addresses and the portable entry points\<close>

datatype net_addr = TCPAddr bytes int | OtherAddr

definition loopbackAddr :: "net_addr \<Rightarrow> go_error + AddrPort" where
  "loopbackAddr a =
     (case a of
        OtherAddr \<Rightarrow> Inl (Errorf [Err ErrUnsupportedConn])
      | TCPAddr ip port \<Rightarrow>
          (case AddrFromSlice ip of
             None \<Rightarrow> Inl (Errorf [Err ErrUnsupportedConn])
           | Some addr \<Rightarrow>
               (let addr = Unmap addr in
                if \<not> Is4 addr \<or> \<not> IsLoopback addr then Inl (Errorf [Err ErrRemotePeer]) else Inr (addr, of_int port))))"

text \<open>A connection that is a \<^verbatim>\<open>*net.TCPConn\<close> has a local and a remote address.\<close>

definition BindLoopback ::
  "(net_addr \<times> net_addr) option \<Rightarrow> loopback_host \<Rightarrow> Options option \<Rightarrow> nat \<Rightarrow> int list \<Rightarrow> Time \<Rightarrow>
    (go_error + (loopback_host \<times> nat, loopback_handle bindingState) Binding \<times> loopback_handle bindingState) \<times> int list" where
  "BindLoopback c h opts t fds now =
     (case c of
        None \<Rightarrow> (Inl (Errorf [Err ErrUnsupportedConn]), fds)
      | Some (local, remote) \<Rightarrow>
          (case loopbackAddr local of
             Inl err \<Rightarrow> (Inl err, fds)
           | Inr server \<Rightarrow>
               (case loopbackAddr remote of
                  Inl err \<Rightarrow> (Inl err, fds)
                | Inr client \<Rightarrow>
                    (case bindLoopback h client server opts t fds of
                       (Inl err, fds') \<Rightarrow> (Inl err, fds')
                     | (Inr (b, p), fds') \<Rightarrow> (Bind loopback_binder (Inr ((b, fds'), p)) now, fds')))))"

definition Rung :: "Peer \<Rightarrow> string" where
  "Rung p = pTransport p @ ''/'' @ pPlatform p @ '' user='' @ Proof_String (attr_proof (pUser p)) @
     '' process='' @ Proof_String (attr_proof (pProcess p)) @ '' path='' @ Proof_String (attr_proof (pPath p))"

subsection \<open>What a binding rests on\<close>

lemma bindLoopback_InrE:
  assumes "bindLoopback h client server opts t fds = (Inr (b, p), fds')"
  obtains row pidfd exe deleted started where
    "fst (pidfdOpenSupport h)" "socketRow h t client server = Inr (Some row)" "twUid row = lpGetuid h"
    "twEstablished row \<longrightarrow> twInode row \<noteq> 0" "holders h (t + 1) (twInode row) (twUid row) = Inr [lkPid b]"
    "lpPidfdOpen h (t + 2) (lkPid b) = Inr pidfd" "pidfdAlive (lpLinux h) (t + 3) pidfd (lkPid b) = Inr True"
    "holds h (t + 4) (lkPid b) (socket_link (twInode row))" "processExe (lpLinux h) (t + 5) (lkPid b) = Inr (exe, deleted)"
    "processStartTime (lpLinux h) (t + 6) (lkPid b) = Inr started"
    "\<not> connectedAt opts (lhNow (lpLinux h)) + startTimeSlop < started" "loopback_check h (t + 7) b = None"
    "b = \<lparr>lkClient = client, lkServer = server, lkInode = twInode row, lkUid = twUid row, lkPidfd = pidfd,
          lkPid = lkPid b, lkExe = exe\<rparr>"
    "p = loopback_peer h (t + 11) (twUid row) (lkPid b) (exe, deleted) started" "fds' = pidfd # fds"
  using assms
  by (auto simp: bindLoopback_def pin_holder_def Let_def eval_nat_numeral
      split: option.splits sum.splits if_splits list.splits prod.splits)

lemma loopback_peer_rungs:
  "rungs (loopback_peer h t uid pid img started) =
     \<lparr>nUser = ProofKernel, nProcess = ProofBound, nPath = (if snd img then ProofPID else ProofBound),
      nPackage = (if fst (sandboxPackage (lpLinux h) (t + 1) pid) = [] then ProofNone else ProofBound), nCode = ProofNone\<rparr>"
  by (auto simp: loopback_peer_def rungs_def add_note_def Let_def attr_def unknown_def split: prod.splits)

lemma loopbackCeiling_best:
  "fst (pidfdOpenSupport h) \<Longrightarrow> lBest (loopbackCeiling h) =
     \<lparr>nUser = ProofKernel, nProcess = ProofBound, nPath = ProofBound, nPackage = ProofBound, nCode = ProofNone\<rparr>"
  by (auto simp: loopbackCeiling_def Let_def split: prod.splits)

interpretation loopback_bind: bounded_transport
  "\<lambda>(h, client, server, opts, t, fds). loopbackCeiling h"
  "\<lambda>(h, client, server, opts, t, fds). map_sum id snd (fst (bindLoopback h client server opts t fds))"
proof unfold_locales
  fix a :: "loopback_host \<times> AddrPort \<times> AddrPort \<times> Options option \<times> nat \<times> int list" and p
  obtain h client server opts t fds where a: "a = (h, client, server, opts, t, fds)" by (cases a)
  assume "(case a of (h, client, server, opts, t, fds) \<Rightarrow> map_sum id snd (fst (bindLoopback h client server opts t fds))) = Inr p"
  then obtain b where "bindLoopback h client server opts t fds = (Inr (b, p), snd (bindLoopback h client server opts t fds))"
    by (cases "bindLoopback h client server opts t fds"; cases "fst (bindLoopback h client server opts t fds)") (auto simp: a)
  then show "need_le (rungs p) (lBest (case a of (h, client, server, opts, t, fds) \<Rightarrow> loopbackCeiling h))"
    by (rule bindLoopback_InrE) (auto simp: a loopback_peer_rungs loopbackCeiling_best need_le_def ladder_simps)
qed

interpretation loopback_fd: handle_owner loopback_binder "\<lambda>(b, fds). lkPidfd b < 0"
  by unfold_locales (auto simp: loopback_binder_def loopback_release_def split: prod.splits)

text \<open>
  The documented behaviour of the kernel the binding relies on: what a descriptor table shows
  under a number is open in the process that has the number then.
\<close>

definition links_of_holder ::
  "loopback_host \<Rightarrow> (nat \<Rightarrow> int \<Rightarrow> 'q option) \<Rightarrow> (nat \<Rightarrow> 'q \<Rightarrow> string \<Rightarrow> bool) \<Rightarrow> bool" where
  "links_of_holder h holder opens \<longleftrightarrow>
     (\<forall>t pid targets link. lpFdLinks h t pid = Inr targets \<longrightarrow> Some link \<in> set targets \<longrightarrow>
        (\<exists>q. holder t pid = Some q \<and> opens t q link))"


subsection \<open>Refusing what moved\<close>

lemma loopback_check_exact:
  assumes "socketRow h t (lkClient b) (lkServer b) = Inr (Some row)" "twEstablished row"
    and "holders h (t + 1) (lkInode b) (lkUid b) = Inr pids"
    and "pids = [] \<Longrightarrow> \<exists>again. socketRow h (t + 2) (lkClient b) (lkServer b) = Inr (Some again) \<and> twEstablished again"
    and "processExe (lpLinux h) (t + 3) (lkPid b) = Inr (exe, deleted)"
  shows "loopback_check h t b =
    (if twInode row = lkInode b \<and> pids = [lkPid b] \<and> exe = lkExe b then None else Some (Errorf [Err ErrPeerMoved]))"
  using assms by (cases "pids = []") (auto simp: loopback_check_def recheck_holders_def emptyHolderRescan_def)


text \<open>No error path of the bind keeps the pidfd, and releasing a binding closes exactly its own.\<close>

theorem loopback_bind_no_leak:
  assumes fds: "\<And>t pid fd. lpPidfdOpen h t pid = Inr fd \<Longrightarrow> 0 \<le> fd"
  shows "case bindLoopback h client server opts t fds of
      (Inl err, fds') \<Rightarrow> fds' = fds
    | (Inr (b, p), fds') \<Rightarrow> snd (snd (loopback_release w (b, fds'))) = fds"
proof -
  have fail: "snd (snd (loopback_release w (b, fd # fds))) = fds" if "lpPidfdOpen h t' pid = Inr fd" "lkPidfd b = fd" for w b fd t' pid
    using fds [OF that(1)] that(2) by (simp add: loopback_release_def split: prod.splits)
  show ?thesis
  proof (cases "bindLoopback h client server opts t fds")
    case (Pair r fds')
    show ?thesis
    proof (cases r)
      case (Inl err)
      then have "fds' = fds" using Pair fail
        by (auto simp: bindLoopback_def pin_holder_def Let_def split: option.splits sum.splits if_splits list.splits prod.splits)
      then show ?thesis using Pair Inl by simp
    next
      case (Inr bp)
      obtain b p where bp: "bp = (b, p)" by (cases bp)
      have "\<exists>pidfd. lkPidfd b = pidfd \<and> fds' = pidfd # fds \<and> lpPidfdOpen h (t + 2) (lkPid b) = Inr pidfd"
        by (rule bindLoopback_InrE [OF Pair [unfolded Inr bp]]) (metis loopbackLinuxBinding.select_convs(5))
      then have "snd (snd (loopback_release w (b, fds'))) = fds" using fail by blast
      then show ?thesis using Pair Inr bp by simp
    qed
  qed
qed

subsection \<open>Reading the table the kernel prints\<close>

text \<open>
  An entry of /proc/net/tcp. Its addresses and port are printed in upper-case hexadecimal, the
  address as the native integer of its bytes; the fields the program skips are any words.
\<close>

record tcp_entry =
  teLocal :: "bytes \<times> 16 word"
  teRemote :: "bytes \<times> 16 word"
  teState :: byte
  teUid :: nat
  teInode :: nat
  teSlot :: string
  teQueues :: string
  teTimer :: string
  teRetransmits :: string
  teTimeout :: string
  teMore :: "string list"

definition native_int :: "bool \<Rightarrow> bytes \<Rightarrow> 32 word" where
  "native_int big bs = (if big then uint32_be bs else uint32_le bs)"

definition addr_text :: "bool \<Rightarrow> bytes \<times> 16 word \<Rightarrow> string" where
  "addr_text big a = hex_fixed 8 (unat (native_int big (fst a))) @ '':'' @ hex_fixed 4 (unat (snd a))"

definition tcp_fields :: "bool \<Rightarrow> tcp_entry \<Rightarrow> string list" where
  "tcp_fields big e =
     [teSlot e, addr_text big (teLocal e), addr_text big (teRemote e), hex_fixed 2 (unat (teState e)), teQueues e, teTimer e,
      teRetransmits e, utoa (teUid e), teTimeout e, utoa (teInode e)] @ teMore e"

definition tcp_ok :: "tcp_entry \<Rightarrow> bool" where
  "tcp_ok e = (length (fst (teLocal e)) = 4 \<and> length (fst (teRemote e)) = 4 \<and> teUid e < 2 ^ 32 \<and> teInode e < 2 ^ 64)"

definition entry_row :: "tcp_entry \<Rightarrow> tcpRow" where
  "entry_row e = \<lparr>twEstablished = (teState e = 1), twUid = int (teUid e), twInode = teInode e\<rparr>"

lemma native_round_trip: "length bs = 4 \<Longrightarrow> native_bytes big (native_int big bs) = bs"
  by (simp add: native_bytes_def native_int_def put_le32_def uint32_le_def put_be32_uint32_be)

lemma hex_upper_not_colon: "d < 16 \<Longrightarrow> hex_upper d \<noteq> CHR '':''"
  using digit_of_hex_upper [of d] by (auto simp: digit_of_def)

lemma hex_fixed_no_colon: "CHR '':'' \<notin> set (hex_fixed k n)"
  by (induction k arbitrary: n) (auto dest!: hex_upper_not_colon [symmetric, OF mod_less_divisor, THEN notE, rotated])

lemma IndexByte_append: "c \<notin> set s \<Longrightarrow> IndexByte (s @ c # t) c = Some (length s)"
  by (induction s) auto

lemma procAddr_text: "length bs = 4 \<Longrightarrow> procAddr big (addr_text big (bs, port)) = Some (Addr4 bs, port)"
proof -
  assume "length bs = 4"
  have u: "unat (native_int big bs) < 16 ^ 8" "unat port < 16 ^ 4"
    using unsigned_less [of "native_int big bs"] unsigned_less [of port] by simp_all
  have "Cut (addr_text big (bs, port)) (CHR '':'') = (hex_fixed 8 (unat (native_int big bs)), hex_fixed 4 (unat port), True)"
    using IndexByte_append [OF hex_fixed_no_colon, of 8 "unat (native_int big bs)" "hex_fixed 4 (unat port)"]
    by (simp add: Cut_def addr_text_def)
  then show ?thesis using \<open>length bs = 4\<close> ParseUint_hex [OF _ u(1), of 32] ParseUint_hex [OF _ u(2), of 16]
    by (simp add: procAddr_def native_round_trip)
qed

lemma tcp_fields_nth:
  "tcp_fields big e ! 1 = addr_text big (teLocal e)" "tcp_fields big e ! 2 = addr_text big (teRemote e)"
  "tcp_fields big e ! 3 = hex_fixed 2 (unat (teState e))" "tcp_fields big e ! 7 = utoa (teUid e)"
  "tcp_fields big e ! 9 = utoa (teInode e)" "\<not> length (tcp_fields big e) < 10"
  by (simp_all add: tcp_fields_def nth_Cons')

lemma socket_rows_entry:
  assumes "tcp_ok e" "Fields line = tcp_fields big e"
  shows "socket_rows big (Addr4 ca, cp) (Addr4 sa, sp) (line # rest) =
    (if teLocal e = (ca, cp) \<and> teRemote e = (sa, sp) then Inr (Some (entry_row e))
     else socket_rows big (Addr4 ca, cp) (Addr4 sa, sp) rest)"
proof -
  have l: "procAddr big (addr_text big a) = Some (Addr4 (fst a), snd a)" if "length (fst a) = 4" for a
    using procAddr_text [OF that, of big "snd a"] by simp
  have st: "ParseUint (hex_fixed 2 (unat (teState e))) 16 8 = (unat (teState e), True)"
    using unsigned_less [of "teState e"] by (intro ParseUint_hex) simp_all
  have eq: "unat (teState e) = 1 \<longleftrightarrow> teState e = 1" by (metis unsigned_1 word_unat_eq_iff)
  have uid: "ParseInt64 (utoa (teUid e)) = Some (int (teUid e))"
    using assms(1) ParseInt64_itoa [of "int (teUid e)"] by (simp add: tcp_ok_def itoa_def)
  have inode: "ParseUint (utoa (teInode e)) 10 64 = (teInode e, True)"
    using assms(1) by (intro ParseUint_utoa) (simp add: tcp_ok_def)
  have ok: "length (fst (teLocal e)) = 4" "length (fst (teRemote e)) = 4" using assms(1) by (simp_all add: tcp_ok_def)
  show ?thesis
    by (cases "teLocal e"; cases "teRemote e")
      (use ok in \<open>simp add: Let_def assms(2) tcp_fields_nth l uid inode st eq entry_row_def del: One_nat_def\<close>)
qed

lemma socket_rows_read:
  assumes "list_all2 (\<lambda>line e. Fields line = tcp_fields big e \<and> newline \<notin> set line) ls es" "list_all tcp_ok es"
  shows "socket_rows big (Addr4 ca, cp) (Addr4 sa, sp) (ls @ [[]]) =
    Inr (map_option entry_row (find (\<lambda>e. teLocal e = (ca, cp) \<and> teRemote e = (sa, sp)) es))"
  using assms
proof (induction rule: list_all2_induct)
  case Nil
  then show ?case by (simp add: Let_def Fields_def FieldsFunc_def)
next
  case (Cons line ls e es)
  then show ?case using socket_rows_entry [of e line big ca cp sa sp "ls @ [[]]"] by simp
qed

lemma table_lines:
  assumes "list_all2 (\<lambda>line e. Fields line = tcp_fields big e \<and> newline \<notin> set line) ls es" "newline \<notin> set header"
  shows "Split (Join (header # ls @ [[]]) [newline]) newline = header # ls @ [[]]"
proof -
  have "newline \<notin> set w" if "w \<in> set ls" for w using assms(1) that by (auto simp: list_all2_conv_all_nth in_set_conv_nth)
  then show ?thesis using assms(2) by (intro Split_Join) auto
qed

text \<open>
  The socket table is read as the kernel prints it. Among entries printed in any order and
  with any padding, the row found for a client and a server is the first whose local end is
  that client and whose remote end that server, with its state, uid and inode; none when there
  is no such entry, in either byte order of the machine.
\<close>
theorem socket_table_read:
  assumes "list_all2 (\<lambda>line e. Fields line = tcp_fields (lpBigEndian h) e \<and> newline \<notin> set line) ls es"
    and "list_all tcp_ok es" and "newline \<notin> set header" and "lpNetTcp h t = Inr (Join (header # ls @ [[]]) [newline])"
  shows "socketRow h t (Addr4 ca, cp) (Addr4 sa, sp) =
    Inr (map_option entry_row (find (\<lambda>e. teLocal e = (ca, cp) \<and> teRemote e = (sa, sp)) es))"
  using assms(4) table_lines [OF assms(1,3)] socket_rows_read [OF assms(1,2)] by (simp add: socketRow_def)

subsection \<open>A host to run the model on\<close>

definition plain :: "string \<Rightarrow> bool" where "plain w = (w \<noteq> [] \<and> list_all (\<lambda>c. \<not> is_space c) w)"

lemma hex_upper_plain: "d < 16 \<Longrightarrow> \<not> is_space (hex_upper d)"
  using digit_of_hex_upper [of d] by (auto simp: digit_of_def is_space_def Let_def split: if_splits)

lemma hex_fixed_plain: "list_all (\<lambda>c. \<not> is_space c) (hex_fixed k n)"
  by (induction k arbitrary: n) (auto simp: hex_upper_plain)

lemma utoa_plain: "plain (utoa n)"
proof -
  have "\<not> is_space c" if "is_digit c" for c using that by (auto simp: is_digit_def is_space_def)
  then show ?thesis using list_all_is_digit_utoa [of n] by (auto simp: plain_def list_all_iff)
qed

lemma newline_chr: "newline = CHR 0x0A"
  by code_simp

lemma tcp_line:
  assumes "list_all plain ([teSlot e, teQueues e, teTimer e, teRetransmits e, teTimeout e] @ teMore e)"
  shows "Fields (Join (tcp_fields big e) '' '') = tcp_fields big e \<and> newline \<notin> set (Join (tcp_fields big e) '' '')"
proof -
  have "plain (hex_fixed (Suc k) n)" for k n using hex_fixed_plain [of "Suc k" n] by (simp add: plain_def)
  then have h: "plain (hex_fixed 2 n)" for n by (metis numeral_2_eq_2)
  have "plain (addr_text big a)" for a
    using hex_fixed_plain [of 8 "unat (native_int big (fst a))"] hex_fixed_plain [of 4 "unat (snd a)"]
    by (auto simp: plain_def addr_text_def is_space_def)
  then have "plain (addr_text big (teLocal e))" "plain (addr_text big (teRemote e))" by blast+
  then have w: "plain w" if "w \<in> set (tcp_fields big e)" for w
    using that assms h utoa_plain by (auto simp: tcp_fields_def list_all_iff)
  have "newline \<notin> set (Join ws '' '')" if "\<forall>w \<in> set ws. plain w" for ws
    using that by (induction ws rule: induct_list012) (auto simp: plain_def list_all_iff newline_chr is_space_def)
  then have "newline \<notin> set (Join (tcp_fields big e) '' '')" using w by blast
  moreover have "Fields (Join (tcp_fields big e) '' '') = tcp_fields big e"
  proof (rule Fields_Join)
    show "tcp_fields big e \<noteq> []" by (simp add: tcp_fields_def)
  qed (use w in \<open>simp add: plain_def\<close>)
  ultimately show ?thesis by blast
qed

text \<open>The process of the demo host has connected from port 40000 to port 8080; its socket is inode 12345.\<close>

definition demo_entry :: tcp_entry where
  "demo_entry = \<lparr>teLocal = ([127, 0, 0, 1], 40000), teRemote = ([127, 0, 0, 1], 8080), teState = 1, teUid = 1000,
     teInode = 12345, teSlot = ''0:'', teQueues = ''0:0'', teTimer = ''0:0'', teRetransmits = ''0'', teTimeout = ''0'', teMore = [''1'']\<rparr>"

definition demo_loop :: loopback_host where
  "demo_loop =
     \<lparr>lpLinux = old_kernel\<lparr>lhNow := Unix 1700001000 0\<rparr>, lpOpenSelf = Inr 5, lpGetuid = 1000, lpBigEndian = False,
      lpNetTcp = (\<lambda>t. Inr (Join (''sl'' # [Join (tcp_fields False demo_entry) '' ''] @ [[]]) [newline])),
      lpProcDir = (\<lambda>t. Inr [''self'', ''42'']), lpOwner = (\<lambda>t name. Some (1000, 1000)),
      lpFdLinks = (\<lambda>t pid. if pid = 42 then Inr [None, Some (socket_link 12345)] else Inl (Errno 2)),
      lpPidfdOpen = (\<lambda>t pid. Inr 7)\<rparr>"

lemma demo_table:
  "list_all2 (\<lambda>line e. Fields line = tcp_fields False e \<and> newline \<notin> set line) [Join (tcp_fields False demo_entry) '' ''] [demo_entry]"
  "list_all tcp_ok [demo_entry]" "newline \<notin> set ''sl''"
proof -
  have "list_all plain ([teSlot demo_entry, teQueues demo_entry, teTimer demo_entry, teRetransmits demo_entry, teTimeout demo_entry] @ teMore demo_entry)"
    by (simp add: demo_entry_def plain_def is_space_def)
  from tcp_line [OF this, of False] show "list_all2 (\<lambda>line e. Fields line = tcp_fields False e \<and> newline \<notin> set line)
      [Join (tcp_fields False demo_entry) '' ''] [demo_entry]" by simp
qed (simp_all add: demo_entry_def tcp_ok_def newline_chr)

lemma demo_loop_sels [simp]:
  "lpNetTcp demo_loop t = Inr (Join (''sl'' # [Join (tcp_fields False demo_entry) '' ''] @ [[]]) [newline])"
  "lpBigEndian demo_loop = False" "lpGetuid demo_loop = 1000" "lpPidfdOpen demo_loop t pid = Inr 7"
  "lpLinux demo_loop = old_kernel\<lparr>lhNow := Unix 1700001000 0\<rparr>" "lpProcDir demo_loop t = Inr [''self'', ''42'']"
  "lpOwner demo_loop t name = Some (1000, 1000)"
  "lpFdLinks demo_loop t pid = (if pid = 42 then Inr [None, Some (socket_link 12345)] else Inl (Errno 2))"
  by (simp_all only: demo_loop_def loopback_host.select_convs)

abbreviation demo_client :: AddrPort where "demo_client \<equiv> (Addr4 [127, 0, 0, 1], 40000)"
abbreviation demo_server :: AddrPort where "demo_server \<equiv> (Addr4 [127, 0, 0, 1], 8080)"

theorem socket_table_read_witness:
  "socketRow demo_loop 0 demo_client demo_server = Inr (map_option entry_row (Some demo_entry))"
proof -
  have "socketRow demo_loop 0 demo_client demo_server =
      Inr (map_option entry_row (find (\<lambda>e. teLocal e = ([127, 0, 0, 1], 40000) \<and> teRemote e = ([127, 0, 0, 1], 8080)) [demo_entry]))"
    by (rule socket_table_read [OF _ demo_table(2,3)]) (simp_all only: demo_loop_sels demo_table(1))
  then show ?thesis by (simp add: demo_entry_def)
qed

lemma demo_loop_row: "socketRow demo_loop t demo_client demo_server = Inr (Some \<lparr>twEstablished = True, twUid = 1000, twInode = 12345\<rparr>)"
proof -
  have "socketRow demo_loop t demo_client demo_server =
      socket_rows False demo_client demo_server ([Join (tcp_fields False demo_entry) '' ''] @ [[]])"
    unfolding socketRow_def demo_loop_sels sum.case table_lines [OF demo_table(1,3)] by simp
  then show ?thesis using socket_rows_read [OF demo_table(1,2)] by (simp add: demo_entry_def entry_row_def)
qed

lemma demo_loop_holders: "holders demo_loop t 12345 1000 = Inr [42]"
proof -
  have "ParseInt64 ''self'' = None" "ParseInt64 ''42'' = Some 42" by code_simp+
  then show ?thesis by (simp add: holders_def holds_def)
qed

lemma demo_loop_linux:
  "pidfdAlive (old_kernel\<lparr>lhNow := n\<rparr>) t 7 42 = Inr True"
  "processExe (old_kernel\<lparr>lhNow := n\<rparr>) t pid = Inr (if t < 20 then ''/usr/bin/app'' else ''/usr/bin/other'', False)"
  "processStartTime (old_kernel\<lparr>lhNow := n\<rparr>) t pid = Inr (Unix 1700000005 0)"
proof -
  have start: "processStartTime h t pid = processStartTime h' t' pid'"
    if "lhStat h t pid = lhStat h' t' pid'" "lhProcStat h = lhProcStat h'" "lhAuxv h = lhAuxv h'" for h h' t t' pid pid'
  proof -
    have "bootEpoch h = bootEpoch h'" "clockTicks h = clockTicks h'" using that by (simp_all add: bootEpoch_def clockTicks_def)
    then show ?thesis using that(1) by (simp only: processStartTime_def)
  qed
  show "pidfdAlive (old_kernel\<lparr>lhNow := n\<rparr>) t 7 42 = Inr True"
    using demo_alive by (simp add: pidfdAlive_def old_kernel_def demo_host_def)
  show "processExe (old_kernel\<lparr>lhNow := n\<rparr>) t pid = Inr (if t < 20 then ''/usr/bin/app'' else ''/usr/bin/other'', False)"
    using demo_exe by (simp add: processExe_def old_kernel_def demo_host_def)
  show "processStartTime (old_kernel\<lparr>lhNow := n\<rparr>) t pid = Inr (Unix 1700000005 0)"
    using start [of "old_kernel\<lparr>lhNow := n\<rparr>" t pid old_kernel "Suc (Suc 0)" 42] old_kernel_start by (simp add: old_kernel_def)
qed

definition demo_loop_binding :: loopbackLinuxBinding where
  "demo_loop_binding = \<lparr>lkClient = demo_client, lkServer = demo_server, lkInode = 12345, lkUid = 1000, lkPidfd = 7, lkPid = 42,
     lkExe = ''/usr/bin/app''\<rparr>"

lemma demo_loop_bind: "\<exists>p. bindLoopback demo_loop demo_client demo_server None 0 [] = (Inr (demo_loop_binding, p), [7])"
proof -
  have "fst (pidfdOpenSupport demo_loop)" by (simp add: pidfdOpenSupport_def demo_loop_def)
  moreover have "\<not> connectedAt None (Unix 1700001000 0) + startTimeSlop < Unix 1700000005 0" by code_simp
  moreover have "loopback_check demo_loop 7 demo_loop_binding = None"
    by (simp add: loopback_check_def demo_loop_row demo_loop_holders recheck_holders_def demo_loop_linux demo_loop_binding_def)
  ultimately show ?thesis
    by (simp add: bindLoopback_def pin_holder_def Let_def demo_loop_row demo_loop_holders demo_loop_linux holds_def demo_loop_binding_def [symmetric])
qed



end
