(* ===== verification/Admission.thy ===== *)
theory Admission
  imports Go_Numbers Go_Errors
begin

section \<open>Endpoint admission (listen/admission.go)\<close>

text \<open>
  A process-wide table of the AppContainers that may reach an endpoint. A server installs its
  endpoints at once, owns them until it runs the release function it got back, and that function
  works once. The table's lock makes each of the two one step; \<open>admission\<close> is the table with the
  release functions handed out so far, and \<open>admission_step\<close> the steps of any number of servers.
\<close>

subsection \<open>Installing and releasing\<close>

type_synonym admission_table = "string \<rightharpoonup> string list"

definition sid_shape :: "string \<Rightarrow> bool" where
  "sid_shape sid =
     (let parts = Split sid (CHR ''-'') in
      length parts = 11 \<and> Join (take 4 parts) ''-'' = ''S-1-15-2'')"

definition sid_number :: "string \<Rightarrow> bool" where
  "sid_number part = (case ParseUint part 10 32 of (n, ok) \<Rightarrow> ok \<and> FormatUint n = part)"

fun container_loop :: "string list \<Rightarrow> string list \<Rightarrow> error" where
  "container_loop seen [] = None"
| "container_loop seen (sid # sids) =
     (if \<not> sid_shape sid \<or> sid \<in> set seen then Some (New ''listen: invalid or repeated AppContainer SID'')
      else if \<not> list_all sid_number (drop 4 (Split sid (CHR ''-''))) then Some (New ''listen: invalid AppContainer SID'')
      else container_loop (sid # seen) sids)"

fun endpoint_loop :: "string list \<Rightarrow> string list \<Rightarrow> error" where
  "endpoint_loop seen [] = None"
| "endpoint_loop seen (endpoint # endpoints) =
     (if endpoint = [] \<or> ContainsAny endpoint [CHR 0x00, CHR 0x0D, CHR 0x0A] \<or> endpoint \<in> set seen
      then Some (New ''listen: invalid or repeated admission endpoint'')
      else endpoint_loop (endpoint # seen) endpoints)"

text \<open>The release function: the endpoints it deletes, and whether its \<^verbatim>\<open>sync.Once\<close> has run.\<close>

record releaser =
  rlOwned :: "string list"
  rlDone :: bool

definition ConfigureAdmission :: "string list \<Rightarrow> string list \<Rightarrow> admission_table \<Rightarrow> (go_error + releaser) \<times> admission_table" where
  "ConfigureAdmission endpoints containers entries =
     (if endpoints = [] \<or> containers = [] then (Inl (New ''listen: admission requires endpoints and containers''), entries)
      else (case container_loop [] containers of
              Some err \<Rightarrow> (Inl err, entries)
            | None \<Rightarrow>
                (case endpoint_loop [] endpoints of
                   Some err \<Rightarrow> (Inl err, entries)
                 | None \<Rightarrow>
                     if list_ex (\<lambda>e. entries e \<noteq> None) endpoints
                     then (Inl (New ''listen: admission already configured''), entries)
                     else (Inr \<lparr>rlOwned = endpoints, rlDone = False\<rparr>, foldl (\<lambda>m e. m(e \<mapsto> containers)) entries endpoints))))"

definition release_admission :: "releaser \<Rightarrow> admission_table \<Rightarrow> releaser \<times> admission_table" where
  "release_admission rl entries =
     (if rlDone rl then (rl, entries)
      else (rl\<lparr>rlDone := True\<rparr>, foldl (\<lambda>m e. m(e := None)) entries (rlOwned rl)))"

definition admittedContainers :: "string \<Rightarrow> admission_table \<Rightarrow> string list" where
  "admittedContainers endpoint entries = (case entries endpoint of None \<Rightarrow> [] | Some containers \<Rightarrow> containers)"

subsection \<open>Which SIDs are accepted\<close>

lemma uint_loop_value:
  "uint_loop base bits n s = (m, True) \<Longrightarrow> n < 2 ^ bits \<Longrightarrow> m < 2 ^ bits"
  by (induction base bits n s rule: uint_loop.induct) (auto split: option.splits if_splits)

lemma sid_number_exact: "sid_number part \<longleftrightarrow> (\<exists>n < 2 ^ 32. part = utoa n)"
proof
  assume "sid_number part"
  then obtain n where n: "ParseUint part 10 32 = (n, True)" "utoa n = part"
    by (auto simp: sid_number_def FormatUint_def split: prod.splits)
  then have "uint_loop 10 32 0 part = (n, True)" by (auto simp: ParseUint_def split: if_splits)
  from uint_loop_value [OF this] show "\<exists>n < 2 ^ 32. part = utoa n" using n(2) by auto
next
  assume "\<exists>n < 2 ^ 32. part = utoa n"
  then obtain n where n: "n < 2 ^ 32" "part = utoa n" by blast
  then show "sid_number part" unfolding sid_number_def n(2) ParseUint_utoa [OF n(1)] by (simp add: FormatUint_def)
qed

text \<open>An AppContainer SID: the package authority and seven 32-bit numbers in canonical decimal.\<close>

definition container_sid :: "string \<Rightarrow> bool" where
  "container_sid sid \<longleftrightarrow> (\<exists>ns. length ns = 7 \<and> list_all (\<lambda>n. n < 2 ^ 32) ns \<and> sid = Join ([''S'', ''1'', ''15'', ''2''] @ map utoa ns) ''-'')"

lemma utoa_no_dash: "CHR ''-'' \<notin> set (utoa n)"
  using list_all_is_digit_utoa [of n] by (auto simp: list_all_iff is_digit_def)

lemma container_sid_exact:
  "sid_shape sid \<and> list_all sid_number (drop 4 (Split sid (CHR ''-''))) \<longleftrightarrow> container_sid sid"
proof
  assume s: "sid_shape sid \<and> list_all sid_number (drop 4 (Split sid (CHR ''-'')))"
  define parts where "parts = Split sid (CHR ''-'')"
  have p: "length parts = 11" "Join (take 4 parts) ''-'' = ''S-1-15-2''" "list_all sid_number (drop 4 parts)"
    using s by (auto simp: sid_shape_def Let_def parts_def)
  have "\<forall>part \<in> set (drop 4 parts). \<exists>n < 2 ^ 32. part = utoa n" using p(3) by (simp add: list_all_iff sid_number_exact)
  then obtain f where f: "\<forall>part \<in> set (drop 4 parts). f part < (2 :: nat) ^ 32 \<and> part = utoa (f part)" by metis
  have "Join (take 4 parts @ drop 4 parts) ''-'' = Join (take 4 parts) ''-'' @ ''-'' @ Join (drop 4 parts) ''-''"
    by (rule Join_append) (use p(1) in auto)
  moreover have "Join parts ''-'' = sid" unfolding parts_def by (rule Join_Split)
  moreover have "drop 4 parts = map utoa (map f (drop 4 parts))" using f by (simp add: map_idI)
  ultimately have "sid = Join [''S'', ''1'', ''15'', ''2''] ''-'' @ ''-'' @ Join (map utoa (map f (drop 4 parts))) ''-''"
    using p(2) by simp
  also have "\<dots> = Join ([''S'', ''1'', ''15'', ''2''] @ map utoa (map f (drop 4 parts))) ''-''"
    by (rule Join_append [symmetric]) (use p(1) in auto)
  finally show "container_sid sid" unfolding container_sid_def
    by (intro exI [of _ "map f (drop 4 parts)"]) (use f p(1) in \<open>auto simp: list_all_iff\<close>)
next
  assume "container_sid sid"
  then obtain ns where ns: "length ns = 7" "list_all (\<lambda>n. n < 2 ^ 32) ns" "sid = Join ([''S'', ''1'', ''15'', ''2''] @ map utoa ns) ''-''"
    unfolding container_sid_def by blast
  have "Split sid (CHR ''-'') = [''S'', ''1'', ''15'', ''2''] @ map utoa ns"
    unfolding ns(3) by (rule Split_Join) (auto simp: utoa_no_dash)
  then show "sid_shape sid \<and> list_all sid_number (drop 4 (Split sid (CHR ''-'')))"
    using ns(1,2) by (auto simp: sid_shape_def list_all_iff sid_number_exact)
qed

lemma container_loop_exact: "container_loop seen sids = None \<longleftrightarrow> list_all container_sid sids \<and> distinct sids \<and> set sids \<inter> set seen = {}"
  by (induction seen sids rule: container_loop.induct) (auto simp flip: container_sid_exact)

subsection \<open>Any number of servers\<close>

text \<open>Beside each release function the containers it was given for.\<close>

type_synonym admission = "admission_table \<times> (releaser \<times> string list) list"

inductive admission_step :: "admission \<Rightarrow> admission \<Rightarrow> bool" where
  configured: "ConfigureAdmission es cs entries = (Inr rl, entries') \<Longrightarrow>
    admission_step (entries, rls) (entries', rls @ [(rl, cs)])"
| refused: "ConfigureAdmission es cs entries = (Inl err, entries') \<Longrightarrow> admission_step (entries, rls) (entries', rls)"
| released: "i < length rls \<Longrightarrow> release_admission (fst (rls ! i)) entries = (rl, entries') \<Longrightarrow>
    admission_step (entries, rls) (entries', rls[i := (rl, snd (rls ! i))])"

definition owns :: "(releaser \<times> string list) list \<Rightarrow> nat \<Rightarrow> string \<Rightarrow> bool" where
  "owns rls i e = (i < length rls \<and> \<not> rlDone (fst (rls ! i)) \<and> e \<in> set (rlOwned (fst (rls ! i))))"

definition admission_ok :: "admission \<Rightarrow> bool" where
  "admission_ok a =
     (case a of (entries, rls) \<Rightarrow>
        (\<forall>e cs. entries e = Some cs \<longleftrightarrow> (\<exists>i. owns rls i e \<and> snd (rls ! i) = cs)) \<and>
        (\<forall>i j e. owns rls i e \<longrightarrow> owns rls j e \<longrightarrow> i = j) \<and>
        (\<forall>rl cs. (rl, cs) \<in> set rls \<longrightarrow> cs \<noteq> [] \<and> list_all container_sid cs))"

lemma foldl_install: "foldl (\<lambda>m e. m(e \<mapsto> cs)) m es = (\<lambda>x. if x \<in> set es then Some cs else m x)"
  by (induction es arbitrary: m) (auto simp: fun_eq_iff)

lemma foldl_delete: "foldl (\<lambda>m e. m(e := None)) m es = (\<lambda>x. if x \<in> set es then None else m x)"
  by (induction es arbitrary: m) (auto simp: fun_eq_iff)

lemma ConfigureAdmission_cases:
  assumes "ConfigureAdmission es cs entries = (r, entries')"
  shows "case r of Inl err \<Rightarrow> entries' = entries
    | Inr rl \<Rightarrow> rl = \<lparr>rlOwned = es, rlDone = False\<rparr> \<and> cs \<noteq> [] \<and> list_all container_sid cs \<and>
        (\<forall>e \<in> set es. entries e = None) \<and> entries' = (\<lambda>x. if x \<in> set es then Some cs else entries x)"
  using assms
  by (auto simp: ConfigureAdmission_def foldl_install container_loop_exact list_ex_iff split: option.splits if_splits)

lemma owns_snoc: "owns (rls @ [(rl, cs)]) i e \<longleftrightarrow> owns rls i e \<or> i = length rls \<and> \<not> rlDone rl \<and> e \<in> set (rlOwned rl)"
  by (auto simp: owns_def nth_append)

lemma owns_nth: "owns rls i e \<Longrightarrow> (rls @ xs) ! i = rls ! i"
  by (simp add: owns_def nth_append)

lemma admission_step_ok:
  assumes "admission_step a a'" "admission_ok a"
  shows "admission_ok a'"
  using assms
proof (cases rule: admission_step.cases)
  case (configured es cs entries rl entries' rls)
  note c = ConfigureAdmission_cases [OF configured(3), simplified]
  have free: "\<not> owns rls i e" if "e \<in> set es" for i e
  proof
    assume "owns rls i e"
    then have "entries e = Some (snd (rls ! i))" using assms(2) configured(1) by (auto simp: admission_ok_def)
    then show False using c that by auto
  qed
  have "(\<exists>i. owns (rls @ [(rl, cs)]) i e \<and> snd ((rls @ [(rl, cs)]) ! i) = ds) \<longleftrightarrow>
      (\<exists>i. owns rls i e \<and> snd (rls ! i) = ds) \<or> e \<in> set es \<and> ds = cs" for e ds
    using c by (auto simp: owns_snoc owns_nth)
  then show ?thesis using assms(2) c free unfolding configured(1,2) admission_ok_def
    by (auto simp: owns_snoc)
next
  case (refused es cs entries err entries' rls)
  then show ?thesis using assms(2) ConfigureAdmission_cases [OF refused(3)] by simp
next
  case (released i rls entries rl entries')
  show ?thesis
  proof (cases "rlDone (fst (rls ! i))")
    case True
    then have "rl = fst (rls ! i)" "entries' = entries" using released(4) by (auto simp: release_admission_def)
    then show ?thesis using assms(2) released(1,2) by simp
  next
    case False
    then have r: "rl = (fst (rls ! i))\<lparr>rlDone := True\<rparr>" "entries' = (\<lambda>x. if x \<in> set (rlOwned (fst (rls ! i))) then None else entries x)"
      using released(4) by (auto simp: release_admission_def foldl_delete)
    have o: "owns (rls[i := (rl, snd (rls ! i))]) j e \<longleftrightarrow> j \<noteq> i \<and> owns rls j e" for j e
      using released(3) r(1) by (auto simp: owns_def nth_list_update)
    have n: "snd (rls[i := (rl, snd (rls ! i))] ! j) = snd (rls ! j)" for j
      using released(3) by (cases "i = j") auto
    have i: "owns rls i e \<longleftrightarrow> e \<in> set (rlOwned (fst (rls ! i)))" for e using False released(3) by (simp add: owns_def)
    have "(rl', cs) \<in> set (rls[i := (rl, snd (rls ! i))]) \<Longrightarrow> \<exists>rl''. (rl'', cs) \<in> set rls" for rl' cs
      using released(3) set_update_subset_insert [of rls i "(rl, snd (rls ! i))"] nth_mem [of i rls]
      by (cases "rls ! i") fastforce
    then show ?thesis using assms(2) unfolding released(1,2) r(2) admission_ok_def
      by (auto simp: o n i [symmetric]) (metis+)
  qed
qed

text \<open>
  C36: admission belongs to one server at a time. However any number of servers install and
  release, whatever is refused and however often a release function runs, an endpoint's
  containers are exactly the ones its one live owner installed, an endpoint without a live
  owner admits none, and every admitted container is a well-formed AppContainer SID.
\<close>
theorem admission_exclusive:
  assumes "admission_step\<^sup>*\<^sup>* (Map.empty, []) (entries, rls)"
  shows "(\<forall>i e. owns rls i e \<longrightarrow> admittedContainers e entries = snd (rls ! i)) \<and>
    (\<forall>e. admittedContainers e entries \<noteq> [] \<longrightarrow> (\<exists>!i. owns rls i e)) \<and>
    (\<forall>e. list_all container_sid (admittedContainers e entries))"
proof -
  have "admission_ok (Map.empty, [])" by (simp add: admission_ok_def owns_def)
  with assms have "admission_ok (entries, rls)"
    by (induction rule: rtranclp_induct) (auto intro: admission_step_ok)
  then have ok: "entries e = Some cs \<longleftrightarrow> (\<exists>i. owns rls i e \<and> snd (rls ! i) = cs)" "owns rls i e \<Longrightarrow> owns rls j e \<Longrightarrow> i = j"
      "(rl, cs) \<in> set rls \<Longrightarrow> list_all container_sid cs" for e cs i j rl
    by (auto simp: admission_ok_def)
  have "admittedContainers e entries = snd (rls ! i)" if "owns rls i e" for i e
    using ok(1) [of e "snd (rls ! i)"] that by (auto simp: admittedContainers_def)
  moreover have "\<exists>!i. owns rls i e" if live: "admittedContainers e entries \<noteq> []" for e
  proof -
    obtain cs where "entries e = Some cs" using live by (auto simp: admittedContainers_def split: option.splits)
    then obtain i where "owns rls i e" using ok(1) by blast
    then show ?thesis using ok(2) by blast
  qed
  moreover have "list_all container_sid (admittedContainers e entries)" for e
  proof (cases "entries e")
    case (Some cs)
    then obtain i where "owns rls i e" "snd (rls ! i) = cs" using ok(1) by blast
    then have "(fst (rls ! i), cs) \<in> set rls" using nth_mem [of i rls] by (auto simp: owns_def)
    then show ?thesis using ok(3) Some by (simp add: admittedContainers_def)
  qed (simp add: admittedContainers_def)
  ultimately show ?thesis by blast
qed

definition demo_sid :: string where "demo_sid = Join ([''S'', ''1'', ''15'', ''2''] @ map utoa [1, 2, 3, 4, 5, 6, 7]) ''-''"

lemma demo_sid_ok: "container_sid demo_sid"
  unfolding container_sid_def demo_sid_def by (intro exI [of _ "[1, 2, 3, 4, 5, 6, 7]"]) simp

theorem admission_exclusive_witness:
  "\<exists>entries rls. admission_step\<^sup>*\<^sup>* (Map.empty, []) (entries, rls) \<and> admittedContainers ''pipe'' entries = [demo_sid]"
proof -
  have "container_loop [] [demo_sid] = None" by (simp only: container_loop_exact) (simp add: demo_sid_ok)
  then have "ConfigureAdmission [''pipe''] [demo_sid] Map.empty =
      (Inr \<lparr>rlOwned = [''pipe''], rlDone = False\<rparr>, [''pipe'' \<mapsto> [demo_sid]])"
    by (simp add: ConfigureAdmission_def ContainsAny_def)
  from admission_step.configured [OF this, of "[]"]
  have step: "admission_step\<^sup>*\<^sup>* (Map.empty, []) ([''pipe'' \<mapsto> [demo_sid]], [(\<lparr>rlOwned = [''pipe''], rlDone = False\<rparr>, [demo_sid])])"
    by simp
  have "owns [(\<lparr>rlOwned = [''pipe''], rlDone = False\<rparr>, [demo_sid])] 0 ''pipe''" by (simp add: owns_def)
  then have "admittedContainers ''pipe'' [''pipe'' \<mapsto> [demo_sid]] = [demo_sid]"
    using admission_exclusive [OF step] by fastforce
  then show ?thesis using step by blast
qed

end
