(* ===== verification/Verdict_Cache.thy ===== *)
theory Verdict_Cache
  imports Peers "HOL-Library.Multiset"
begin

section \<open>Reused code verdicts (verdicts\_windows.go)\<close>

text \<open>
  Verifying a program file is slow, so a verdict is reused for later connections of the same
  process. The entries and the verifications in progress live behind one lock; the functions
  below are the regions the lock makes atomic, and \<open>verdict_step\<close> interleaves them for any
  number of callers. Go's map of entries is an association list in whatever order an iteration
  meets it. The calls to the system and the verification itself are the arguments of the steps:
  what \<^verbatim>\<open>DuplicateHandle\<close>, the start time and the exit code answer, and what \<^verbatim>\<open>verifyFile\<close> finds.
\<close>

definition codeVerdictLifetime :: Duration where "codeVerdictLifetime = 5 * Minute"

definition codeVerdictLimit :: nat where "codeVerdictLimit = 256"

record codeVerdictKey =
  ckPid :: "32 word"
  ckStarted :: int
  ckImage :: string
  ckRevocation :: bool

definition zero_key :: codeVerdictKey where
  "zero_key = \<lparr>ckPid = 0, ckStarted = 0, ckImage = [], ckRevocation = False\<rparr>"

record codeVerdict =
  cvProc :: int
  cvCode :: Code
  cvVerdict :: Proof
  cvAt :: Time

type_synonym verdict = "Code \<times> Proof \<times> Time"

text \<open>A verification: running, its verdict kept and not yet announced, or announced (\<^verbatim>\<open>done\<close> closed).\<close>

datatype stage = Checking | Kept "go_error + verdict" | Published "go_error + verdict"

record codeVerification =
  jbKey :: codeVerdictKey
  jbStage :: stage

record codeVerdicts =
  vcEntries :: "(codeVerdictKey \<times> codeVerdict) list"
  vcWorking :: "codeVerdictKey \<rightharpoonup> nat"
  vcJobs :: "codeVerification list"
  vcHandles :: "int list"

subsection \<open>The locked regions\<close>

definition dropVerdict :: "codeVerdictKey \<Rightarrow> codeVerdict \<Rightarrow> codeVerdicts \<Rightarrow> codeVerdicts" where
  "dropVerdict key entry c =
     c\<lparr>vcEntries := filter (\<lambda>(k, e). k \<noteq> key) (vcEntries c), vcHandles := remove1 (cvProc entry) (vcHandles c)\<rparr>"

datatype looked = Hit verdict | Join nat | Start nat

text \<open>The first region of \<^verbatim>\<open>verifyProcessImageAt\<close>: reuse a verdict, wait for a verification, or begin one.\<close>

definition begin_verification :: "codeVerdictKey \<Rightarrow> codeVerdicts \<Rightarrow> looked \<times> codeVerdicts" where
  "begin_verification key c =
     (case vcWorking c key of
        Some j \<Rightarrow> (Join j, c)
      | None \<Rightarrow> (Start (length (vcJobs c)),
          c\<lparr>vcWorking := (vcWorking c)(key \<mapsto> length (vcJobs c)), vcJobs := vcJobs c @ [\<lparr>jbKey = key, jbStage = Checking\<rparr>]\<rparr>))"

definition lookup_verdict :: "codeVerdictKey \<Rightarrow> Time \<Rightarrow> codeVerdicts \<Rightarrow> looked \<times> codeVerdicts" where
  "lookup_verdict key now c =
     (case map_of (vcEntries c) key of
        Some entry \<Rightarrow>
          if now - cvAt entry < codeVerdictLifetime \<and> \<not> now < cvAt entry
          then (Hit (cvCode entry, cvVerdict entry, cvAt entry), c)
          else begin_verification key (dropVerdict key entry c)
      | None \<Rightarrow> begin_verification key c)"

text \<open>The loop of \<^verbatim>\<open>keepVerdict\<close>: drop the dead and the expired, and find the oldest that stays.\<close>

fun sweep ::
  "(int \<Rightarrow> bool) \<Rightarrow> Time \<Rightarrow> (codeVerdictKey \<times> codeVerdict) list \<Rightarrow> codeVerdictKey \<times> Time \<Rightarrow> codeVerdicts \<Rightarrow>
    (codeVerdictKey \<times> Time) \<times> codeVerdicts" where
  "sweep gone now [] oldest c = (oldest, c)"
| "sweep gone now ((k, e) # es) oldest c =
     (if gone (cvProc e) \<or> codeVerdictLifetime \<le> now - cvAt e \<or> now < cvAt e then sweep gone now es oldest (dropVerdict k e c)
      else sweep gone now es (if IsZero (snd oldest) \<or> cvAt e < snd oldest then (k, cvAt e) else oldest) c)"

text \<open>\<^verbatim>\<open>keepVerdict\<close>; \<open>None\<close> is the panic of evicting a key that is not there.\<close>

definition keepVerdict ::
  "go_error + int \<Rightarrow> go_error + int \<Rightarrow> (int \<Rightarrow> bool) \<Rightarrow> codeVerdictKey \<Rightarrow> verdict \<Rightarrow> codeVerdicts \<Rightarrow> codeVerdicts option" where
  "keepVerdict duplicate started gone key v c =
     (case duplicate of
        Inl err \<Rightarrow> Some c
      | Inr held \<Rightarrow>
          if started \<noteq> Inr (ckStarted key) then Some c
          else
            (let c1 = (case map_of (vcEntries c) key of Some old \<Rightarrow> dropVerdict key old c | None \<Rightarrow> c);
                 now = snd (snd v);
                 put = (\<lambda>c. c\<lparr>vcEntries := (key, \<lparr>cvProc = held, cvCode = fst v, cvVerdict = fst (snd v), cvAt = now\<rparr>) # vcEntries c,
                             vcHandles := held # vcHandles c\<rparr>)
             in case sweep gone now (vcEntries c1) (zero_key, 0) c1 of
                  (oldest, c2) \<Rightarrow>
                    if codeVerdictLimit \<le> length (vcEntries c2) then
                      (case map_of (vcEntries c2) (fst oldest) of
                         None \<Rightarrow> None
                       | Some e \<Rightarrow> Some (put (dropVerdict (fst oldest) e c2)))
                    else Some (put c2)))"

text \<open>The deferred region: announce the outcome and forget the verification.\<close>

definition publish_verdict :: "nat \<Rightarrow> go_error + verdict \<Rightarrow> codeVerdicts \<Rightarrow> codeVerdicts" where
  "publish_verdict j outcome c =
     c\<lparr>vcJobs := (vcJobs c)[j := (vcJobs c ! j)\<lparr>jbStage := Published outcome\<rparr>],
       vcWorking := (vcWorking c)(jbKey (vcJobs c ! j) := None)\<rparr>"

subsection \<open>Callers\<close>

text \<open>
  What has been answered: the key, the verdict or error, and for a reused verdict the instant it
  was asked for. \<open>wsVerified\<close> records every verification that succeeded, \<open>wsWaiting\<close> the
  verifications callers wait for.
\<close>

record verdict_world =
  wsCache :: codeVerdicts
  wsWaiting :: "nat list"
  wsVerified :: "(codeVerdictKey \<times> verdict) set"
  wsAnswers :: "(codeVerdictKey \<times> Time option \<times> (go_error + verdict)) list"

definition set_stage :: "nat \<Rightarrow> stage \<Rightarrow> codeVerdicts \<Rightarrow> codeVerdicts" where
  "set_stage j s c = c\<lparr>vcJobs := (vcJobs c)[j := (vcJobs c ! j)\<lparr>jbStage := s\<rparr>]\<rparr>"

inductive verdict_step :: "verdict_world \<Rightarrow> verdict_world \<Rightarrow> bool" where
  reused: "lookup_verdict key now (wsCache w) = (Hit v, c) \<Longrightarrow>
    verdict_step w (w\<lparr>wsCache := c, wsAnswers := (key, Some now, Inr v) # wsAnswers w\<rparr>)"
| joined: "lookup_verdict key now (wsCache w) = (Join j, c) \<Longrightarrow>
    verdict_step w (w\<lparr>wsCache := c, wsWaiting := j # wsWaiting w\<rparr>)"
| started: "lookup_verdict key now (wsCache w) = (Start j, c) \<Longrightarrow> verdict_step w (w\<lparr>wsCache := c\<rparr>)"
| verified: "j < length (vcJobs (wsCache w)) \<Longrightarrow> jbStage (vcJobs (wsCache w) ! j) = Checking \<Longrightarrow> \<not> IsZero (snd (snd v)) \<Longrightarrow>
    keepVerdict duplicate started gone (jbKey (vcJobs (wsCache w) ! j)) v (wsCache w) = Some c \<Longrightarrow>
    verdict_step w (w\<lparr>wsCache := set_stage j (Kept (Inr v)) c, wsVerified := insert (jbKey (vcJobs (wsCache w) ! j), v) (wsVerified w)\<rparr>)"
| failed: "j < length (vcJobs (wsCache w)) \<Longrightarrow> jbStage (vcJobs (wsCache w) ! j) = Checking \<Longrightarrow>
    verdict_step w (w\<lparr>wsCache := set_stage j (Kept (Inl err)) (wsCache w)\<rparr>)"
| published: "j < length (vcJobs (wsCache w)) \<Longrightarrow> jbStage (vcJobs (wsCache w) ! j) = Kept r \<Longrightarrow>
    verdict_step w (w\<lparr>wsCache := publish_verdict j r (wsCache w),
      wsAnswers := (jbKey (vcJobs (wsCache w) ! j), None, r) # wsAnswers w\<rparr>)"
| answered: "j \<in> set (wsWaiting w) \<Longrightarrow> jbStage (vcJobs (wsCache w) ! j) = Published r \<Longrightarrow>
    verdict_step w (w\<lparr>wsWaiting := remove1 j (wsWaiting w),
      wsAnswers := (jbKey (vcJobs (wsCache w) ! j), None, r) # wsAnswers w\<rparr>)"

definition fresh_world :: verdict_world where
  "fresh_world = \<lparr>wsCache = \<lparr>vcEntries = [], vcWorking = Map.empty, vcJobs = [], vcHandles = []\<rparr>, wsWaiting = [],
     wsVerified = {}, wsAnswers = []\<rparr>"

subsection \<open>The entries\<close>

text \<open>Keys are distinct, and the cache holds exactly one process handle for each entry.\<close>

definition entries_ok :: "codeVerdicts \<Rightarrow> bool" where
  "entries_ok c \<longleftrightarrow> distinct (map fst (vcEntries c)) \<and> mset (vcHandles c) = image_mset (cvProc \<circ> snd) (mset (vcEntries c)) \<and>
     (\<forall>(k, e) \<in> set (vcEntries c). cvAt e \<noteq> 0)"

lemma dropVerdict_sels [simp]:
  "vcJobs (dropVerdict k e c) = vcJobs c" "vcWorking (dropVerdict k e c) = vcWorking c"
  "set (vcEntries (dropVerdict k e c)) = {x \<in> set (vcEntries c). fst x \<noteq> k}"
  by (auto simp: dropVerdict_def)

lemma filter_key:
  "distinct (map fst xs) \<Longrightarrow> (k, e) \<in> set xs \<Longrightarrow> mset xs = add_mset (k, e) (mset (filter (\<lambda>(k', e'). k' \<noteq> k) xs))"
proof (induction xs)
  case (Cons x xs)
  show ?case
  proof (cases "x = (k, e)")
    case True
    then have "filter (\<lambda>(k', e'). k' \<noteq> k) xs = xs" using Cons.prems(1) by (auto simp: filter_id_conv image_iff)
    then show ?thesis using True by simp
  next
    case False
    then have "fst x \<noteq> k" "(k, e) \<in> set xs" using Cons.prems by (auto simp: image_iff)
    then show ?thesis using Cons by (cases x) auto
  qed
qed simp

lemma dropVerdict_ok:
  assumes "entries_ok c" "(k, e) \<in> set (vcEntries c)"
  shows "entries_ok (dropVerdict k e c)" "Suc (length (vcEntries (dropVerdict k e c))) = length (vcEntries c)"
proof -
  have m: "mset (vcEntries c) = add_mset (k, e) (mset (vcEntries (dropVerdict k e c)))"
    using filter_key [of "vcEntries c" k e] assms by (simp add: entries_ok_def dropVerdict_def)
  have "mset (vcHandles (dropVerdict k e c)) = mset (vcHandles c) - {#cvProc e#}" by (simp add: dropVerdict_def)
  also have "\<dots> = image_mset (cvProc \<circ> snd) (mset (vcEntries (dropVerdict k e c)))"
    using assms(1) m by (simp add: entries_ok_def)
  finally show "entries_ok (dropVerdict k e c)"
    using assms(1) by (auto simp: entries_ok_def dropVerdict_def distinct_map_filter)
  show "Suc (length (vcEntries (dropVerdict k e c))) = length (vcEntries c)"
    using arg_cong [OF m, of size] by simp
qed

lemma entries_key: "entries_ok c \<Longrightarrow> (k, e) \<in> set (vcEntries c) \<Longrightarrow> (k, e') \<in> set (vcEntries c) \<Longrightarrow> e = e'"
  by (metis entries_ok_def map_of_is_SomeI option.inject)

lemma sweep_spec:
  assumes "sweep gone now es oldest c = (oldest', c')" "entries_ok c" "set es \<subseteq> set (vcEntries c)" "distinct (map fst es)"
    and "snd oldest = 0 \<and> set (vcEntries c) \<subseteq> set es \<or> snd oldest \<noteq> 0 \<and> (\<exists>e. (fst oldest, e) \<in> set (vcEntries c) - set es)"
  shows "entries_ok c' \<and> set (vcEntries c') \<subseteq> set (vcEntries c) \<and> vcJobs c' = vcJobs c \<and> vcWorking c' = vcWorking c \<and>
    (vcEntries c' = [] \<or> fst oldest' \<in> fst ` set (vcEntries c'))"
  using assms
proof (induction gone now es oldest c arbitrary: oldest' c' rule: sweep.induct)
  case (1 gone now oldest c)
  then show ?case by (auto simp: image_iff) force
next
  case (2 gone now k e es oldest c)
  have ke: "(k, e) \<in> set (vcEntries c)" "(k, e) \<notin> set es" "cvAt e \<noteq> 0"
    using 2(4-6) by (auto simp: entries_ok_def image_iff)
  show ?case
  proof (cases "gone (cvProc e) \<or> codeVerdictLifetime \<le> now - cvAt e \<or> now < cvAt e")
    case True
    have sub: "set es \<subseteq> set (vcEntries (dropVerdict k e c))" using 2(5,6) by (auto simp: image_iff)
    have "x = (k, e)" if "x \<in> set (vcEntries c)" "fst x = k" for x
      using that entries_key [OF 2(4) ke(1), of "snd x"] by (metis prod.collapse)
    then have old: "snd oldest = 0 \<and> set (vcEntries (dropVerdict k e c)) \<subseteq> set es \<or>
        snd oldest \<noteq> 0 \<and> (\<exists>e'. (fst oldest, e') \<in> set (vcEntries (dropVerdict k e c)) - set es)"
      using 2(7) by auto
    from 2(1) [OF True _ dropVerdict_ok(1) [OF 2(4) ke(1)] sub _ old] show ?thesis using 2(3,6) True by auto
  next
    case False
    define o' where "o' = (if IsZero (snd oldest) \<or> cvAt e < snd oldest then (k, cvAt e) else oldest)"
    have "snd o' = 0 \<and> set (vcEntries c) \<subseteq> set es \<or> snd o' \<noteq> 0 \<and> (\<exists>e. (fst o', e) \<in> set (vcEntries c) - set es)"
      using ke 2(7) by (auto simp: o'_def IsZero_def)
    from 2(2) [OF False _ 2(4) _ _ this [unfolded o'_def]] show ?thesis using 2(3,5,6) False by auto
  qed
qed

lemma entries_length: "entries_ok c \<Longrightarrow> entries_ok c' \<Longrightarrow> set (vcEntries c') \<subseteq> set (vcEntries c) \<Longrightarrow> length (vcEntries c') \<le> length (vcEntries c)"
  by (metis card_mono distinct_card distinct_map entries_ok_def finite_set)

definition verdict_entry :: "int \<Rightarrow> verdict \<Rightarrow> codeVerdict" where
  "verdict_entry held v = \<lparr>cvProc = held, cvCode = fst v, cvVerdict = fst (snd v), cvAt = snd (snd v)\<rparr>"

definition put_entry :: "codeVerdictKey \<Rightarrow> int \<Rightarrow> verdict \<Rightarrow> codeVerdicts \<Rightarrow> codeVerdicts" where
  "put_entry key held v c = c\<lparr>vcEntries := (key, verdict_entry held v) # vcEntries c, vcHandles := held # vcHandles c\<rparr>"

lemma put_entry_ok:
  "entries_ok c \<Longrightarrow> key \<notin> fst ` set (vcEntries c) \<Longrightarrow> snd (snd v) \<noteq> 0 \<Longrightarrow> entries_ok (put_entry key held v c)"
  by (simp add: entries_ok_def put_entry_def verdict_entry_def)

text \<open>Keeping a verdict never panics, never exceeds the limit, and adds nothing but the verdict itself.\<close>

lemma keepVerdict_ok:
  assumes c: "entries_ok c" "length (vcEntries c) \<le> codeVerdictLimit" and v: "snd (snd v) \<noteq> 0"
  shows "\<exists>c'. keepVerdict duplicate started gone key v c = Some c' \<and> entries_ok c' \<and> length (vcEntries c') \<le> codeVerdictLimit \<and>
    (\<forall>x \<in> set (vcEntries c'). x \<in> set (vcEntries c) \<or> (\<exists>held. x = (key, verdict_entry held v))) \<and>
    vcJobs c' = vcJobs c \<and> vcWorking c' = vcWorking c"
proof (cases duplicate)
  case (Inr held)
  show ?thesis
  proof (cases "started = Inr (ckStarted key)")
    case True
    define c1 where "c1 = (case map_of (vcEntries c) key of Some old \<Rightarrow> dropVerdict key old c | None \<Rightarrow> c)"
    have c1: "entries_ok c1" "set (vcEntries c1) \<subseteq> set (vcEntries c)" "key \<notin> fst ` set (vcEntries c1)" "vcJobs c1 = vcJobs c" "vcWorking c1 = vcWorking c"
      using c(1) by (auto simp: c1_def map_of_eq_None_iff dest: map_of_SomeD intro: dropVerdict_ok(1) split: option.splits)
    obtain oldest c2 where sw: "sweep gone (snd (snd v)) (vcEntries c1) (zero_key, 0) c1 = (oldest, c2)" by fastforce
    have c2: "entries_ok c2" "set (vcEntries c2) \<subseteq> set (vcEntries c1)" "vcJobs c2 = vcJobs c1" "vcWorking c2 = vcWorking c1"
      "vcEntries c2 = [] \<or> fst oldest \<in> fst ` set (vcEntries c2)"
      using sweep_spec [OF sw c1(1)] c1(1) by (auto simp: entries_ok_def)
    have len: "length (vcEntries c2) \<le> codeVerdictLimit"
      using entries_length [OF c(1) c2(1) subset_trans [OF c2(2) c1(2)]] c(2) by simp
    have k: "keepVerdict duplicate started gone key v c =
        (if codeVerdictLimit \<le> length (vcEntries c2) then
           (case map_of (vcEntries c2) (fst oldest) of None \<Rightarrow> None | Some e \<Rightarrow> Some (put_entry key held v (dropVerdict (fst oldest) e c2)))
         else Some (put_entry key held v c2))"
      using Inr True sw by (simp add: keepVerdict_def Let_def c1_def [symmetric] put_entry_def verdict_entry_def split: option.split)
    show ?thesis
    proof (cases "codeVerdictLimit \<le> length (vcEntries c2)")
      case full: True
      then have "vcEntries c2 \<noteq> []" by (auto simp: codeVerdictLimit_def)
      then obtain e where e: "map_of (vcEntries c2) (fst oldest) = Some e" using c2(5) by (metis map_of_eq_None_iff not_Some_eq)
      note d = dropVerdict_ok [OF c2(1) map_of_SomeD [OF e]]
      have "key \<notin> fst ` set (vcEntries (dropVerdict (fst oldest) e c2))" using c1(3) c2(2) by auto
      from put_entry_ok [OF d(1) this v] show ?thesis using k full e d(2) len c1 c2 by (auto simp: put_entry_def)
    next
      case False
      have "key \<notin> fst ` set (vcEntries c2)" using c1(3) c2(2) by auto
      from put_entry_ok [OF c2(1) this v] show ?thesis using k False len c1 c2 by (auto simp: put_entry_def)
    qed
  qed (use c Inr in \<open>simp add: keepVerdict_def\<close>)
qed (use c in \<open>simp add: keepVerdict_def\<close>)

subsection \<open>Every interleaving\<close>

definition job_ok :: "(codeVerdictKey \<times> verdict) set \<Rightarrow> codeVerification \<Rightarrow> bool" where
  "job_ok proven job \<longleftrightarrow> (\<forall>v. jbStage job = Kept (Inr v) \<or> jbStage job = Published (Inr v) \<longrightarrow> (jbKey job, v) \<in> proven)"

definition job_open :: "codeVerification \<Rightarrow> bool" where
  "job_open job \<longleftrightarrow> (\<forall>r. jbStage job \<noteq> Published r)"

text \<open>The table of running verifications names exactly the one that is running for each key.\<close>

definition jobs_ok :: "codeVerification list \<Rightarrow> (codeVerdictKey \<rightharpoonup> nat) \<Rightarrow> bool" where
  "jobs_ok jobs working \<longleftrightarrow> (\<forall>k j. working k = Some j \<longleftrightarrow> j < length jobs \<and> jbKey (jobs ! j) = k \<and> job_open (jobs ! j))"

definition cache_ok :: "codeVerdicts \<Rightarrow> (codeVerdictKey \<times> verdict) set \<Rightarrow> bool" where
  "cache_ok c proven \<longleftrightarrow> entries_ok c \<and> length (vcEntries c) \<le> codeVerdictLimit \<and>
     (\<forall>(k, e) \<in> set (vcEntries c). (k, cvCode e, cvVerdict e, cvAt e) \<in> proven) \<and>
     list_all (job_ok proven) (vcJobs c) \<and> jobs_ok (vcJobs c) (vcWorking c)"

text \<open>A verdict that was answered was verified for that key, and a reused one within its lifetime.\<close>

definition answer_ok :: "(codeVerdictKey \<times> verdict) set \<Rightarrow> codeVerdictKey \<times> Time option \<times> (go_error + verdict) \<Rightarrow> bool" where
  "answer_ok proven a =
     (case a of (k, asked, r) \<Rightarrow>
        \<forall>v. r = Inr v \<longrightarrow> (k, v) \<in> proven \<and> (\<forall>now. asked = Some now \<longrightarrow> snd (snd v) \<le> now \<and> now - snd (snd v) < codeVerdictLifetime))"

definition world_ok :: "verdict_world \<Rightarrow> bool" where
  "world_ok w \<longleftrightarrow> cache_ok (wsCache w) (wsVerified w) \<and> (\<forall>j \<in> set (wsWaiting w). j < length (vcJobs (wsCache w))) \<and>
     (\<forall>a \<in> set (wsAnswers w). answer_ok (wsVerified w) a)"

lemma cache_mono: "cache_ok c proven \<Longrightarrow> proven \<subseteq> proven' \<Longrightarrow> cache_ok c proven'"
  by (fastforce simp: cache_ok_def list_all_iff job_ok_def)

lemma answer_mono: "answer_ok proven a \<Longrightarrow> proven \<subseteq> proven' \<Longrightarrow> answer_ok proven' a"
  by (auto simp: answer_ok_def split: prod.splits)

lemma dropVerdict_cache: "cache_ok c proven \<Longrightarrow> map_of (vcEntries c) key = Some e \<Longrightarrow> cache_ok (dropVerdict key e c) proven"
  using dropVerdict_ok [of c key e] by (auto simp: cache_ok_def dest!: map_of_SomeD)

lemma jobs_start:
  "jobs_ok jobs working \<Longrightarrow> working key = None \<Longrightarrow>
   jobs_ok (jobs @ [\<lparr>jbKey = key, jbStage = Checking\<rparr>]) (working(key \<mapsto> length jobs))"
  unfolding jobs_ok_def by (auto simp: nth_append less_Suc_eq job_open_def) (metis option.distinct(1))

lemma jobs_stage:
  assumes "jobs_ok jobs working" "j < length jobs" "job_open (jobs ! j)" "\<forall>r. s \<noteq> Published r"
  shows "jobs_ok (jobs[j := (jobs ! j)\<lparr>jbStage := s\<rparr>]) working"
  using assms by (auto simp: jobs_ok_def nth_list_update job_open_def)

lemma jobs_publish:
  assumes "jobs_ok jobs working" "j < length jobs" "job_open (jobs ! j)"
  shows "jobs_ok (jobs[j := (jobs ! j)\<lparr>jbStage := Published r\<rparr>]) (working(jbKey (jobs ! j) := None))"
proof -
  have "working (jbKey (jobs ! j)) = Some j" using assms by (simp add: jobs_ok_def)
  then have "i = j" if "i < length jobs" "jbKey (jobs ! i) = jbKey (jobs ! j)" "job_open (jobs ! i)" for i
    using assms(1) that by (metis jobs_ok_def option.inject)
  then have "(working(jbKey (jobs ! j) := None)) k = Some i \<longleftrightarrow> i \<noteq> j \<and> working k = Some i" for k i
    using assms(1) \<open>working (jbKey (jobs ! j)) = Some j\<close> unfolding jobs_ok_def by (metis fun_upd_apply option.distinct(1))
  then show ?thesis using assms unfolding jobs_ok_def by (auto simp: nth_list_update job_open_def)
qed

lemma begin_cache:
  assumes "begin_verification key c = (r, c')" "cache_ok c proven"
  shows "cache_ok c' proven \<and> length (vcJobs c) \<le> length (vcJobs c') \<and>
    (case r of Hit v \<Rightarrow> False | Join j \<Rightarrow> j < length (vcJobs c') | Start j \<Rightarrow> True)"
proof (cases "vcWorking c key")
  case None
  then show ?thesis using assms jobs_start [of "vcJobs c" "vcWorking c" key]
    by (auto simp: begin_verification_def cache_ok_def entries_ok_def job_ok_def)
next
  case (Some j)
  then have "j < length (vcJobs c)" using assms(2) by (simp add: cache_ok_def jobs_ok_def)
  then show ?thesis using assms Some by (auto simp: begin_verification_def)
qed

lemma lookup_cache:
  assumes "lookup_verdict key now c = (r, c')" "cache_ok c proven"
  shows "cache_ok c' proven \<and> length (vcJobs c) \<le> length (vcJobs c') \<and>
    (case r of Hit v \<Rightarrow> answer_ok proven (key, Some now, Inr v) | Join j \<Rightarrow> j < length (vcJobs c') | Start j \<Rightarrow> True)"
proof (cases "map_of (vcEntries c) key")
  case None
  then show ?thesis using assms begin_cache [of key c r c' proven] by (auto simp: lookup_verdict_def split: looked.splits)
next
  case (Some e)
  have e: "(key, cvCode e, cvVerdict e, cvAt e) \<in> proven" using assms(2) map_of_SomeD [OF Some] by (auto simp: cache_ok_def)
  show ?thesis
  proof (cases "now - cvAt e < codeVerdictLifetime \<and> \<not> now < cvAt e")
    case True
    then show ?thesis using assms Some e by (auto simp: lookup_verdict_def answer_ok_def)
  next
    case False
    then have "begin_verification key (dropVerdict key e c) = (r, c')" using assms(1) Some by (auto simp: lookup_verdict_def)
    from begin_cache [OF this dropVerdict_cache [OF assms(2) Some]] show ?thesis by (auto split: looked.splits)
  qed
qed

lemma stage_cache:
  assumes "cache_ok c proven" "j < length (vcJobs c)" "job_open (vcJobs c ! j)" "\<forall>r. s \<noteq> Published r"
    and "\<And>v. s = Kept (Inr v) \<Longrightarrow> (jbKey (vcJobs c ! j), v) \<in> proven"
  shows "cache_ok (set_stage j s c) proven"
  using assms jobs_stage [of "vcJobs c" "vcWorking c" j s]
  by (auto simp: cache_ok_def set_stage_def entries_ok_def list_all_iff job_ok_def dest!: set_update_subset_insert [THEN subsetD])

lemma publish_cache:
  assumes "cache_ok c proven" "j < length (vcJobs c)" "jbStage (vcJobs c ! j) = Kept r"
  shows "cache_ok (publish_verdict j r c) proven \<and> answer_ok proven (jbKey (vcJobs c ! j), None, r)"
proof -
  have k: "job_ok proven (vcJobs c ! j)" using assms(1,2) by (simp add: cache_ok_def list_all_length)
  moreover have "jobs_ok (vcJobs (publish_verdict j r c)) (vcWorking (publish_verdict j r c))"
    using assms jobs_publish [of "vcJobs c" "vcWorking c" j r] by (simp add: cache_ok_def publish_verdict_def job_open_def)
  moreover have "list_all (job_ok proven) (vcJobs (publish_verdict j r c))"
    using assms k by (auto simp: cache_ok_def publish_verdict_def list_all_iff job_ok_def dest!: set_update_subset_insert [THEN subsetD])
  ultimately show ?thesis using assms by (auto simp: cache_ok_def publish_verdict_def entries_ok_def answer_ok_def job_ok_def)
qed

lemma verdict_step_ok:
  assumes "verdict_step w w'" "world_ok w"
  shows "world_ok w'"
  using assms
proof (cases rule: verdict_step.cases)
  case (reused key now v c)
  then show ?thesis using assms(2) lookup_cache [OF reused(2), of "wsVerified w"] by (auto simp: world_ok_def)
next
  case (joined key now j c)
  then show ?thesis using assms(2) lookup_cache [OF joined(2), of "wsVerified w"] by (auto simp: world_ok_def)
next
  case (started key now j c)
  then show ?thesis using assms(2) lookup_cache [OF started(2), of "wsVerified w"] by (auto simp: world_ok_def)
next
  case (verified j v duplicate started gone c)
  define key where "key = jbKey (vcJobs (wsCache w) ! j)"
  define seen where "seen = insert (key, v) (wsVerified w)"
  have ok: "cache_ok (wsCache w) seen" using assms(2) cache_mono unfolding world_ok_def seen_def by blast
  have "snd (snd v) \<noteq> 0" using verified(4) by (simp add: IsZero_def)
  then have c: "entries_ok c" "length (vcEntries c) \<le> codeVerdictLimit" "vcJobs c = vcJobs (wsCache w)" "vcWorking c = vcWorking (wsCache w)"
    "\<forall>x \<in> set (vcEntries c). x \<in> set (vcEntries (wsCache w)) \<or> (\<exists>held. x = (key, verdict_entry held v))"
    using keepVerdict_ok [of "wsCache w" v duplicate started gone key] ok verified(5) by (auto simp: cache_ok_def key_def)
  then have "cache_ok c seen" using ok by (fastforce simp: cache_ok_def seen_def verdict_entry_def)
  then have "cache_ok (set_stage j (Kept (Inr v)) c) seen"
    by (rule stage_cache) (use verified c in \<open>auto simp: job_open_def seen_def key_def\<close>)
  moreover have "vcJobs (set_stage j (Kept (Inr v)) c) = (vcJobs (wsCache w))[j := (vcJobs (wsCache w) ! j)\<lparr>jbStage := Kept (Inr v)\<rparr>]"
    using c by (simp add: set_stage_def)
  moreover have "\<forall>a \<in> set (wsAnswers w). answer_ok seen a"
    using assms(2) answer_mono [of "wsVerified w" _ seen] unfolding world_ok_def seen_def by blast
  ultimately show ?thesis using assms(2) verified(1) by (auto simp: world_ok_def key_def [symmetric] seen_def)
next
  case (failed j err)
  then have "cache_ok (set_stage j (Kept (Inl err)) (wsCache w)) (wsVerified w)"
    using assms(2) by (intro stage_cache) (auto simp: world_ok_def job_open_def)
  then show ?thesis using assms(2) failed by (auto simp: world_ok_def set_stage_def)
next
  case (published j r)
  then show ?thesis using assms(2) publish_cache [of "wsCache w" "wsVerified w" j r] by (auto simp: world_ok_def publish_verdict_def)
next
  case (answered j r)
  then have "job_ok (wsVerified w) (vcJobs (wsCache w) ! j)"
    using assms(2) by (auto simp: world_ok_def cache_ok_def list_all_length)
  then have "answer_ok (wsVerified w) (jbKey (vcJobs (wsCache w) ! j), None, r)" using answered by (auto simp: job_ok_def answer_ok_def)
  then show ?thesis using assms(2) answered by (auto simp: world_ok_def dest: in_set_remove1 [THEN iffD1, rotated] set_remove1_subset [THEN subsetD])
qed

lemma verdict_reachable_ok: "verdict_step\<^sup>*\<^sup>* fresh_world w \<Longrightarrow> world_ok w"
proof (induction rule: rtranclp_induct)
  case base
  show ?case by (simp add: world_ok_def fresh_world_def cache_ok_def entries_ok_def jobs_ok_def)
next
  case (step w w')
  then show ?case by (blast intro: verdict_step_ok)
qed

text \<open>
  C27: a code verdict is never invented. Whatever callers arrive and however their steps
  interleave, a verdict that any of them is answered was reached by a verification of that very
  process instance, image path and revocation setting; and one that is reused rather than waited
  for is at most five minutes old by the clock of the call, and not from its future.
\<close>
theorem verdict_reuse_sound:
  assumes "verdict_step\<^sup>*\<^sup>* fresh_world w" and "(key, asked, Inr v) \<in> set (wsAnswers w)"
  shows "(key, v) \<in> wsVerified w \<and>
    (\<forall>now. asked = Some now \<longrightarrow> snd (snd v) \<le> now \<and> now - snd (snd v) < codeVerdictLifetime)"
proof -
  have "answer_ok (wsVerified w) (key, asked, Inr v)"
    using verdict_reachable_ok [OF assms(1)] assms(2) unfolding world_ok_def by blast
  then show ?thesis by (simp only: answer_ok_def prod.case) blast
qed

text \<open>
  The verdict cache is bounded and leaks nothing. At every moment it has at most 256
  entries, one per key, and holds exactly one process handle for each; at most one verification
  runs for a key; and keeping one more verdict, whatever the system answers, does not panic.
\<close>
theorem verdict_cache_bounded:
  assumes "verdict_step\<^sup>*\<^sup>* fresh_world w" and "c = wsCache w"
  shows "length (vcEntries c) \<le> 256 \<and> distinct (map fst (vcEntries c)) \<and>
    mset (vcHandles c) = image_mset (cvProc \<circ> snd) (mset (vcEntries c)) \<and>
    (\<forall>i < length (vcJobs c). \<forall>j < length (vcJobs c). job_open (vcJobs c ! i) \<longrightarrow> job_open (vcJobs c ! j) \<longrightarrow>
       jbKey (vcJobs c ! i) = jbKey (vcJobs c ! j) \<longrightarrow> i = j) \<and>
    (\<not> IsZero (snd (snd v)) \<longrightarrow> keepVerdict duplicate started gone key v c \<noteq> None)"
proof -
  have c: "entries_ok c" "length (vcEntries c) \<le> codeVerdictLimit" "jobs_ok (vcJobs c) (vcWorking c)"
    using verdict_reachable_ok [OF assms(1)] assms(2) by (simp_all add: world_ok_def cache_ok_def)
  then have "\<not> IsZero (snd (snd v)) \<longrightarrow> keepVerdict duplicate started gone key v c \<noteq> None"
    using keepVerdict_ok [OF c(1,2), of v duplicate started gone key] by (auto simp: IsZero_def)
  moreover have "i = j" if "i < length (vcJobs c)" "j < length (vcJobs c)" "job_open (vcJobs c ! i)" "job_open (vcJobs c ! j)"
      "jbKey (vcJobs c ! i) = jbKey (vcJobs c ! j)" for i j
    using c(3) that by (metis jobs_ok_def option.inject)
  ultimately show ?thesis using c(1,2) by (auto simp: entries_ok_def codeVerdictLimit_def)
qed

subsection \<open>A run\<close>

definition demo_key :: codeVerdictKey where
  "demo_key = \<lparr>ckPid = 42, ckStarted = 9, ckImage = ''app.exe'', ckRevocation = False\<rparr>"

definition demo_verdict :: verdict where "demo_verdict = (zero_Code, ProofBound, 100)"

text \<open>A verification at instant 100 of a process started at 9, and its verdict reused at 200.\<close>

lemma verdict_run:
  assumes "ckStarted key = 9" "snd (snd v) = 100"
  shows "\<exists>w. verdict_step\<^sup>*\<^sup>* fresh_world w \<and> wsAnswers w = [(key, Some 200, Inr v)] \<and> wsVerified w = {(key, v)} \<and> vcHandles (wsCache w) = [7]"
proof -
  have v: "(fst v, fst (snd v), 100) = v" using assms(2) by (simp add: prod_eq_iff)
  define c1 :: codeVerdicts where
    "c1 = \<lparr>vcEntries = [], vcWorking = [key \<mapsto> 0], vcJobs = [\<lparr>jbKey = key, jbStage = Checking\<rparr>], vcHandles = []\<rparr>"
  define w1 where "w1 = fresh_world\<lparr>wsCache := c1\<rparr>"
  have "lookup_verdict key 50 (wsCache fresh_world) = (Start 0, c1)"
    by (simp add: lookup_verdict_def begin_verification_def fresh_world_def c1_def)
  from verdict_step.started [OF this] have s1: "verdict_step fresh_world w1" by (simp add: w1_def)
  define c2 where "c2 = c1\<lparr>vcEntries := [(key, verdict_entry 7 v)], vcHandles := [7]\<rparr>"
  define w2 where "w2 = w1\<lparr>wsCache := set_stage 0 (Kept (Inr v)) c2, wsVerified := insert (key, v) (wsVerified w1)\<rparr>"
  have keep: "keepVerdict (Inr 7) (Inr 9) (\<lambda>_. False) key v c1 = Some c2"
    by (simp add: keepVerdict_def c1_def c2_def Let_def verdict_entry_def assms codeVerdictLimit_def)
  have s2: "verdict_step w1 w2"
    using verdict_step.verified [of 0 w1 v "Inr 7" "Inr 9" "\<lambda>_. False" c2] keep
    by (simp add: w1_def w2_def c1_def assms IsZero_def)
  have "lookup_verdict key 200 (wsCache w2) = (Hit v, wsCache w2)"
    by (simp add: v lookup_verdict_def w2_def set_stage_def c2_def verdict_entry_def assms codeVerdictLifetime_def Minute_def Second_def)
  from verdict_step.reused [OF this]
  have s3: "verdict_step w2 (w2\<lparr>wsAnswers := (key, Some 200, Inr v) # wsAnswers w2\<rparr>)" by simp
  have "verdict_step\<^sup>*\<^sup>* fresh_world (w2\<lparr>wsAnswers := (key, Some 200, Inr v) # wsAnswers w2\<rparr>)"
    using s1 s2 s3 by (meson rtranclp.rtrancl_refl rtranclp.rtrancl_into_rtrancl)
  then show ?thesis by (intro exI conjI) (auto simp: w2_def w1_def fresh_world_def set_stage_def c2_def)
qed

lemma demo_verdict_run:
  "\<exists>w. verdict_step\<^sup>*\<^sup>* fresh_world w \<and> (demo_key, Some 200, Inr demo_verdict) \<in> set (wsAnswers w) \<and> vcHandles (wsCache w) = [7]"
  using verdict_run [of demo_key demo_verdict] by (auto simp: demo_key_def demo_verdict_def)

theorem verdict_reuse_sound_witness:
  "\<exists>w. verdict_step\<^sup>*\<^sup>* fresh_world w \<and> (demo_key, demo_verdict) \<in> wsVerified w"
  using demo_verdict_run verdict_reuse_sound by blast

theorem verdict_cache_bounded_witness:
  "\<exists>w. verdict_step\<^sup>*\<^sup>* fresh_world w \<and> vcHandles (wsCache w) = [7] \<and> length (vcEntries (wsCache w)) \<le> 256"
  using demo_verdict_run verdict_cache_bounded by blast

end
