(* ===== verification/Version_Resource.thy ===== *)
theory Version_Resource
  imports Json_Text Net_Addr Peers
begin

section \<open>Version resources of programs (version\_windows.go)\<close>

text \<open>
  A trusted program is named by its own version resource, read out of a file anyone may have
  written. Every index and slice of the source is checked here: a \<open>run\<close> is \<open>None\<close> when one is out
  of range, which panics in Go, and otherwise an error or a result. A reader answers a positioned
  read of a whole buffer; one pass over the resource reads through one such function, and the
  passes before and after the verification through two.
\<close>

unbundle bit_operations_syntax

type_synonym 'a run = "(go_error + 'a) option"

definition ok :: "'a \<Rightarrow> 'a run" where "ok x = Some (Inr x)"

definition fails :: "go_error \<Rightarrow> 'a run" where "fails e = Some (Inl e)"

definition bnd :: "'a run \<Rightarrow> ('a \<Rightarrow> 'b run) \<Rightarrow> 'b run" where
  "bnd m f = (case m of None \<Rightarrow> None | Some (Inl e) \<Rightarrow> Some (Inl e) | Some (Inr x) \<Rightarrow> f x)"

definition le16 :: "bytes \<Rightarrow> nat \<Rightarrow> nat run" where
  "le16 data off = (if off + 2 \<le> length data then ok (unat (data ! off) + 256 * unat (data ! (off + 1))) else None)"

definition le32 :: "bytes \<Rightarrow> nat \<Rightarrow> 32 word run" where
  "le32 data off = (if off + 4 \<le> length data then ok (uint32_le (drop off data)) else None)"

definition slice :: "bytes \<Rightarrow> nat \<Rightarrow> nat \<Rightarrow> bytes run" where
  "slice data lo hi = (if lo \<le> hi \<and> hi \<le> length data then ok (take (hi - lo) (drop lo data)) else None)"

definition byte_at :: "bytes \<Rightarrow> nat \<Rightarrow> byte run" where
  "byte_at data off = (if off < length data then ok (data ! off) else None)"

type_synonym reader_at = "nat \<Rightarrow> nat \<Rightarrow> go_error + bytes"

definition errNoVersion :: go_error where "errNoVersion = New ''no version resource''"

definition errUnreadable :: go_error where "errUnreadable = New ''the file could not be read''"

definition errNotPE :: go_error where "errNotPE = New ''not a PE image''"

definition maxHeaderOffset :: nat where "maxHeaderOffset = 1048576"
definition maxSections :: nat where "maxSections = 96"
definition maxResourceEntries :: nat where "maxResourceEntries = 4096"
definition maxVersionResource :: nat where "maxVersionResource = 65535"
definition maxOptionalHeader :: nat where "maxOptionalHeader = 4096"
definition resourceTypeVersion :: nat where "resourceTypeVersion = 16"
definition resourceDirectory :: nat where "resourceDirectory = 2"

subsection \<open>The image's headers\<close>

record imageSection =
  isVirtualAddress :: "32 word"
  isVirtualSize :: "32 word"
  isRawSize :: "32 word"
  isRawOffset :: "32 word"

record imageLayout =
  imSections :: "imageSection list"
  imResourceRVA :: "32 word"

definition readAt :: "reader_at \<Rightarrow> nat \<Rightarrow> nat \<Rightarrow> bytes run" where
  "readAt r off n = Some (r off n)"

fun section_table :: "bytes \<Rightarrow> nat \<Rightarrow> nat \<Rightarrow> imageSection list run" where
  "section_table table i 0 = ok []"
| "section_table table i (Suc left) =
     bnd (le32 table (i * 40 + 8)) (\<lambda>vsize.
     bnd (le32 table (i * 40 + 12)) (\<lambda>vaddr.
     bnd (le32 table (i * 40 + 16)) (\<lambda>rsize.
     bnd (le32 table (i * 40 + 20)) (\<lambda>roff.
     bnd (section_table table (Suc i) left) (\<lambda>rest.
       ok (\<lparr>isVirtualAddress = vaddr, isVirtualSize = vsize, isRawSize = rsize, isRawOffset = roff\<rparr> # rest))))))"

text \<open>The resource data directory entry, zero when the optional header does not reach it.\<close>

definition resource_rva :: "bytes \<Rightarrow> nat \<Rightarrow> nat \<Rightarrow> nat \<Rightarrow> 32 word run" where
  "resource_rva optional optionalSize countAt directoriesAt =
     (let entry = directoriesAt + resourceDirectory * 8 in
      if \<not> countAt + 4 \<le> optionalSize then ok 0
      else bnd (le32 optional countAt) (\<lambda>count.
             if resourceDirectory < unat count \<and> entry + 8 \<le> optionalSize then le32 optional entry else ok 0))"

definition optional_layout :: "nat \<Rightarrow> (nat \<times> nat) run" where
  "optional_layout magic =
     (if magic = 0x10b then ok (92, 96) else if magic = 0x20b then ok (108, 112)
      else fails (New ''unexpected PE optional header''))"

definition readImageLayout :: "reader_at \<Rightarrow> imageLayout run" where
  "readImageLayout r =
     bnd (readAt r 0 64) (\<lambda>dos.
     bnd (byte_at dos 0) (\<lambda>m.
     bnd (if m \<noteq> 77 then ok False else bnd (byte_at dos 1) (\<lambda>z. ok (z = 90))) (\<lambda>mz.
     if \<not> mz then fails errNotPE
     else bnd (le32 dos 0x3c) (\<lambda>pe.
     let peOffset = unat pe in
     if maxHeaderOffset < peOffset then fails errNotPE
     else bnd (readAt r peOffset 24) (\<lambda>head.
     bnd (slice head 0 4) (\<lambda>sig.
     if sig \<noteq> [80, 69, 0, 0] then fails errNotPE
     else bnd (le16 head 6) (\<lambda>sectionCount.
     bnd (le16 head 20) (\<lambda>optionalSize.
     if maxSections < sectionCount \<or> maxOptionalHeader < optionalSize \<or> optionalSize < 2 then fails (New ''unexpected PE header'')
     else bnd (readAt r (peOffset + 24) optionalSize) (\<lambda>optional.
     bnd (le16 optional 0) (\<lambda>magic.
     bnd (optional_layout magic) (\<lambda>(countAt, directoriesAt).
     bnd (resource_rva optional optionalSize countAt directoriesAt) (\<lambda>rva.
     bnd (readAt r (peOffset + 24 + optionalSize) (sectionCount * 40)) (\<lambda>table.
     bnd (section_table table 0 sectionCount) (\<lambda>sections.
       ok \<lparr>imSections = sections, imResourceRVA = rva\<rparr>))))))))))))))"

text \<open>\<^verbatim>\<open>imageLayout.read\<close>: from the file bytes of the first section that holds them all.\<close>

definition image_read :: "reader_at \<Rightarrow> imageLayout \<Rightarrow> 32 word \<Rightarrow> nat \<Rightarrow> bytes run" where
  "image_read r img rva n =
     (case find (\<lambda>s. isVirtualAddress s \<le> rva \<and> unat rva + n \<le> unat (isVirtualAddress s) + unat (isRawSize s)) (imSections img) of
        Some s \<Rightarrow> readAt r (unat (isRawOffset s) + unat (rva - isVirtualAddress s)) n
      | None \<Rightarrow> fails (New ''RVA is not in the file''))"

subsection \<open>The resource directory\<close>

record resourceEntry =
  reNamed :: bool
  reId :: "32 word"
  reOffset :: "32 word"
  reSubdir :: bool

fun directory_entries :: "bytes \<Rightarrow> nat \<Rightarrow> nat \<Rightarrow> resourceEntry list run" where
  "directory_entries raw i 0 = ok []"
| "directory_entries raw i (Suc left) =
     bnd (le32 raw (i * 8)) (\<lambda>name.
     bnd (le32 raw (i * 8 + 4)) (\<lambda>offset.
     bnd (directory_entries raw (Suc i) left) (\<lambda>rest.
       ok (\<lparr>reNamed = (name AND 0x80000000 \<noteq> 0), reId = name AND NOT 0x80000000,
            reOffset = offset AND NOT 0x80000000, reSubdir = (offset AND 0x80000000 \<noteq> 0)\<rparr> # rest))))"

definition read_directory :: "reader_at \<Rightarrow> imageLayout \<Rightarrow> 32 word \<Rightarrow> resourceEntry list run" where
  "read_directory r img rva =
     bnd (image_read r img rva 16) (\<lambda>head.
     bnd (le16 head 12) (\<lambda>a.
     bnd (le16 head 14) (\<lambda>b.
     let count = a + b in
     if count = 0 \<or> maxResourceEntries < count then fails errNoVersion
     else bnd (image_read r img (rva + 16) (count * 8)) (\<lambda>raw. directory_entries raw 0 count))))"

definition subdirectory :: "reader_at \<Rightarrow> imageLayout \<Rightarrow> resourceEntry list \<Rightarrow> (resourceEntry \<Rightarrow> bool) \<Rightarrow> resourceEntry list run" where
  "subdirectory r img entries matches =
     (case find (\<lambda>e. reSubdir e \<and> matches e) entries of
        Some e \<Rightarrow> read_directory r img (imResourceRVA img + reOffset e)
      | None \<Rightarrow> fails errNoVersion)"

text \<open>The loop of \<^verbatim>\<open>leaf\<close>: the last language-neutral entry, or the first of any language.\<close>

fun chosen_language :: "resourceEntry option \<Rightarrow> resourceEntry list \<Rightarrow> resourceEntry option" where
  "chosen_language chosen [] = chosen"
| "chosen_language chosen (e # es) =
     (if reSubdir e then chosen_language chosen es
      else if chosen = None \<or> \<not> reNamed e \<and> reId e = 0 then chosen_language (Some e) es
      else chosen_language chosen es)"

definition leaf :: "reader_at \<Rightarrow> imageLayout \<Rightarrow> resourceEntry list \<Rightarrow> bytes run" where
  "leaf r img languages =
     (case chosen_language None languages of
        None \<Rightarrow> fails errNoVersion
      | Some e \<Rightarrow>
          bnd (image_read r img (imResourceRVA img + reOffset e) 16) (\<lambda>entry.
          bnd (le32 entry 4) (\<lambda>size32.
          let room = unat size32 in
          if room < 6 \<or> maxVersionResource < room then fails errNoVersion
          else bnd (le32 entry 0) (\<lambda>rva. image_read r img rva room))))"

subsection \<open>UTF-16\<close>

definition high_surrogate :: "nat \<Rightarrow> bool" where "high_surrogate u = (0xD800 \<le> u \<and> u < 0xDC00)"
definition low_surrogate :: "nat \<Rightarrow> bool" where "low_surrogate u = (0xDC00 \<le> u \<and> u < 0xE000)"

text \<open>\<^verbatim>\<open>utf16.Decode\<close>: code points, an unpaired surrogate as the replacement character.\<close>

fun utf16_decode :: "nat list \<Rightarrow> nat list" where
  "utf16_decode [] = []"
| "utf16_decode [u] = [if high_surrogate u \<or> low_surrogate u then 0xFFFD else u]"
| "utf16_decode (u # v # us) =
     (if high_surrogate u \<and> low_surrogate v
      then (0x10000 + (u - 0xD800) * 1024 + (v - 0xDC00)) # utf16_decode us
      else (if high_surrogate u \<or> low_surrogate u then 0xFFFD else u) # utf16_decode (v # us))"

definition utf8 :: "nat list \<Rightarrow> string" where "utf8 cps = concat (map appendRune cps)"

definition unicode_space :: "nat \<Rightarrow> bool" where
  "unicode_space c = (9 \<le> c \<and> c \<le> 13 \<or> c \<in> {0x20, 0x85, 0xA0, 0x1680, 0x2028, 0x2029, 0x202F, 0x205F, 0x3000} \<or> 0x2000 \<le> c \<and> c \<le> 0x200A)"

text \<open>\<^verbatim>\<open>strings.TrimSpace\<close> of a decoded text.\<close>

definition trim_space :: "nat list \<Rightarrow> nat list" where
  "trim_space cps = rev (dropWhile unicode_space (rev (dropWhile unicode_space cps)))"

function utf16z_loop :: "nat list \<Rightarrow> bytes \<Rightarrow> nat \<Rightarrow> nat \<Rightarrow> (string \<times> nat) option run" where
  "utf16z_loop units data pos limit =
     (if pos + 2 \<le> limit then
        bnd (le16 data pos) (\<lambda>u.
          if u = 0 then ok (Some (utf8 (utf16_decode units), pos + 2))
          else utf16z_loop (units @ [u]) data (pos + 2) limit)
      else ok None)"
  by pat_completeness auto
termination
  by (relation "measure (\<lambda>(units, data, pos, limit). limit - pos)") auto

declare utf16z_loop.simps [simp del]

definition utf16z :: "bytes \<Rightarrow> nat \<Rightarrow> nat \<Rightarrow> (string \<times> nat) option run" where
  "utf16z data start limit = utf16z_loop [] data start limit"

fun text_units :: "bytes \<Rightarrow> nat list" where
  "text_units (a # b # rest) = (let u = unat a + 256 * unat b in if u = 0 then [] else u # text_units rest)"
| "text_units _ = []"

definition textValue :: "bytes \<Rightarrow> string" where
  "textValue value = utf8 (trim_space (utf16_decode (text_units value)))"

subsection \<open>The version blocks\<close>

record versionBlock =
  vbKey :: string
  vbValue :: bytes
  vbChildren :: nat
  vbEnd :: nat

definition align4 :: "nat \<Rightarrow> nat" where "align4 n = (n + 3) div 4 * 4"

definition versionBlockAt :: "bytes \<Rightarrow> nat \<Rightarrow> nat \<Rightarrow> versionBlock option run" where
  "versionBlockAt data start limit =
     (if limit < start + 6 then ok None
      else
        bnd (le16 data start) (\<lambda>len.
        bnd (le16 data (start + 2)) (\<lambda>valueLength.
        bnd (le16 data (start + 4)) (\<lambda>kind.
        let stop = start + len in
        if len < 6 \<or> limit < stop then ok None
        else bnd (utf16z data (start + 6) stop) (\<lambda>found.
        case found of
          None \<Rightarrow> ok None
        | Some (key, after) \<Rightarrow>
            (let pos = align4 after;
                 valueLength = (if kind = 1 then valueLength * 2 else valueLength);
                 valueEnd = min (pos + valueLength) stop;
                 (pos, valueEnd) = (if stop < pos then (stop, stop) else (pos, valueEnd))
             in bnd (slice data pos valueEnd) (\<lambda>value.
                  ok (Some \<lparr>vbKey = key, vbValue = value, vbChildren = align4 valueEnd, vbEnd = stop\<rparr>))))))))"

lemma align4_ge: "n \<le> align4 n"
  unfolding align4_def by linarith

lemma versionBlockAt_shape:
  assumes "versionBlockAt data start limit = Some (Inr (Some b))"
  shows "start + 6 \<le> vbEnd b" "vbEnd b \<le> limit"
  using assms by (auto simp: versionBlockAt_def bnd_def ok_def Let_def split: option.splits sum.splits if_splits prod.splits)

function child_loop :: "bytes \<Rightarrow> nat \<Rightarrow> nat \<Rightarrow> versionBlock list run" where
  "child_loop data pos stop =
     (if pos + 6 \<le> stop then
        (case versionBlockAt data pos stop of
           None \<Rightarrow> None
         | Some (Inl e) \<Rightarrow> Some (Inl e)
         | Some (Inr None) \<Rightarrow> ok []
         | Some (Inr (Some child)) \<Rightarrow>
             (case child_loop data (align4 (vbEnd child)) stop of
                Some (Inr rest) \<Rightarrow> ok (child # rest)
              | r \<Rightarrow> r))
      else ok [])"
  by pat_completeness auto
termination
proof (relation "measure (\<lambda>(data, pos, stop). stop - pos)", goal_cases)
  case (2 data pos stop r found child)
  then have "pos + 6 \<le> align4 (vbEnd child)"
    using versionBlockAt_shape(1) [of data pos stop child] align4_ge [of "vbEnd child"] by simp
  then show ?case using 2(1) by simp
qed simp

declare child_loop.simps [simp del]

definition childBlocks :: "bytes \<Rightarrow> versionBlock \<Rightarrow> versionBlock list run" where
  "childBlocks data b = child_loop data (vbChildren b) (vbEnd b)"

subsection \<open>The program's names\<close>

record imageVersion =
  ivDescription :: string
  ivOriginalName :: string

definition hex4_lower :: "nat \<Rightarrow> string" where
  "hex4_lower n = map (\<lambda>k. hex_digit (n div 16 ^ k mod 16)) [3, 2, 1, 0]"

text \<open>The first translation entry, once one is found.\<close>

fun translation_of :: "string \<Rightarrow> versionBlock list \<Rightarrow> string run" where
  "translation_of found [] = ok found"
| "translation_of found (v # vs) =
     (if vbKey v = ''Translation'' \<and> 4 \<le> length (vbValue v) \<and> found = [] then
        bnd (le16 (vbValue v) 0) (\<lambda>a. bnd (le16 (vbValue v) 2) (\<lambda>b. translation_of (hex4_lower a @ hex4_lower b) vs))
      else translation_of found vs)"

fun version_tables :: "bytes \<Rightarrow> versionBlock list \<times> string \<Rightarrow> versionBlock list \<Rightarrow> (versionBlock list \<times> string) run" where
  "version_tables data acc [] = ok acc"
| "version_tables data (tables, translation) (c # cs) =
     (if vbKey c = ''StringFileInfo'' then
        bnd (childBlocks data c) (\<lambda>ts. version_tables data (tables @ ts, translation) cs)
      else if vbKey c = ''VarFileInfo'' then
        bnd (childBlocks data c) (\<lambda>vs. bnd (translation_of translation vs) (\<lambda>tr. version_tables data (tables, tr) cs))
      else version_tables data (tables, translation) cs)"

text \<open>\<^verbatim>\<open>strings.EqualFold\<close> against a text of lower-case hexadecimal digits.\<close>

definition ascii_lower :: "char \<Rightarrow> char" where
  "ascii_lower c = (if 65 \<le> ord c \<and> ord c \<le> 90 then char_of (ord c + 32) else c)"

definition EqualFold_hex :: "string \<Rightarrow> string \<Rightarrow> bool" where
  "EqualFold_hex s digits = (map ascii_lower s = digits)"

fun version_strings :: "imageVersion \<Rightarrow> versionBlock list \<Rightarrow> imageVersion" where
  "version_strings v [] = v"
| "version_strings v (s # ss) =
     (if vbKey s = ''FileDescription'' then version_strings (v\<lparr>ivDescription := textValue (vbValue s)\<rparr>) ss
      else if vbKey s = ''OriginalFilename'' then version_strings (v\<lparr>ivOriginalName := textValue (vbValue s)\<rparr>) ss
      else version_strings v ss)"

definition parseVersionInfo :: "bytes \<Rightarrow> imageVersion run" where
  "parseVersionInfo data =
     bnd (versionBlockAt data 0 (length data)) (\<lambda>found.
     case found of
       None \<Rightarrow> fails errNoVersion
     | Some root \<Rightarrow>
         if vbKey root \<noteq> ''VS_VERSION_INFO'' then fails errNoVersion
         else bnd (childBlocks data root) (\<lambda>children.
              bnd (version_tables data ([], []) children) (\<lambda>(tables, translation).
              case tables of
                [] \<Rightarrow> fails errNoVersion
              | first_table # _ \<Rightarrow>
                  (let table = (case find (\<lambda>t. EqualFold_hex (vbKey t) translation) tables of Some t \<Rightarrow> t | None \<Rightarrow> first_table)
                   in bnd (childBlocks data table) (\<lambda>ss. ok (version_strings \<lparr>ivDescription = [], ivOriginalName = []\<rparr> ss))))))"

definition readVersionResource :: "reader_at \<Rightarrow> imageVersion run" where
  "readVersionResource r =
     bnd (readImageLayout r) (\<lambda>img.
     if imResourceRVA img = 0 then fails errNoVersion
     else bnd (read_directory r img (imResourceRVA img)) (\<lambda>types.
          bnd (subdirectory r img types (\<lambda>e. \<not> reNamed e \<and> unat (reId e) = resourceTypeVersion)) (\<lambda>names.
          bnd (subdirectory r img names (\<lambda>e. True)) (\<lambda>languages.
          bnd (leaf r img languages) parseVersionInfo))))"

subsection \<open>The held file\<close>

text \<open>
  \<^verbatim>\<open>windows.ReadFile\<close> at an offset is a parameter: the error it reports and the bytes it delivered. The
  buffer holds as many of them as it has room for.
\<close>

type_synonym read_file = "nat \<Rightarrow> nat \<Rightarrow> error \<times> bytes"

definition errorHandleEOF :: go_error where "errorHandleEOF = Errno 38"

text \<open>\<^verbatim>\<open>heldFile.ReadAt\<close>, as \<^verbatim>\<open>readAt\<close> uses it: the full buffer or the error.\<close>

definition heldFile :: "read_file \<Rightarrow> reader_at" where
  "heldFile rf off n =
     (case rf off n of (err, got) \<Rightarrow>
        if err = Some errorHandleEOF \<or> err = None \<and> length got < n then Inl (Err EOF)
        else case err of Some e \<Rightarrow> Inl (Errorf [errUnreadable, e]) | None \<Rightarrow> Inr (take n got))"

definition heldVersion :: "read_file \<Rightarrow> (imageVersion \<times> error) option" where
  "heldVersion rf =
     (case readVersionResource (heldFile rf) of
        None \<Rightarrow> None
      | Some (Inl e) \<Rightarrow> Some (\<lparr>ivDescription = [], ivOriginalName = []\<rparr>, Some e)
      | Some (Inr v) \<Rightarrow> Some (v, None))"

text \<open>
  \<^verbatim>\<open>verifyTrust\<close> and \<^verbatim>\<open>withSigner\<close> are the platform's: their answer is a parameter, between a read of
  the resource before it and one after.
\<close>

definition verifyHeld :: "read_file \<Rightarrow> Code \<times> Proof \<Rightarrow> (Code \<Rightarrow> Code) \<Rightarrow> read_file \<Rightarrow> (Code \<times> Proof \<times> error) option" where
  "verifyHeld rf1 trust withSigner rf2 =
     (case heldVersion rf1 of
        None \<Rightarrow> None
      | Some (before, beforeErr) \<Rightarrow>
          (let (code, verdict) = trust; code = withSigner code in
           if \<not> cTrusted code then Some (code, verdict, None)
           else case heldVersion rf2 of
             None \<Rightarrow> None
           | Some (after, afterErr) \<Rightarrow>
               if errors_Is beforeErr errUnreadable \<or> errors_Is afterErr errUnreadable
               then Some (zero_Code, ProofNone, Some (Errorf (case errors_join [beforeErr, afterErr] of None \<Rightarrow> [] | Some e \<Rightarrow> [e])))
               else if after \<noteq> before \<or> (beforeErr = None) \<noteq> (afterErr = None)
               then Some (zero_Code, ProofNone, Some (New ''the file's version resource changed during verification''))
               else Some (code\<lparr>cDescription := ivDescription after, cOriginalName := ivOriginalName after\<rparr>, verdict, None)))"

subsection \<open>No file makes the reader panic\<close>

text \<open>A run is safe for a postcondition when it does not panic and a result meets it.\<close>

definition safe :: "'a run \<Rightarrow> ('a \<Rightarrow> bool) \<Rightarrow> bool" where
  "safe m Q = (m \<noteq> None \<and> (\<forall>x. m = Some (Inr x) \<longrightarrow> Q x))"

named_theorems safe_rules

lemma safe_bnd [safe_rules]: "safe m (\<lambda>x. safe (f x) Q) \<Longrightarrow> safe (bnd m f) Q"
  by (auto simp: safe_def bnd_def split: option.splits sum.splits)

lemma safe_any: "safe m (\<lambda>_. True) \<Longrightarrow> (\<And>x. Q x) \<Longrightarrow> safe m Q"
  by (auto simp: safe_def)

lemma safe_ok [simp]: "safe (ok x) Q = Q x"
  by (simp add: safe_def ok_def)

lemma safe_fails [simp]: "safe (fails e) Q"
  by (simp add: safe_def fails_def)

lemma safe_le16 [safe_rules]: "off + 2 \<le> length data \<Longrightarrow> (\<And>u. Q u) \<Longrightarrow> safe (le16 data off) Q"
  by (simp add: le16_def)

lemma safe_le32 [safe_rules]: "off + 4 \<le> length data \<Longrightarrow> (\<And>u. Q u) \<Longrightarrow> safe (le32 data off) Q"
  by (simp add: le32_def)

lemma safe_byte_at [safe_rules]: "off < length data \<Longrightarrow> (\<And>u. Q u) \<Longrightarrow> safe (byte_at data off) Q"
  by (simp add: byte_at_def)

lemma safe_slice [safe_rules]: "lo \<le> hi \<Longrightarrow> hi \<le> length data \<Longrightarrow> (\<And>u. Q u) \<Longrightarrow> safe (slice data lo hi) Q"
  by (simp add: slice_def)

definition full_reader :: "reader_at \<Rightarrow> bool" where
  "full_reader r = (\<forall>off n bs. r off n = Inr bs \<longrightarrow> length bs = n)"

lemma safe_readAt [safe_rules]:
  "full_reader r \<Longrightarrow> (\<And>bs. length bs = n \<Longrightarrow> Q bs) \<Longrightarrow> safe (readAt r off n) Q"
  by (simp add: safe_def readAt_def full_reader_def)

lemma safe_section_table:
  "(i + left) * 40 \<le> length table \<Longrightarrow> safe (section_table table i left) (\<lambda>_. True)"
proof (induction left arbitrary: i)
  case (Suc left)
  then have "safe (section_table table (Suc i) left) (\<lambda>_. True)" by simp
  moreover have "i * 40 + 40 \<le> length table" using Suc.prems by simp
  ultimately show ?case by (auto intro!: safe_rules)
qed simp

lemma safe_resource_rva:
  "length optional = n \<Longrightarrow> safe (resource_rva optional n countAt directoriesAt) (\<lambda>_. True)"
  by (auto simp: resource_rva_def Let_def intro!: safe_rules)

lemma safe_optional_layout: "safe (optional_layout magic) (\<lambda>_. True)"
  by (simp add: optional_layout_def)

lemma safe_readImageLayout: "full_reader r \<Longrightarrow> safe (readImageLayout r) (\<lambda>_. True)"
  unfolding readImageLayout_def Let_def
  by (auto intro!: safe_rules safe_any [OF safe_section_table] safe_any [OF safe_resource_rva] safe_any [OF safe_optional_layout])

lemma safe_image_read [safe_rules]:
  "full_reader r \<Longrightarrow> (\<And>bs. length bs = n \<Longrightarrow> Q bs) \<Longrightarrow> safe (image_read r img rva n) Q"
  by (auto simp: image_read_def split: option.splits intro!: safe_rules)

lemma safe_directory_entries:
  "(i + left) * 8 \<le> length raw \<Longrightarrow> safe (directory_entries raw i left) (\<lambda>_. True)"
proof (induction left arbitrary: i)
  case (Suc left)
  then have "safe (directory_entries raw (Suc i) left) (\<lambda>_. True)" by simp
  moreover have "i * 8 + 8 \<le> length raw" using Suc.prems by simp
  ultimately show ?case by (auto intro!: safe_rules)
qed simp

lemma safe_read_directory: "full_reader r \<Longrightarrow> safe (read_directory r img rva) (\<lambda>_. True)"
  by (auto simp: read_directory_def Let_def intro!: safe_rules safe_directory_entries)

lemma safe_subdirectory: "full_reader r \<Longrightarrow> safe (subdirectory r img entries P) (\<lambda>_. True)"
  by (auto simp: subdirectory_def intro!: safe_read_directory split: option.splits)

lemma safe_leaf: "full_reader r \<Longrightarrow> safe (leaf r img languages) (\<lambda>_. True)"
  by (auto simp: leaf_def Let_def intro!: safe_rules split: option.splits)

lemma safe_utf16z_loop: "limit \<le> length data \<Longrightarrow> safe (utf16z_loop units data pos limit) (\<lambda>_. True)"
proof (induction units data pos limit rule: utf16z_loop.induct)
  case (1 units data pos limit)
  show ?case
    by (subst utf16z_loop.simps) (use 1 in \<open>auto simp: le16_def bnd_def ok_def intro: safe_ok [unfolded ok_def, THEN iffD2]\<close>)
qed

text \<open>A block lies inside the resource, so its children are read inside it too.\<close>

lemma safe_versionBlockAt:
  assumes "limit \<le> length data"
  shows "safe (versionBlockAt data start limit) (\<lambda>found. \<forall>b. found = Some b \<longrightarrow> vbEnd b \<le> limit)"
  using assms unfolding versionBlockAt_def utf16z_def Let_def
  by (auto intro!: safe_rules safe_any [OF safe_utf16z_loop] min.coboundedI2 split: option.splits)

lemma safe_child_loop:
  "stop \<le> length data \<Longrightarrow> safe (child_loop data pos stop) (\<lambda>bs. \<forall>b \<in> set bs. vbEnd b \<le> length data)"
proof (induction data pos stop rule: child_loop.induct)
  case (1 data pos stop)
  show ?case
    using 1 safe_versionBlockAt [of stop data pos]
    by (subst child_loop.simps) (fastforce simp: safe_def ok_def split: option.splits sum.splits)
qed

lemma safe_childBlocks:
  "vbEnd b \<le> length data \<Longrightarrow> safe (childBlocks data b) (\<lambda>bs. \<forall>b \<in> set bs. vbEnd b \<le> length data)"
  by (simp add: childBlocks_def safe_child_loop)

lemma safe_mono: "safe m P \<Longrightarrow> (\<And>x. P x \<Longrightarrow> Q x) \<Longrightarrow> safe m Q"
  by (auto simp: safe_def)

lemma safe_translation_of: "safe (translation_of found vs) (\<lambda>_. True)"
  by (induction found vs rule: translation_of.induct) (auto intro!: safe_rules)

lemma safe_version_tables:
  "\<forall>c \<in> set cs. vbEnd c \<le> length data \<Longrightarrow> \<forall>t \<in> set (fst acc). vbEnd t \<le> length data \<Longrightarrow>
   safe (version_tables data acc cs) (\<lambda>(tables, _). \<forall>t \<in> set tables. vbEnd t \<le> length data)"
proof (induction data acc cs rule: version_tables.induct)
  case (2 data tables translation c cs)
  then show ?case
    by (auto simp: ball_Un intro!: safe_bnd safe_mono [OF safe_childBlocks] safe_any [OF safe_translation_of])
qed auto

lemma find_in_set: "find P xs = Some x \<Longrightarrow> x \<in> set xs"
  by (metis find_Some_iff nth_mem)

lemma safe_parseVersionInfo: "safe (parseVersionInfo data) (\<lambda>_. True)"
  unfolding parseVersionInfo_def Let_def
  by (rule safe_bnd, rule safe_mono [OF safe_versionBlockAt [OF order_refl]])
    (auto intro!: safe_bnd safe_mono [OF safe_childBlocks] safe_mono [OF safe_version_tables]
       dest!: find_in_set split: option.splits list.splits)

lemma safe_readVersionResource: "full_reader r \<Longrightarrow> safe (readVersionResource r) (\<lambda>_. True)"
  unfolding readVersionResource_def
  by (auto intro!: safe_bnd safe_any [OF safe_readImageLayout] safe_any [OF safe_read_directory]
      safe_any [OF safe_subdirectory] safe_any [OF safe_leaf] safe_parseVersionInfo)

lemma full_heldFile: "full_reader (heldFile rf)"
  by (auto simp: full_reader_def heldFile_def split: prod.splits if_splits option.splits)

lemma heldVersion_total: "heldVersion rf \<noteq> None"
  using safe_readVersionResource [OF full_heldFile [of rf]]
  by (auto simp: heldVersion_def safe_def split: option.splits sum.splits)

subsection \<open>A failed read never changes the names\<close>

text \<open>
  \<open>spoilt bad m m'\<close>: the second run gives what the first gives, or ends in one of the errors that
  mark it as spoilt.
\<close>

definition spoilt :: "(go_error \<Rightarrow> bool) \<Rightarrow> 'a run \<Rightarrow> 'a run \<Rightarrow> bool" where
  "spoilt bad m m' = (m' = m \<or> (\<exists>e. m' = Some (Inl e) \<and> bad e))"

lemma spoilt_refl [simp]: "spoilt bad m m"
  by (simp add: spoilt_def)

lemma spoilt_bnd: "spoilt bad m m' \<Longrightarrow> (\<And>x. spoilt bad (f x) (g x)) \<Longrightarrow> spoilt bad (bnd m f) (bnd m' g)"
  by (auto simp: spoilt_def bnd_def split: option.splits sum.splits)

definition spoilt_reader :: "(go_error \<Rightarrow> bool) \<Rightarrow> reader_at \<Rightarrow> reader_at \<Rightarrow> bool" where
  "spoilt_reader bad r r' = (\<forall>off n. n \<le> maxVersionResource \<longrightarrow> r' off n = r off n \<or> (\<exists>e. r' off n = Inl e \<and> bad e))"

lemma spoilt_readAt: "spoilt_reader bad r r' \<Longrightarrow> n \<le> maxVersionResource \<Longrightarrow> spoilt bad (readAt r off n) (readAt r' off n)"
  by (auto simp: spoilt_reader_def spoilt_def readAt_def)

lemma spoilt_image_read:
  "spoilt_reader bad r r' \<Longrightarrow> n \<le> maxVersionResource \<Longrightarrow> spoilt bad (image_read r img rva n) (image_read r' img rva n)"
  by (auto simp: image_read_def intro!: spoilt_readAt split: option.splits)

lemmas version_bounds = maxVersionResource_def maxSections_def maxResourceEntries_def maxOptionalHeader_def

lemma spoilt_readImageLayout: "spoilt_reader bad r r' \<Longrightarrow> spoilt bad (readImageLayout r) (readImageLayout r')"
  unfolding readImageLayout_def Let_def
  by (auto simp: version_bounds intro!: spoilt_bnd spoilt_readAt split: prod.splits)

lemma spoilt_read_directory: "spoilt_reader bad r r' \<Longrightarrow> spoilt bad (read_directory r img rva) (read_directory r' img rva)"
  unfolding read_directory_def Let_def
  by (auto simp: version_bounds intro!: spoilt_bnd spoilt_image_read)

lemma spoilt_subdirectory:
  "spoilt_reader bad r r' \<Longrightarrow> spoilt bad (subdirectory r img es P) (subdirectory r' img es P)"
  by (auto simp: subdirectory_def intro!: spoilt_read_directory split: option.splits)

lemma spoilt_leaf: "spoilt_reader bad r r' \<Longrightarrow> spoilt bad (leaf r img es) (leaf r' img es)"
  unfolding leaf_def Let_def
  by (auto simp: maxVersionResource_def intro!: spoilt_bnd spoilt_image_read split: option.splits)

lemma spoilt_readVersionResource:
  "spoilt_reader bad r r' \<Longrightarrow> spoilt bad (readVersionResource r) (readVersionResource r')"
  unfolding readVersionResource_def
  by (auto intro!: spoilt_bnd spoilt_readImageLayout spoilt_read_directory spoilt_subdirectory spoilt_leaf)

text \<open>
  No read asks for more than 65535 bytes, whatever lengths and counts the file states: answers to
  longer reads make no difference.
\<close>

theorem version_reads_bounded:
  assumes "\<And>off n. n \<le> maxVersionResource \<Longrightarrow> r' off n = r off n"
  shows "readVersionResource r' = readVersionResource r"
  using spoilt_readVersionResource [of "\<lambda>_. False" r r'] assms by (simp add: spoilt_reader_def spoilt_def)

subsection \<open>The names of a verified file\<close>

text \<open>
  A handle through which any read may fail, in another way than at the end of the file, and otherwise
  answers as \<open>whole\<close> does.
\<close>

definition failing :: "read_file \<Rightarrow> read_file \<Rightarrow> bool" where
  "failing whole rf = (\<forall>off n. rf off n = whole off n \<or> (\<exists>e. fst (rf off n) = Some e \<and> e \<noteq> errorHandleEOF))"

lemma failing_heldVersion:
  assumes "failing whole rf" and "heldVersion rf = Some (v, err)" and "\<not> errors_Is err errUnreadable"
  shows "heldVersion whole = Some (v, err)"
proof -
  let ?bad = "\<lambda>e. errors_is e errUnreadable"
  have "spoilt_reader ?bad (heldFile whole) (heldFile rf)"
    unfolding spoilt_reader_def
  proof (intro allI impI)
    fix off n
    show "heldFile rf off n = heldFile whole off n \<or> (\<exists>e. heldFile rf off n = Inl e \<and> ?bad e)"
      using assms(1) [unfolded failing_def, rule_format, of off n]
      by (cases "rf off n = whole off n") (auto simp: heldFile_def split: prod.splits)
  qed
  from spoilt_readVersionResource [OF this] have "heldVersion rf = heldVersion whole"
    using assms(2,3) by (auto simp: spoilt_def heldVersion_def)
  then show ?thesis using assms(2) by simp
qed

lemma verifyHeld_trusted:
  assumes "verifyHeld rf1 trust withSigner rf2 = Some (code, verdict, None)" and "cTrusted code"
  obtains v err1 err2 where "heldVersion rf1 = Some (v, err1)" "heldVersion rf2 = Some (v, err2)"
    "\<not> errors_Is err1 errUnreadable" "\<not> errors_Is err2 errUnreadable" "(err1 = None) = (err2 = None)"
    "cDescription code = ivDescription v" "cOriginalName code = ivOriginalName v"
  using assms by (auto simp: verifyHeld_def Let_def split: option.splits prod.splits if_splits)

text \<open>A program with a version resource of one string table.\<close>

definition demo_block :: bytes where
  "demo_block =
    [144, 0, 0, 0, 0, 0, 86, 0, 83, 0, 95, 0, 86, 0, 69, 0, 82, 0, 83, 0, 73, 0, 79, 0, 78, 0, 95,
     0, 73, 0, 78, 0, 70, 0, 79, 0, 0, 0, 0, 0, 104, 0, 0, 0, 1, 0, 83, 0, 116, 0, 114, 0, 105, 0,
     110, 0, 103, 0, 70, 0, 105, 0, 108, 0, 101, 0, 73, 0, 110, 0, 102, 0, 111, 0, 0, 0, 68, 0, 0,
     0, 1, 0, 48, 0, 52, 0, 48, 0, 57, 0, 48, 0, 52, 0, 66, 0, 48, 0, 0, 0, 44, 0, 2, 0, 1, 0, 70,
     0, 105, 0, 108, 0, 101, 0, 68, 0, 101, 0, 115, 0, 99, 0, 114, 0, 105, 0, 112, 0, 116, 0, 105,
     0, 111, 0, 110, 0, 0, 0, 0, 0, 65, 0, 0, 0]"

definition demo_file :: read_file where
  "demo_file off n =
     (if off = 0 then (None, [77, 90] @ replicate 58 0 @ [64, 0, 0, 0])
      else if off = 64 then (None, [80, 69, 0, 0, 0, 0, 1, 0] @ replicate 12 0 @ [120, 0, 0, 0])
      else if off = 88 then (None, [11, 1] @ replicate 90 0 @ [3, 0, 0, 0] @ replicate 16 0 @ [0, 16, 0, 0, 0, 0, 0, 0])
      else if off = 208 then (None, replicate 12 0 @ [0, 16, 0, 0, 0, 2, 0, 0, 0, 1, 0, 0] @ replicate 16 0)
      else if off = 256 \<or> off = 280 \<or> off = 304 then (None, replicate 14 0 @ [1, 0])
      else if off = 272 then (None, [16, 0, 0, 0, 24, 0, 0, 128])
      else if off = 296 then (None, [1, 0, 0, 0, 48, 0, 0, 128])
      else if off = 320 then (None, [0, 0, 0, 0, 72, 0, 0, 0])
      else if off = 328 then (None, [88, 16, 0, 0, 144, 0, 0, 0, 0, 0, 0, 0, 0, 0, 0, 0])
      else if off = 344 then (None, demo_block)
      else (Some errorHandleEOF, []))"

lemma bnd_ok: "bnd (Some (Inr x)) f = f x"
  by (simp add: bnd_def)

lemma bnd_lazy: "m = m' \<Longrightarrow> bnd m f = bnd m' f"
  by simp

lemmas version_eval = bnd_ok ok_def bit_0 le16_def le32_def slice_def uint32_le_def align4_def
  utf16z_def utf16z_loop.simps utf8_def high_surrogate_def low_surrogate_def
  appendRune_def char_of_def versionBlockAt_def childBlocks_def child_loop.simps ascii_lower_def EqualFold_hex_def
  trim_space_def unicode_space_def textValue_def

lemma demo_parse: "parseVersionInfo demo_block = ok \<lparr>ivDescription = ''A'', ivOriginalName = []\<rparr>"
  by (simp add: parseVersionInfo_def version_eval demo_block_def cong: bnd_lazy)

lemma demo_reads:
  "readAt (heldFile demo_file) 0 64 = ok ([77, 90] @ replicate 58 0 @ [64, 0, 0, 0])"
  "readAt (heldFile demo_file) 64 24 = ok ([80, 69, 0, 0, 0, 0, 1, 0] @ replicate 12 0 @ [120, 0, 0, 0])"
  "readAt (heldFile demo_file) 88 120 = ok ([11, 1] @ replicate 90 0 @ [3, 0, 0, 0] @ replicate 16 0 @ [0, 16, 0, 0, 0, 0, 0, 0])"
  "readAt (heldFile demo_file) 208 40 = ok (replicate 12 0 @ [0, 16, 0, 0, 0, 2, 0, 0, 0, 1, 0, 0] @ replicate 16 0)"
  by (simp_all add: readAt_def heldFile_def demo_file_def ok_def)

lemma uint32_be_zero: "uint32_be (replicate 4 0) = 0"
  by (simp add: numeral_eq_Suc be32_def)

lemmas reader_eval = uint32_be_zero nth_append bnd_ok ok_def le16_def le32_def uint32_le_def be32_def slice_def byte_at_def
  maxHeaderOffset_def version_bounds resourceDirectory_def resourceTypeVersion_def

definition demo_layout :: imageLayout where
  "demo_layout = \<lparr>imSections = [\<lparr>isVirtualAddress = 4096, isVirtualSize = 0, isRawSize = 512, isRawOffset = 256\<rparr>],
     imResourceRVA = 4096\<rparr>"

lemma demo_headers: "readImageLayout (heldFile demo_file) = ok demo_layout"
  by (simp add: readImageLayout_def demo_reads resource_rva_def optional_layout_def demo_layout_def reader_eval cong: bnd_lazy)

lemma length_demo_block: "length demo_block = 144"
  by (simp add: demo_block_def)

lemma demo_image_reads:
  "image_read (heldFile demo_file) demo_layout 4096 16 = ok (replicate 14 0 @ [1, 0])"
  "image_read (heldFile demo_file) demo_layout 4120 16 = ok (replicate 14 0 @ [1, 0])"
  "image_read (heldFile demo_file) demo_layout 4144 16 = ok (replicate 14 0 @ [1, 0])"
  "image_read (heldFile demo_file) demo_layout 4112 8 = ok [16, 0, 0, 0, 24, 0, 0, 128]"
  "image_read (heldFile demo_file) demo_layout 4136 8 = ok [1, 0, 0, 0, 48, 0, 0, 128]"
  "image_read (heldFile demo_file) demo_layout 4160 8 = ok [0, 0, 0, 0, 72, 0, 0, 0]"
  "image_read (heldFile demo_file) demo_layout 4168 16 = ok [88, 16, 0, 0, 144, 0, 0, 0, 0, 0, 0, 0, 0, 0, 0, 0]"
  "image_read (heldFile demo_file) demo_layout 4184 144 = ok demo_block"
  by (simp_all add: image_read_def demo_layout_def readAt_def heldFile_def demo_file_def length_demo_block ok_def)

lemma demo_directories:
  "read_directory (heldFile demo_file) demo_layout 4096 = ok [\<lparr>reNamed = False, reId = 16, reOffset = 24, reSubdir = True\<rparr>]"
  "read_directory (heldFile demo_file) demo_layout 4120 = ok [\<lparr>reNamed = False, reId = 1, reOffset = 48, reSubdir = True\<rparr>]"
  "read_directory (heldFile demo_file) demo_layout 4144 = ok [\<lparr>reNamed = False, reId = 0, reOffset = 72, reSubdir = False\<rparr>]"
  by (simp_all add: read_directory_def demo_image_reads reader_eval cong: bnd_lazy)

lemma demo_leaf:
  "leaf (heldFile demo_file) demo_layout [\<lparr>reNamed = False, reId = 0, reOffset = 72, reSubdir = False\<rparr>] = ok demo_block"
  by (simp add: leaf_def demo_layout_def [THEN arg_cong [of _ _ imResourceRVA]] demo_image_reads reader_eval cong: bnd_lazy)

lemma demo_version: "heldVersion demo_file = Some (\<lparr>ivDescription = ''A'', ivOriginalName = []\<rparr>, None)"
  by (simp add: heldVersion_def readVersionResource_def demo_headers demo_layout_def [THEN arg_cong [of _ _ imResourceRVA]]
      demo_directories demo_leaf subdirectory_def demo_parse reader_eval cong: bnd_lazy)

text \<open>
  C34: verifying any file ends with an answer. Whatever bytes and failures the reads of a held file
  give, before and after the platform's verification, no index or slice of the version reader is out
  of range and every loop of it ends; a file without a readable resource, or changed under the
  verification, is an error or a nameless result, never a crash of the service that asked.
\<close>

theorem version_reader_total:
  "\<exists>code verdict err. verifyHeld rf1 trust withSigner rf2 = Some (code, verdict, err)"
proof -
  obtain v1 e1 v2 e2 where "heldVersion rf1 = Some (v1, e1)" "heldVersion rf2 = Some (v2, e2)"
    using heldVersion_total by (metis not_None_eq surj_pair)
  then show ?thesis by (auto simp: verifyHeld_def Let_def split: prod.splits)
qed

text \<open>
  C33: the names shown for a trusted program are the file's own. Reads through the handle may fail at
  any point, in either pass. When the verification nevertheless ends without an error and with trust,
  the description and original name it reports are those that a reader of the file as it stood before
  would get with no failure, and the same as those of the file as it stood after; a failed read is
  never taken for a file with no names.
\<close>

theorem verified_names:
  assumes "failing before rf1" and "failing after rf2"
    and "verifyHeld rf1 trust withSigner rf2 = Some (code, verdict, None)" and "cTrusted code"
  shows "\<exists>v err1 err2. heldVersion before = Some (v, err1) \<and> heldVersion after = Some (v, err2) \<and>
    (err1 = None \<longleftrightarrow> err2 = None) \<and> cDescription code = ivDescription v \<and> cOriginalName code = ivOriginalName v"
proof -
  from verifyHeld_trusted [OF assms(3,4)] obtain v err1 err2 where v: "heldVersion rf1 = Some (v, err1)"
      "heldVersion rf2 = Some (v, err2)" "\<not> errors_Is err1 errUnreadable" "\<not> errors_Is err2 errUnreadable"
      "(err1 = None) = (err2 = None)" "cDescription code = ivDescription v" "cOriginalName code = ivOriginalName v"
    by blast
  have "heldVersion before = Some (v, err1)" "heldVersion after = Some (v, err2)"
    by (rule failing_heldVersion [OF assms(1) v(1,3)], rule failing_heldVersion [OF assms(2) v(2,4)])
  then show ?thesis using v(5-7) by blast
qed

theorem verified_names_witness:
  "cDescription (zero_Code\<lparr>cTrusted := True, cDescription := ''A''\<rparr>) = ''A'' \<and>
   verifyHeld demo_file (zero_Code\<lparr>cTrusted := True\<rparr>, ProofBound) id demo_file =
     Some (zero_Code\<lparr>cTrusted := True, cDescription := ''A''\<rparr>, ProofBound, None)"
proof -
  let ?code = "zero_Code\<lparr>cTrusted := True, cDescription := ''A''\<rparr>"
  have f: "failing demo_file demo_file" by (simp add: failing_def)
  have v: "verifyHeld demo_file (zero_Code\<lparr>cTrusted := True\<rparr>, ProofBound) id demo_file = Some (?code, ProofBound, None)"
    by (simp add: verifyHeld_def demo_version zero_Code_def)
  have "cTrusted ?code" by (simp add: zero_Code_def)
  from verified_names [OF f f v this] show ?thesis using v demo_version by auto
qed

end
