(* ===== verification/Private_Dir.thy ===== *)
theory Private_Dir
  imports Path_Identity "HOL-Library.Multiset"
begin

section \<open>Private folders and model folders (go/privatedir)\<close>

text \<open>
  Folders only this account may write: \<^verbatim>\<open>Ensure\<close> and \<^verbatim>\<open>CheckDir\<close> (privatedir.go,
  privatedir\_unix.go, \<^verbatim>\<open>Make\<close> of privatedir\_other.go), and the protection of a folder of model
  files with everything below it (models.go, models\_unix.go). The answers of the system calls are
  fields of the host and take the number of the call, so that two calls may be answered
  differently; every call that changes something is recorded in the order it is made. Modes are
  hexadecimal here: 0x1C0 is 0700, 0x3F is 077, 0x12 is 022. Error numbers and flags are Linux's. The scan of
  a folder ends only if the folder does: it is a \<open>partial_function\<close>, \<open>None\<close> when it does not.
\<close>

unbundle bit_operations_syntax

record Stat_t =
  stMode :: "32 word"
  stUid :: int
  stNlink :: nat
  stDev :: "64 word"
  stIno :: "64 word"

text \<open>\<^verbatim>\<open>fs.FileInfo\<close>; the owner is absent where \<^verbatim>\<open>Sys\<close> is not a \<^verbatim>\<open>Stat_t\<close>.\<close>

record FileInfo =
  fiSymlink :: bool
  fiIsDir :: bool
  fiPerm :: "32 word"
  fiOwner :: "int option"

record dir_host =
  dhGetuid :: int
  dhInfo :: "nat \<Rightarrow> string \<Rightarrow> go_error + FileInfo"
  dhMkdirAll :: "nat \<Rightarrow> string \<Rightarrow> error"
  dhMkdir :: "nat \<Rightarrow> string \<Rightarrow> error"
  dhChmod :: "nat \<Rightarrow> string \<Rightarrow> error"
  dhLstat :: "nat \<Rightarrow> string \<Rightarrow> go_error + Stat_t"
  dhFstatat :: "nat \<Rightarrow> int \<Rightarrow> string \<Rightarrow> go_error + Stat_t"
  dhOpenat :: "nat \<Rightarrow> int \<Rightarrow> string \<Rightarrow> bool \<Rightarrow> go_error + int"
  dhFstat :: "nat \<Rightarrow> int \<Rightarrow> go_error + Stat_t"
  dhReadDir :: "nat \<Rightarrow> string \<Rightarrow> go_error + string list"
  dhFchmod :: "nat \<Rightarrow> int \<Rightarrow> 32 word \<Rightarrow> error"
  dhHome :: "go_error + string"
  dhFiles :: file_host
  dhLocal :: "string \<Rightarrow> error"

datatype dir_event =
    MkdirAll string | Mkdir string | Chmod string | Remove string
  | Opened int string | Fchmod int "32 word" | Shut int

record dir_world =
  dwTick :: nat
  dwLog :: "dir_event list"

definition asked :: "dir_world \<Rightarrow> dir_world" where "asked w = w\<lparr>dwTick := Suc (dwTick w)\<rparr>"

definition did :: "dir_event \<Rightarrow> dir_world \<Rightarrow> dir_world" where
  "did ev w = w\<lparr>dwTick := Suc (dwTick w), dwLog := dwLog w @ [ev]\<rparr>"

subsection \<open>Private folders\<close>

definition checkInfo :: "FileInfo \<Rightarrow> int \<Rightarrow> bool \<Rightarrow> error" where
  "checkInfo info uid exact =
     (if fiSymlink info then Some (New ''it is a link'')
      else if \<not> fiIsDir info then Some (New ''it is not a directory'')
      else (case fiOwner info of
              None \<Rightarrow> Some (New ''its owner cannot be read'')
            | Some owner \<Rightarrow>
                if owner \<noteq> uid then Some (New ''it is owned by another uid'')
                else if fiPerm info AND 0x3F \<noteq> 0 \<or> exact \<and> fiPerm info \<noteq> 0x1C0 then Some (New ''its mode is not 0700'')
                else None))"

definition check_private :: "dir_host \<Rightarrow> string \<Rightarrow> dir_world \<Rightarrow> error \<times> dir_world" where
  "check_private h dir w =
     (case dhInfo h (dwTick w) dir of
        Inl err \<Rightarrow> (Some err, asked w)
      | Inr info \<Rightarrow> (checkInfo info (dhGetuid h) True, asked w))"

definition OwnerOnly :: "dir_host \<Rightarrow> FileInfo \<Rightarrow> error" where
  "OwnerOnly h info = checkInfo info (dhGetuid h) False"

definition CheckDir :: "dir_host \<Rightarrow> string \<Rightarrow> dir_world \<Rightarrow> error \<times> dir_world" where
  "CheckDir h dir w =
     (case check_private h dir w of
        (Some err, w') \<Rightarrow> (Some (Errorf [Err ErrNotPrivate]), w')
      | (None, w') \<Rightarrow> (None, w'))"

definition Make :: "dir_host \<Rightarrow> string \<Rightarrow> dir_world \<Rightarrow> error \<times> dir_world" where
  "Make h dir w =
     (case dhMkdir h (dwTick w) dir of
        Some err \<Rightarrow> (Some err, asked w)
      | None \<Rightarrow>
          (let w1 = did (Mkdir dir) w; w2 = did (Chmod dir) w1 in
           case dhChmod h (dwTick w1) dir of
             Some err \<Rightarrow> (Some err, did (Remove dir) w2)
           | None \<Rightarrow>
               (case dhInfo h (dwTick w2) dir of
                  Inl err \<Rightarrow> (Some (New ''not a 0700 directory after creation''), did (Remove dir) (asked w2))
                | Inr info \<Rightarrow>
                    if \<not> fiIsDir info \<or> fiPerm info \<noteq> 0x1C0
                    then (Some (New ''not a 0700 directory after creation''), did (Remove dir) (asked w2))
                    else (None, asked w2))))"

definition Ensure :: "dir_host \<Rightarrow> string \<Rightarrow> dir_world \<Rightarrow> error \<times> dir_world" where
  "Ensure h dir0 w =
     (if \<not> IsAbs dir0 then (Some (Errorf [Err ErrNotPrivate]), w)
      else
        (let dir = Clean dir0; found = dhInfo h (dwTick w) dir; w1 = asked w in
         case found of
           Inr info \<Rightarrow> CheckDir h dir w1
         | Inl err \<Rightarrow>
             if \<not> errors_is err (Err ErrNotExist) then (Some err, w1)
             else (let w2 = did (MkdirAll (Dir dir)) w1 in
                   case dhMkdirAll h (dwTick w1) (Dir dir) of
                     Some err \<Rightarrow> (Some err, w2)
                   | None \<Rightarrow>
                       (case Make h dir w2 of
                          (made, w3) \<Rightarrow>
                            if made \<noteq> None \<and> \<not> errors_Is made (Err ErrExist) then (made, w3)
                            else CheckDir h dir w3))))"

subsection \<open>Protecting everything below a folder\<close>

definition S_IFMT :: "32 word" where "S_IFMT = 0xF000"
definition S_IFLNK :: "32 word" where "S_IFLNK = 0xA000"
definition S_IFDIR :: "32 word" where "S_IFDIR = 0x4000"
definition S_IFREG :: "32 word" where "S_IFREG = 0x8000"

definition AT_FDCWD :: int where "AT_FDCWD = -100"

record held =
  hdPath :: string
  hdFd :: int
  hdDir :: bool
  hdMode :: "32 word"

definition judge :: "dir_host \<Rightarrow> Stat_t \<Rightarrow> error" where
  "judge h st =
     (let kind = stMode st AND S_IFMT in
      if kind = S_IFLNK then Some (New ''it is a link'')
      else if kind \<noteq> S_IFDIR \<and> kind \<noteq> S_IFREG then Some (New ''it is neither a folder nor a file'')
      else if stUid st \<noteq> dhGetuid h then Some (New ''it is not owned by this account'')
      else if kind = S_IFREG \<and> 1 < stNlink st then Some (New ''it has names that cannot be listed here'')
      else None)"

text \<open>The closure \<^verbatim>\<open>open\<close>: judged unopened, opened, and judged again through its own descriptor.\<close>

definition open_entry :: "dir_host \<Rightarrow> int \<Rightarrow> string \<Rightarrow> string \<Rightarrow> held list \<Rightarrow> dir_world \<Rightarrow> (go_error + held) \<times> held list \<times> dir_world" where
  "open_entry h parent p name everything w =
     (case dhFstatat h (dwTick w) parent name of
        Inl err \<Rightarrow> (Inl err, everything, asked w)
      | Inr before \<Rightarrow>
          (case judge h before of
             Some err \<Rightarrow> (Inl err, everything, asked w)
           | None \<Rightarrow>
               (let w1 = asked w in
                case dhOpenat h (dwTick w1) parent name (stMode before AND S_IFMT = S_IFDIR) of
                  Inl err \<Rightarrow> (Inl (if errors_is err (Errno 40) then New ''it is a link'' else err), everything, asked w1)
                | Inr fd \<Rightarrow>
                    (let w2 = did (Opened fd p) w1 in
                     case dhFstat h (dwTick w2) fd of
                       Inl err \<Rightarrow> (Inl err, everything, did (Shut fd) (asked w2))
                     | Inr st \<Rightarrow>
                         (let e = \<lparr>hdPath = p, hdFd = fd, hdDir = (stMode st AND S_IFMT = S_IFDIR), hdMode = stMode st AND 0xFFF\<rparr>;
                              w3 = asked w2
                          in if stDev st \<noteq> stDev before \<or> stIno st \<noteq> stIno before
                             then (Inl (New ''it changed while it was opened''), everything @ [e], w3)
                             else (case judge h st of
                                     Some err \<Rightarrow> (Inl err, everything @ [e], w3)
                                   | None \<Rightarrow> (Inr e, everything @ [e], w3)))))))"

fun open_children :: "dir_host \<Rightarrow> held \<Rightarrow> string list \<Rightarrow> held list \<Rightarrow> dir_world \<Rightarrow> error \<times> held list \<times> dir_world" where
  "open_children h e [] everything w = (None, everything, w)"
| "open_children h e (c # cs) everything w =
     (case open_entry h (hdFd e) (filepath_Join (hdPath e) c) c everything w of
        (Inl err, everything', w') \<Rightarrow> (Some err, everything', w')
      | (Inr child, everything', w') \<Rightarrow> open_children h e cs everything' w')"

partial_function (option) scan_loop :: "dir_host \<Rightarrow> nat \<Rightarrow> held list \<Rightarrow> dir_world \<Rightarrow> (error \<times> held list \<times> dir_world) option" where
  "scan_loop h i everything w =
     (if \<not> i < length everything then Some (None, everything, w)
      else if \<not> hdDir (everything ! i) then scan_loop h (Suc i) everything w
      else (case dhReadDir h (dwTick w) (hdPath (everything ! i)) of
              Inl err \<Rightarrow> Some (Some err, everything, asked w)
            | Inr names \<Rightarrow>
                (case open_children h (everything ! i) names everything (asked w) of
                   (Some err, everything', w') \<Rightarrow> Some (Some err, everything', w')
                 | (None, everything', w') \<Rightarrow> scan_loop h (Suc i) everything' w')))"

text \<open>The whole scan: the folder itself, then everything below whatever is held.\<close>

definition scan :: "dir_host \<Rightarrow> string \<Rightarrow> dir_world \<Rightarrow> (error \<times> held list \<times> dir_world) option" where
  "scan h dir w =
     (case open_entry h AT_FDCWD dir dir [] w of
        (Inl err, everything, w') \<Rightarrow> Some (Some err, everything, w')
      | (Inr folder, everything, w') \<Rightarrow>
          if \<not> hdDir folder then Some (Some (New ''it is not a directory''), everything, w')
          else scan_loop h 0 everything w')"

fun chmod_loop :: "dir_host \<Rightarrow> held list \<Rightarrow> dir_world \<Rightarrow> error \<times> dir_world" where
  "chmod_loop h [] w = (None, w)"
| "chmod_loop h (e # es) w =
     (let mode = hdMode e AND NOT 0x12; w' = did (Fchmod (hdFd e) mode) w in
      case dhFchmod h (dwTick w) (hdFd e) mode of
        Some err \<Rightarrow> (Some (Errorf [err]), w')
      | None \<Rightarrow> chmod_loop h es w')"

fun close_all :: "held list \<Rightarrow> dir_world \<Rightarrow> dir_world" where
  "close_all [] w = w"
| "close_all (e # es) w = close_all es (did (Shut (hdFd e)) w)"

definition protectModels :: "dir_host \<Rightarrow> string \<Rightarrow> dir_world \<Rightarrow> (error \<times> dir_world) option" where
  "protectModels h dir w =
     (case scan h dir w of
        None \<Rightarrow> None
      | Some (Some err, everything, w') \<Rightarrow> Some (Some err, close_all everything w')
      | Some (None, everything, w') \<Rightarrow>
          (case chmod_loop h everything w' of (err, w'') \<Rightarrow> Some (err, close_all everything w'')))"

definition checkModels :: "dir_host \<Rightarrow> string \<Rightarrow> dir_world \<Rightarrow> error \<times> dir_world" where
  "checkModels h dir w =
     (case dhLstat h (dwTick w) dir of
        Inl err \<Rightarrow> (Some err, asked w)
      | Inr st \<Rightarrow>
          (let kind = stMode st AND S_IFMT in
           if kind = S_IFLNK then Some (New ''it is a link'')
           else if kind \<noteq> S_IFDIR then Some (New ''it is not a directory'')
           else if stUid st \<noteq> dhGetuid h then Some (New ''it is not owned by this account'')
           else if stMode st AND 0x12 \<noteq> 0 then Some (New ''its mode lets a group or others write'')
           else None, asked w))"

definition CheckModelFolder :: "dir_host \<Rightarrow> string \<Rightarrow> dir_world \<Rightarrow> error \<times> dir_world" where
  "CheckModelFolder h dir w =
     (if \<not> IsAbs dir then (Some (Errorf [Err ErrNotModelFolder]), w)
      else (case checkModels h (Clean dir) w of
              (Some err, w') \<Rightarrow> (Some (Errorf [Err ErrNotModelFolder]), w')
            | (None, w') \<Rightarrow> (None, w')))"

subsection \<open>Roots\<close>

definition underRoot :: "dir_host \<Rightarrow> string \<Rightarrow> string \<Rightarrow> bool \<times> error" where
  "underRoot h p root =
     (case SameFile (dhLocal h) (dhFiles h) p root of
        (same, err) \<Rightarrow>
          if err = None \<and> same then (True, None)
          else (case Within (dhLocal h) (dhFiles h) p root of
                  (inside, werr) \<Rightarrow>
                    if werr = None then (inside, None)
                    else (False, if err = None then werr else err)))"

definition under :: "dir_host \<Rightarrow> string \<Rightarrow> string list \<Rightarrow> bool" where
  "under h p roots = list_ex (\<lambda>r. case underRoot h p r of (ok, err) \<Rightarrow> err = None \<and> ok) roots"

definition holds_one :: "dir_host \<Rightarrow> string \<Rightarrow> string list \<Rightarrow> bool" where
  "holds_one h p others =
     list_ex (\<lambda>other. other \<noteq> [] \<and> (case underRoot h other p of (ok, err) \<Rightarrow> err \<noteq> None \<or> ok)) others"

definition known_folders :: "string \<Rightarrow> string list" where
  "known_folders home =
     home # map (filepath_Join home) [''Documents'', ''Desktop'', ''Downloads'', ''Library'', ''.local'', ''.local/share'', ''.config'']"

function link_loop :: "dir_host \<Rightarrow> string \<Rightarrow> dir_world \<Rightarrow> error \<times> dir_world" where
  "link_loop h p w =
     (case dhLstat h (dwTick w) p of
        Inl err \<Rightarrow> (Some (Errorf [err]), asked w)
      | Inr st \<Rightarrow>
          if stMode st AND S_IFMT = S_IFLNK then (Some (New ''a folder above is a link''), asked w)
          else if Dir p = p then (None, asked w)
          else link_loop h (Dir p) (asked w))"
  by pat_completeness auto
termination
  by (relation "measure (\<lambda>(h, p, w). up_measure p)") (simp_all add: Dir_up)

declare link_loop.simps [simp del]

definition checkRoot :: "dir_host \<Rightarrow> string \<Rightarrow> dir_world \<Rightarrow> error \<times> dir_world" where
  "checkRoot h root w =
     (let home_error =
        (case dhHome h of
           Inl err \<Rightarrow> None
         | Inr home0 \<Rightarrow>
             if home0 = [] then None
             else (let home = Clean home0 in
                   if root \<in> set (known_folders home) then Some (New ''it is a known folder'')
                   else if holds_one h root [home] then Some (New ''it holds this account's home'')
                   else None))
      in case home_error of
           Some err \<Rightarrow> (Some err, w)
         | None \<Rightarrow>
             (case link_loop h root w of
                (Some err, w') \<Rightarrow> (Some err, w')
              | (None, w') \<Rightarrow>
                  (case fhEvalSymlinks (dhFiles h) root of
                     Inl err \<Rightarrow> (Some err, asked w')
                   | Inr final \<Rightarrow> (if final \<noteq> root then Some (New ''it resolves elsewhere'') else None, asked w'))))"

definition CheckModelsRoot :: "dir_host \<Rightarrow> string \<Rightarrow> dir_world \<Rightarrow> error \<times> dir_world" where
  "CheckModelsRoot h root0 w =
     (let refused = Some (Errorf [Err ErrNotModelFolder]) in
      if \<not> IsAbs root0 then (refused, w)
      else
        (let root = Clean root0 in
         if Dir root = root then (refused, w)
         else if dhLocal h root \<noteq> None then (refused, w)
         else (case dhInfo h (dwTick w) root of
                 Inl err \<Rightarrow> (refused, asked w)
               | Inr info \<Rightarrow>
                   (case checkRoot h root (asked w) of
                      (Some err, w') \<Rightarrow> (refused, w')
                    | (None, w') \<Rightarrow> (None, w')))))"

text \<open>The loop of \<^verbatim>\<open>ProtectModelFolder\<close> over its roots: an error, or the clean roots that exist.\<close>

fun root_loop :: "dir_host \<Rightarrow> string list \<Rightarrow> string list \<Rightarrow> dir_world \<Rightarrow> (go_error + string list) \<times> dir_world" where
  "root_loop h accepted [] w = (Inr accepted, w)"
| "root_loop h accepted (r0 # rs) w =
     (if \<not> IsAbs r0 then (Inl (Errorf [Err ErrNotModelFolder]), w)
      else
        (let r = Clean r0 in
         if dhLocal h r \<noteq> None then (Inl (Errorf [Err ErrNotModelFolder]), w)
         else if (case dhInfo h (dwTick w) r of Inl err \<Rightarrow> errors_is err (Err ErrNotExist) | Inr info \<Rightarrow> False)
         then root_loop h accepted rs (asked w)
         else (case CheckModelsRoot h r (asked w) of
                 (Some err, w') \<Rightarrow> (Inl err, w')
               | (None, w') \<Rightarrow> root_loop h (accepted @ [r]) rs w')))"

definition ProtectModelFolder :: "dir_host \<Rightarrow> string \<Rightarrow> string list \<Rightarrow> dir_world \<Rightarrow> (error \<times> dir_world) option" where
  "ProtectModelFolder h dir0 roots w =
     (if \<not> IsAbs dir0 then Some (Some (Errorf [Err ErrNotModelFolder]), w)
      else
        (let dir = Clean dir0 in
         case root_loop h [] roots w of
           (Inl err, w1) \<Rightarrow> Some (Some err, w1)
         | (Inr accepted, w1) \<Rightarrow>
             if \<not> under h dir accepted then Some (Some (Errorf [Err ErrNotModelFolder]), w1)
             else (case protectModels h dir w1 of
                     None \<Rightarrow> None
                   | Some (Some err, w2) \<Rightarrow> Some (Some (Errorf [Err ErrNotModelFolder]), w2)
                   | Some (None, w2) \<Rightarrow> Some (CheckModelFolder h dir w2))))"

subsection \<open>What the scan holds\<close>

definition opens :: "dir_event list \<Rightarrow> int list" where
  "opens evs = concat (map (\<lambda>ev. case ev of Opened fd p \<Rightarrow> [fd] | _ \<Rightarrow> []) evs)"

definition shuts :: "dir_event list \<Rightarrow> int list" where
  "shuts evs = concat (map (\<lambda>ev. case ev of Shut fd \<Rightarrow> [fd] | _ \<Rightarrow> []) evs)"

definition chmods :: "dir_event list \<Rightarrow> (int \<times> 32 word) list" where
  "chmods evs = concat (map (\<lambda>ev. case ev of Fchmod fd mode \<Rightarrow> [(fd, mode)] | _ \<Rightarrow> []) evs)"

lemma event_simps [simp]:
  "opens [] = []" "opens (ev # evs) = (case ev of Opened fd p \<Rightarrow> [fd] | _ \<Rightarrow> []) @ opens evs"
  "shuts [] = []" "shuts (ev # evs) = (case ev of Shut fd \<Rightarrow> [fd] | _ \<Rightarrow> []) @ shuts evs"
  "chmods [] = []" "chmods (ev # evs) = (case ev of Fchmod fd mode \<Rightarrow> [(fd, mode)] | _ \<Rightarrow> []) @ chmods evs"
  "opens (evs @ evs') = opens evs @ opens evs'" "shuts (evs @ evs') = shuts evs @ shuts evs'"
  "chmods (evs @ evs') = chmods evs @ chmods evs'"
  by (simp_all add: opens_def shuts_def chmods_def)

lemma world_simps [simp]:
  "dwLog (asked w) = dwLog w" "dwLog (did ev w) = dwLog w @ [ev]"
  "dwTick (asked w) = Suc (dwTick w)" "dwTick (did ev w) = Suc (dwTick w)"
  by (simp_all add: asked_def did_def)

text \<open>An entry judged through its own descriptor: a folder or a file of one name, of this account.\<close>

definition judged :: "dir_host \<Rightarrow> held \<Rightarrow> bool" where
  "judged h e \<longleftrightarrow> (\<exists>t st. dhFstat h t (hdFd e) = Inr st \<and> judge h st = None \<and>
     hdDir e = (stMode st AND S_IFMT = S_IFDIR) \<and> hdMode e = stMode st AND 0xFFF)"

text \<open>
  From one moment of the scan to a later one: entries are only added, no mode is written, and
  every descriptor opened meanwhile is held or closed again.
\<close>

definition grown :: "held list \<Rightarrow> dir_world \<Rightarrow> held list \<Rightarrow> dir_world \<Rightarrow> bool" where
  "grown everything w everything' w' \<longleftrightarrow>
     (\<exists>es evs. everything' = everything @ es \<and> dwLog w' = dwLog w @ evs \<and> chmods evs = [] \<and>
        mset (opens evs) = mset (map hdFd es) + mset (shuts evs))"

lemma grown_refl: "dwLog w' = dwLog w \<Longrightarrow> grown everything w everything w'"
  by (auto simp: grown_def)

lemma grown_trans: "grown a w b w' \<Longrightarrow> grown b w' c w'' \<Longrightarrow> grown a w c w''"
  unfolding grown_def
  by (elim exE conjE, rule_tac x = "es @ esa" in exI, rule_tac x = "evs @ evsa" in exI) simp

lemma open_entry_grown:
  assumes "open_entry h parent p name everything w = (r, everything', w')"
  shows "grown everything w everything' w'"
  using assms unfolding open_entry_def Let_def
  by (auto simp: grown_def split: sum.splits option.splits if_splits)

lemma open_entry_Inr:
  assumes "open_entry h parent p name everything w = (Inr e, everything', w')"
  shows "everything' = everything @ [e] \<and> judged h e \<and> hdPath e = p"
  using assms unfolding open_entry_def Let_def
  by (auto simp: judged_def split: sum.splits option.splits if_splits) blast

lemma open_children_grown:
  "open_children h e cs everything w = (r, everything', w') \<Longrightarrow> grown everything w everything' w'"
proof (induction h e cs everything w rule: open_children.induct)
  case (2 h e c cs everything w)
  obtain q e1 w1 where o: "open_entry h (hdFd e) (filepath_Join (hdPath e) c) c everything w = (q, e1, w1)"
    by (cases "open_entry h (hdFd e) (filepath_Join (hdPath e) c) c everything w")
  show ?case
  proof (cases q)
    case (Inr child)
    then show ?thesis using 2 o open_entry_grown [OF o] by (auto intro: grown_trans)
  qed (use 2(2) o open_entry_grown [OF o] in auto)
qed (auto intro: grown_refl)

lemma open_children_None:
  "open_children h e cs everything w = (None, everything', w') \<Longrightarrow>
   \<exists>es. everything' = everything @ es \<and> list_all (judged h) es \<and> map hdPath es = map (filepath_Join (hdPath e)) cs"
proof (induction h e cs everything w rule: open_children.induct)
  case (2 h e c cs everything w)
  obtain q e1 w1 where o: "open_entry h (hdFd e) (filepath_Join (hdPath e) c) c everything w = (q, e1, w1)"
    by (cases "open_entry h (hdFd e) (filepath_Join (hdPath e) c) c everything w")
  show ?case
  proof (cases q)
    case (Inr child)
    then have c: "e1 = everything @ [child]" "judged h child" "hdPath child = filepath_Join (hdPath e) c"
      using open_entry_Inr o by auto
    then have "open_children h e cs e1 w1 = (None, everything', w')" using 2(2) o Inr by simp
    from 2(1) [OF o [symmetric] Inr refl this] obtain es where "everything' = e1 @ es" "list_all (judged h) es"
        "map hdPath es = map (filepath_Join (hdPath e)) cs"
      by blast
    then show ?thesis using c by (intro exI [of _ "child # es"]) simp
  qed (use 2(2) o in auto)
qed simp

text \<open>The entries of a folder that a listing named are held.\<close>

definition listed :: "dir_host \<Rightarrow> held list \<Rightarrow> held \<Rightarrow> bool" where
  "listed h everything e \<longleftrightarrow> (hdDir e \<longrightarrow> (\<exists>t names. dhReadDir h t (hdPath e) = Inr names \<and>
     (\<forall>c \<in> set names. \<exists>e' \<in> set everything. hdPath e' = filepath_Join (hdPath e) c)))"

lemma listed_more: "listed h everything e \<Longrightarrow> listed h (everything @ es) e"
  by (fastforce simp: listed_def)

lemmas scan_loop_induct = scan_loop.raw_induct [rotated, consumes 1, case_names step]

lemma scan_loop_grown: "scan_loop h i everything w = Some y \<Longrightarrow> grown everything w (fst (snd y)) (snd (snd y))"
proof (induction rule: scan_loop_induct)
  case (step loop h i everything w y)
  show ?case
  proof (cases "i < length everything \<and> hdDir (everything ! i)")
    case True
    show ?thesis
    proof (cases "dhReadDir h (dwTick w) (hdPath (everything ! i))")
      case (Inr names)
      obtain r e1 w1 where o: "open_children h (everything ! i) names everything (asked w) = (r, e1, w1)"
        by (cases "open_children h (everything ! i) names everything (asked w)")
      have g: "grown everything w e1 w1"
        by (rule grown_trans [OF grown_refl open_children_grown [OF o]]) simp
      show ?thesis
      proof (cases r)
        case None
        then have "loop h (Suc i) e1 w1 = Some y" using step(2) True Inr o by simp
        from grown_trans [OF g step(1) [OF this]] show ?thesis .
      qed (use step(2) True Inr o g in auto)
    qed (use step(2) True in \<open>auto simp: grown_refl\<close>)
  qed (use step in \<open>auto simp: grown_refl split: if_splits\<close>)
qed

lemma scan_loop_None:
  "scan_loop h i everything w = Some y \<Longrightarrow> fst y = None \<longrightarrow> list_all (judged h) everything \<longrightarrow>
    (\<exists>es. fst (snd y) = everything @ es) \<and> list_all (judged h) (fst (snd y)) \<and>
    (\<forall>j. i \<le> j \<longrightarrow> j < length (fst (snd y)) \<longrightarrow> listed h (fst (snd y)) (fst (snd y) ! j))"
proof (induction rule: scan_loop_induct)
  case (step loop h i everything w y)
  show ?case
  proof (intro impI)
    assume y: "fst y = None" and ok: "list_all (judged h) everything"
    show "(\<exists>es. fst (snd y) = everything @ es) \<and> list_all (judged h) (fst (snd y)) \<and>
      (\<forall>j. i \<le> j \<longrightarrow> j < length (fst (snd y)) \<longrightarrow> listed h (fst (snd y)) (fst (snd y) ! j))" (is "?goal")
    proof (cases "i < length everything")
      case False
      then show ?thesis using step(2) ok by auto
    next
      case True
      have after: ?goal if l: "loop h (Suc i) (everything @ es) w1 = Some y" "list_all (judged h) es"
        and here: "listed h (everything @ es) (everything ! i)" for es w1
      proof -
        have "list_all (judged h) (everything @ es)" using ok l(2) by simp
        with step(1) [OF l(1)] y obtain es' where r: "fst (snd y) = (everything @ es) @ es'" "list_all (judged h) (fst (snd y))"
            "\<forall>j. Suc i \<le> j \<longrightarrow> j < length (fst (snd y)) \<longrightarrow> listed h (fst (snd y)) (fst (snd y) ! j)"
          by blast
        have "listed h (fst (snd y)) (fst (snd y) ! i)" using listed_more [OF here, of es'] True by (simp add: r(1) nth_append)
        then have "listed h (fst (snd y)) (fst (snd y) ! j)" if "i \<le> j" "j < length (fst (snd y))" for j
          using r(3) that by (cases "j = i") auto
        then show ?thesis using r(1,2) by auto
      qed
      show ?thesis
      proof (cases "hdDir (everything ! i)")
        case False
        then show ?thesis using after [of "[]" w] step(2) True by (simp add: listed_def)
      next
        case dir: True
        then obtain names where n: "dhReadDir h (dwTick w) (hdPath (everything ! i)) = Inr names"
          using step(2) True y by (auto split: sum.splits)
        obtain r e1 w1 where c: "open_children h (everything ! i) names everything (asked w) = (r, e1, w1)"
          by (cases "open_children h (everything ! i) names everything (asked w)")
        have "r = None \<and> loop h (Suc i) e1 w1 = Some y"
          using step(2) True dir y by (cases r) (auto simp: c n)
        then have o: "dhReadDir h (dwTick w) (hdPath (everything ! i)) = Inr names"
            "open_children h (everything ! i) names everything (asked w) = (None, e1, w1)" "loop h (Suc i) e1 w1 = Some y"
          using n c by auto
        from open_children_None [OF o(2)] obtain es where es: "e1 = everything @ es" "list_all (judged h) es"
            "map hdPath es = map (filepath_Join (hdPath (everything ! i))) names" by blast
        have "\<exists>e' \<in> set (everything @ es). hdPath e' = filepath_Join (hdPath (everything ! i)) c" if "c \<in> set names" for c
        proof -
          have "filepath_Join (hdPath (everything ! i)) c \<in> set (map hdPath es)" unfolding es(3) using that by simp
          then show ?thesis by auto
        qed
        then have "listed h (everything @ es) (everything ! i)" using o(1) unfolding listed_def by blast
        then show ?thesis using after [of es w1] o(3) es by simp
      qed
    qed
  qed
qed

subsection \<open>Nothing changes unless everything is held\<close>

definition cleared :: "held \<Rightarrow> int \<times> 32 word" where "cleared e = (hdFd e, hdMode e AND NOT 0x12)"

lemma chmod_loop_log:
  "chmod_loop h es w = (err, w') \<Longrightarrow> \<exists>evs. dwLog w' = dwLog w @ evs \<and> opens evs = [] \<and> shuts evs = [] \<and>
     (\<exists>k. chmods evs = map cleared (take k es)) \<and> (err = None \<longrightarrow> chmods evs = map cleared es)"
proof (induction h es w rule: chmod_loop.induct)
  case (2 h e es w)
  let ?m = "hdMode e AND NOT 0x12"
  let ?w = "did (Fchmod (hdFd e) ?m) w"
  show ?case
  proof (cases "dhFchmod h (dwTick w) (hdFd e) ?m")
    case None
    then have "chmod_loop h es ?w = (err, w')" using 2(2) by (simp add: Let_def)
    from 2(1) [OF refl refl None this] obtain evs k where l: "dwLog w' = dwLog ?w @ evs" "opens evs = []" "shuts evs = []"
        "chmods evs = map cleared (take k es)" "err = None \<longrightarrow> chmods evs = map cleared es" by blast
    have "chmods (Fchmod (hdFd e) ?m # evs) = map cleared (take (Suc k) (e # es))"
      "err = None \<longrightarrow> chmods (Fchmod (hdFd e) ?m # evs) = map cleared (e # es)"
      using l(4,5) by (simp_all add: cleared_def)
    moreover have "dwLog w' = dwLog w @ Fchmod (hdFd e) ?m # evs" "opens (Fchmod (hdFd e) ?m # evs) = []"
        "shuts (Fchmod (hdFd e) ?m # evs) = []"
      using l(1-3) by simp_all
    ultimately show ?thesis by blast
  next
    case (Some x)
    then show ?thesis using 2(2) by (intro exI [of _ "[Fchmod (hdFd e) ?m]"]) (auto simp: cleared_def intro: exI [of _ 1])
  qed
qed auto

lemma close_all_log: "dwLog (close_all es w) = dwLog w @ map (\<lambda>e. Shut (hdFd e)) es"
  by (induction es w rule: close_all.induct) simp_all

lemma close_all_events:
  "opens (map (\<lambda>e. Shut (hdFd e)) es) = []" "shuts (map (\<lambda>e. Shut (hdFd e)) es) = map hdFd es"
  "chmods (map (\<lambda>e. Shut (hdFd e)) es) = []"
  by (induction es) simp_all

lemma scan_spec:
  assumes "scan h dir w = Some (r, everything, w')"
  shows "grown [] w everything w'"
    and "r = None \<Longrightarrow> list_all (judged h) everything \<and> list_all (listed h everything) everything \<and>
      everything \<noteq> [] \<and> hdPath (hd everything) = dir"
proof -
  obtain q e1 w1 where o: "open_entry h AT_FDCWD dir dir [] w = (q, e1, w1)" by (cases "open_entry h AT_FDCWD dir dir [] w")
  have g: "grown [] w e1 w1" by (rule open_entry_grown [OF o])
  have *: "grown [] w everything w' \<and> (r = None \<longrightarrow> list_all (judged h) everything \<and>
      list_all (listed h everything) everything \<and> everything \<noteq> [] \<and> hdPath (hd everything) = dir)"
  proof (cases q)
    case (Inl err)
    then show ?thesis using assms o g by (auto simp: scan_def)
  next
    case (Inr folder)
    then have f: "e1 = [folder]" "judged h folder" "hdPath folder = dir" using open_entry_Inr [of h AT_FDCWD dir dir "[]" w folder e1 w1] o by auto
    show ?thesis
    proof (cases "hdDir folder")
      case True
      then have l: "scan_loop h 0 e1 w1 = Some (r, everything, w')" using assms o Inr by (simp add: scan_def)
      from scan_loop_None [OF l] f show ?thesis
        using grown_trans [OF g] scan_loop_grown [OF l] by (auto simp: list_all_length)
    qed (use assms o g Inr in \<open>auto simp: scan_def\<close>)
  qed
  then show "grown [] w everything w'"
    and "r = None \<Longrightarrow> list_all (judged h) everything \<and> list_all (listed h everything) everything \<and>
      everything \<noteq> [] \<and> hdPath (hd everything) = dir" by blast+
qed


subsection \<open>The scan ends\<close>

text \<open>
  The system refuses paths of \<^verbatim>\<open>PATH_MAX\<close> bytes, and lists names without a slash, neither empty nor
  \<^verbatim>\<open>.\<close> or \<^verbatim>\<open>..\<close>. Every entry below a folder has a longer path, so whatever the tree does meanwhile,
  the scan ends.
\<close>

definition bounded_paths :: "dir_host \<Rightarrow> nat \<Rightarrow> bool" where
  "bounded_paths h limit \<longleftrightarrow> (\<forall>t p. case dhReadDir h t p of Inl err \<Rightarrow> True
     | Inr names \<Rightarrow> length p < limit \<and> list_all name_ok names)"

definition clean_path :: "string \<Rightarrow> bool" where
  "clean_path p \<longleftrightarrow> (\<exists>cs. list_all name_ok cs \<and> p = abs_path cs)"

lemma Join_name:
  assumes "clean_path p" "name_ok c"
  shows "clean_path (filepath_Join p c) \<and> length p < length (filepath_Join p c)"
proof -
  obtain cs where cs: "list_all name_ok cs" "p = abs_path cs" using assms(1) by (auto simp: clean_path_def)
  have "filepath_Join p c = abs_path (cs @ [c])" using Join_abs_path [of cs "[c]"] cs assms(2) by simp
  moreover have "length (abs_path cs) < length (abs_path (cs @ [c]))"
    using assms(2) by (cases "cs = []") (auto simp: abs_path_def Join_append name_ok_def)
  ultimately show ?thesis using cs assms(2) by (auto simp: clean_path_def intro!: exI [of _ "cs @ [c]"])
qed

definition weight :: "nat \<Rightarrow> held list \<Rightarrow> nat multiset" where
  "weight limit es = image_mset (\<lambda>e. limit - length (hdPath e)) (mset es)"

lemma weight_smaller:
  assumes "i < length everything" and "\<forall>e \<in> set es. limit - length (hdPath e) < limit - length (hdPath (everything ! i))"
  shows "(weight limit (drop (Suc i) (everything @ es)), weight limit (drop i everything)) \<in> mult less_than"
proof -
  have "drop i everything = everything ! i # drop (Suc i) everything" using assms(1) by (simp add: Cons_nth_drop_Suc)
  then have "weight limit (drop i everything) = weight limit (drop (Suc i) everything) + {#limit - length (hdPath (everything ! i))#}"
    by (simp add: weight_def)
  moreover have "weight limit (drop (Suc i) (everything @ es)) = weight limit (drop (Suc i) everything) + weight limit es"
    using assms(1) by (simp add: weight_def)
  ultimately show ?thesis
    using assms(2) by (simp only:) (rule one_step_implies_mult; simp add: weight_def)
qed

lemma children_longer:
  assumes "open_children h e names everything w = (None, everything', w')" and "clean_path (hdPath e)" and "list_all name_ok names"
  shows "\<exists>es. everything' = everything @ es \<and> (\<forall>e' \<in> set es. clean_path (hdPath e') \<and> length (hdPath e) < length (hdPath e'))"
proof -
  from open_children_None [OF assms(1)] obtain es where es: "everything' = everything @ es"
      "map hdPath es = map (filepath_Join (hdPath e)) names" by blast
  have "clean_path (hdPath e') \<and> length (hdPath e) < length (hdPath e')" if "e' \<in> set es" for e'
  proof -
    have "hdPath e' \<in> set (map (filepath_Join (hdPath e)) names)" using that by (simp flip: es(2))
    then obtain nm where "nm \<in> set names" "hdPath e' = filepath_Join (hdPath e) nm" by auto
    then show ?thesis using Join_name [OF assms(2)] assms(3) by (auto simp: list_all_iff)
  qed
  then show ?thesis using es(1) by blast
qed

lemma scan_loop_returns:
  assumes "bounded_paths h limit" and "list_all (\<lambda>e. clean_path (hdPath e)) everything"
  shows "\<exists>y. scan_loop h i everything w = Some y"
  using assms(2)
proof (induction "weight limit (drop i everything)" arbitrary: i everything w
    rule: wf_induct_rule [OF wf_mult [OF wf_less_than], case_names less])
  case (less i everything w)
  let ?e = "everything ! i"
  show ?case
  proof (cases "i < length everything \<and> hdDir ?e")
    case True
    show ?thesis
    proof (cases "dhReadDir h (dwTick w) (hdPath ?e)")
      case (Inr names)
      moreover have "case dhReadDir h (dwTick w) (hdPath ?e) of Inl err \<Rightarrow> True
          | Inr names \<Rightarrow> length (hdPath ?e) < limit \<and> list_all name_ok names"
        using assms(1) unfolding bounded_paths_def by blast
      ultimately have n: "length (hdPath ?e) < limit" "list_all name_ok names" by simp_all
      obtain r e1 w1 where c: "open_children h ?e names everything (asked w) = (r, e1, w1)"
        by (cases "open_children h ?e names everything (asked w)")
      show ?thesis
      proof (cases r)
        case None
        have "clean_path (hdPath ?e)" using less(2) True by (simp add: list_all_length)
        from children_longer [OF c [unfolded None] this n(2)] obtain es where es: "e1 = everything @ es"
            "\<forall>e' \<in> set es. clean_path (hdPath e') \<and> length (hdPath ?e) < length (hdPath e')" by blast
        have "\<forall>e' \<in> set es. limit - length (hdPath e') < limit - length (hdPath ?e)"
          using es(2) n(1) by (auto intro: diff_less_mono2)
        then have "(weight limit (drop (Suc i) e1), weight limit (drop i everything)) \<in> mult less_than"
          unfolding es(1) using True by (intro weight_smaller) simp_all
        moreover have "list_all (\<lambda>e. clean_path (hdPath e)) e1" using less(2) es by (auto simp: list_all_iff)
        ultimately have "\<exists>y. scan_loop h (Suc i) e1 w1 = Some y" by (rule less(1))
        then show ?thesis using True Inr c None by (subst scan_loop.simps) simp
      qed (use True Inr c in \<open>subst scan_loop.simps, simp\<close>)
    qed (use True in \<open>subst scan_loop.simps, simp\<close>)
  next
    case False
    show ?thesis
    proof (cases "i < length everything")
      case True
      then have "(weight limit (drop (Suc i) everything), weight limit (drop i everything)) \<in> mult less_than"
        using weight_smaller [of i everything "[]"] by simp
      then have "\<exists>y. scan_loop h (Suc i) everything w = Some y" by (rule less(1)) (rule less(2))
      then show ?thesis using True False by (subst scan_loop.simps) simp
    qed (subst scan_loop.simps, simp)
  qed
qed

text \<open>Protecting a folder of any shape returns.\<close>

theorem protectModels_returns:
  assumes "bounded_paths h limit" and "IsAbs dir"
  shows "\<exists>err w'. protectModels h (Clean dir) w = Some (err, w')"
proof -
  have "clean_path (Clean dir)" using Clean_IsAbs [OF assms(2)] by (metis clean_path_def)
  then have "\<exists>y. scan h (Clean dir) w = Some y"
    using scan_loop_returns [OF assms(1)] open_entry_Inr [of h AT_FDCWD "Clean dir" "Clean dir" "[]" w]
    by (auto simp: scan_def split: prod.splits sum.splits)
  then show ?thesis by (auto simp: protectModels_def split: option.splits prod.splits)
qed

subsection \<open>What is accepted as private\<close>

definition private_folder :: "dir_host \<Rightarrow> FileInfo \<Rightarrow> bool" where
  "private_folder h info \<longleftrightarrow> \<not> fiSymlink info \<and> fiIsDir info \<and> fiOwner info = Some (dhGetuid h) \<and> fiPerm info = 0x1C0"

lemma checkInfo_exact: "checkInfo info (dhGetuid h) True = None \<longleftrightarrow> private_folder h info"
  by (auto simp: checkInfo_def private_folder_def split: option.splits)

lemma CheckDir_exact:
  "CheckDir h dir w = (err, w') \<Longrightarrow> w' = asked w \<and>
     (err = None \<longleftrightarrow> (\<exists>info. dhInfo h (dwTick w) dir = Inr info \<and> private_folder h info)) \<and>
     (err \<noteq> None \<longrightarrow> errors_Is err (Err ErrNotPrivate))"
  by (auto simp: CheckDir_def check_private_def simp flip: checkInfo_exact split: sum.splits prod.splits option.splits)

lemma Make_log:
  "Make h dir w = (err, w') \<Longrightarrow> dwLog w = [MkdirAll d] \<Longrightarrow>
     dwLog w' = [MkdirAll d] \<or> Mkdir dir \<in> set (dwLog w') \<and> set (dwLog w') \<subseteq> {MkdirAll d, Mkdir dir, Chmod dir, Remove dir}"
  by (auto simp: Make_def Let_def split: option.splits sum.splits if_splits)

text \<open>
  C31: a folder that \<^verbatim>\<open>Ensure\<close> hands out is private, and it changes no folder it did not make. Success
  means that the last call it made found, at the clean path, a directory and no link, owned by this
  account, with mode 0700 exactly. A folder that was there already is only looked at: a mode is set,
  or a folder removed, only at the clean path and only after this call's own \<^verbatim>\<open>Mkdir\<close> of it succeeded.
\<close>

theorem ensured_private:
  assumes "Ensure h dir w = (err, w')" and "dwLog w = []"
  shows "(err = None \<longrightarrow> (\<exists>t info. dwTick w' = Suc t \<and> dhInfo h t (Clean dir) = Inr info \<and> private_folder h info)) \<and>
    (\<forall>d. Chmod d \<in> set (dwLog w') \<or> Remove d \<in> set (dwLog w') \<longrightarrow> d = Clean dir \<and> Mkdir d \<in> set (dwLog w')) \<and>
    (\<forall>info. dhInfo h (dwTick w) (Clean dir) = Inr info \<longrightarrow> dwLog w' = [])"
proof -
  let ?d = "Clean dir"
  have quiet: ?thesis if "CheckDir h ?d w1 = (err, w')" "dwLog w1 = []" for w1
    using CheckDir_exact [OF that(1)] that(2) by auto
  show ?thesis
  proof (cases "dhInfo h (dwTick w) ?d")
    case (Inr info)
    then show ?thesis using assms quiet [of "asked w"] by (auto simp: Ensure_def Let_def split: if_splits)
  next
    case (Inl e)
    let ?w = "did (MkdirAll (Dir ?d)) (asked w)"
    obtain made w3 where m: "Make h ?d ?w = (made, w3)" by (cases "Make h ?d ?w")
    have l: "dwLog w3 = [MkdirAll (Dir ?d)] \<or> Mkdir ?d \<in> set (dwLog w3) \<and>
        set (dwLog w3) \<subseteq> {MkdirAll (Dir ?d), Mkdir ?d, Chmod ?d, Remove ?d}"
      by (rule Make_log [OF m]) (simp add: assms(2))
    have "dwLog w' = [] \<and> err \<noteq> None \<or> dwLog w' = [MkdirAll (Dir ?d)] \<and> err \<noteq> None \<or> w' = w3 \<and> err \<noteq> None \<or> CheckDir h ?d w3 = (err, w')"
      using assms Inl m by (auto simp: Ensure_def Let_def split: if_splits option.splits)
    then show ?thesis
    proof (elim disjE conjE)
      assume c: "CheckDir h ?d w3 = (err, w')"
      then have "dwLog w' = dwLog w3" using CheckDir_exact by fastforce
      then show ?thesis using CheckDir_exact [OF c] l Inl by auto
    qed (use l Inl in auto)
  qed
qed

subsection \<open>Which roots are accepted\<close>

lemma link_loop_exact:
  "list_all name_ok cs \<Longrightarrow> link_loop h (abs_path cs) w = (None, w') \<Longrightarrow> k \<le> length cs \<Longrightarrow>
     \<exists>t st. dhLstat h t (abs_path (take k cs)) = Inr st \<and> stMode st AND S_IFMT \<noteq> S_IFLNK"
proof (induction cs arbitrary: w rule: rev_induct)
  case Nil
  then show ?case by (subst (asm) link_loop.simps) (auto split: sum.splits if_splits)
next
  case (snoc c cs)
  have up: "Dir (abs_path (cs @ [c])) = abs_path cs" using Dir_abs_path snoc(2) by blast
  have "abs_path cs \<noteq> abs_path (cs @ [c])" using abs_path_inject [of cs "cs @ [c]"] snoc(2) by simp
  with snoc(3) have "link_loop h (abs_path cs) (asked w) = (None, w')"
    "\<exists>st. dhLstat h (dwTick w) (abs_path (cs @ [c])) = Inr st \<and> stMode st AND S_IFMT \<noteq> S_IFLNK"
    by (subst (asm) link_loop.simps, auto simp: up split: sum.splits if_splits)+
  then show ?case using snoc(1) [of "asked w"] snoc(2,4) by (cases "k \<le> length cs") (auto simp: le_Suc_eq)
qed

text \<open>
  A models root is a folder OA may widen: not the root of the volume, not the home, a known folder
  or a folder that holds the home, with no link at it or above it, and resolving to itself.
\<close>

definition sound_root :: "dir_host \<Rightarrow> string list \<Rightarrow> bool" where
  "sound_root h cs \<longleftrightarrow> cs \<noteq> [] \<and> list_all name_ok cs \<and> dhLocal h (abs_path cs) = None \<and>
     (\<forall>k \<le> length cs. \<exists>t st. dhLstat h t (abs_path (take k cs)) = Inr st \<and> stMode st AND S_IFMT \<noteq> S_IFLNK) \<and>
     fhEvalSymlinks (dhFiles h) (abs_path cs) = Inr (abs_path cs) \<and>
     (\<forall>home. dhHome h = Inr home \<longrightarrow> home \<noteq> [] \<longrightarrow> abs_path cs \<notin> set (known_folders (Clean home)) \<and>
        underRoot h (Clean home) (abs_path cs) = (False, None))"

lemma Clean_not_empty: "Clean p \<noteq> []"
  by (simp add: Clean_def Let_def)

lemma checkRoot_sound:
  assumes "checkRoot h (abs_path cs) w = (None, w')" and "list_all name_ok cs" and "dhLocal h (abs_path cs) = None"
    and "cs \<noteq> []"
  shows "sound_root h cs"
proof -
  obtain r w1 where l: "link_loop h (abs_path cs) w = (r, w1)" by (cases "link_loop h (abs_path cs) w")
  have home: "abs_path cs \<notin> set (known_folders (Clean home)) \<and> underRoot h (Clean home) (abs_path cs) = (False, None)"
    if "dhHome h = Inr home" "home \<noteq> []" for home
    using assms(1) that Clean_not_empty [of home]
    by (cases "underRoot h (Clean home) (abs_path cs)") (auto simp: checkRoot_def Let_def holds_one_def split: if_splits)
  have "r = None \<and> fhEvalSymlinks (dhFiles h) (abs_path cs) = Inr (abs_path cs)"
    using assms(1) l by (cases r; cases "dhHome h") (auto simp: checkRoot_def Let_def split: sum.splits if_splits)
  then show ?thesis using link_loop_exact [OF assms(2), of h w w1] l assms(2-4) home by (auto simp: sound_root_def)
qed

lemma CheckModelsRoot_sound:
  assumes "CheckModelsRoot h root w = (None, w')"
  shows "\<exists>cs. Clean root = abs_path cs \<and> sound_root h cs"
proof -
  have a: "IsAbs root" using assms by (auto simp: CheckModelsRoot_def Let_def split: if_splits)
  then obtain cs where cs: "list_all name_ok cs" "Clean root = abs_path cs" by (rule Clean_IsAbs)
  obtain q w1 where q: "checkRoot h (abs_path cs) (asked w) = (q, w1)" by (cases "checkRoot h (abs_path cs) (asked w)")
  have "cs \<noteq> []" "dhLocal h (abs_path cs) = None" using assms cs(2) a by (auto simp: CheckModelsRoot_def Let_def split: if_splits)
  moreover have "q = None" using assms cs(2) a q by (cases q) (auto simp: CheckModelsRoot_def Let_def split: if_splits sum.splits)
  ultimately show ?thesis using checkRoot_sound cs q by blast
qed

definition sound_path :: "dir_host \<Rightarrow> string \<Rightarrow> bool" where
  "sound_path h r \<longleftrightarrow> (\<exists>cs. r = abs_path cs \<and> sound_root h cs)"

lemma root_loop_sound:
  "root_loop h accepted roots w = (Inr accepted', w') \<Longrightarrow> list_all (sound_path h) accepted \<Longrightarrow>
   list_all (sound_path h) accepted' \<and> set accepted' \<subseteq> set accepted \<union> Clean ` set roots"
proof (induction roots arbitrary: accepted w)
  case (Cons r0 rs)
  let ?r = "Clean r0"
  let ?gone = "case dhInfo h (dwTick w) ?r of Inl err \<Rightarrow> errors_is err (Err ErrNotExist) | Inr info \<Rightarrow> False"
  obtain q w1 where c: "CheckModelsRoot h ?r (asked w) = (q, w1)" by (cases "CheckModelsRoot h ?r (asked w)")
  have a: "IsAbs r0" using Cons(2) by (cases "IsAbs r0") simp_all
  have l: "dhLocal h ?r = None" using Cons(2) a by (cases "dhLocal h ?r = None") (simp_all add: Let_def)
  show ?case
  proof (cases ?gone)
    case True
    then have "root_loop h accepted rs (asked w) = (Inr accepted', w')" using Cons(2) a l by (simp add: Let_def)
    from Cons(1) [OF this Cons(3)] show ?thesis by auto
  next
    case False
    then have q: "q = None" using Cons(2) a l c by (cases q) (simp_all add: Let_def)
    then have r: "root_loop h (accepted @ [?r]) rs w1 = (Inr accepted', w')" using Cons(2) a l c False by (simp add: Let_def)
    have "sound_path h ?r" using CheckModelsRoot_sound [OF c [unfolded q]] a by (simp add: Clean_idem_abs sound_path_def)
    with Cons(1) [OF r] Cons(3) show ?thesis by auto
  qed
qed simp

text \<open>
  C30: a folder that \<^verbatim>\<open>ProtectModelFolder\<close> reports protected lies in a root fit for it. It is one of
  the given roots or lies below one by file identity, and that root is not a volume root, the home, a
  known folder or a folder holding the home, is local, has no link at it or above it and resolves
  to itself. The last look at the folder found a directory of this account, no link, that neither
  group nor others may write.
\<close>

theorem protected_model_folder:
  assumes "ProtectModelFolder h dir roots w = Some (None, w')"
  shows "(\<exists>r \<in> set roots. \<exists>cs. Clean r = abs_path cs \<and> sound_root h cs \<and> underRoot h (Clean dir) (abs_path cs) = (True, None)) \<and>
    (\<exists>t st. dwTick w' = Suc t \<and> dhLstat h t (Clean dir) = Inr st \<and> stMode st AND S_IFMT = S_IFDIR \<and>
       stUid st = dhGetuid h \<and> stMode st AND 0x12 = 0)"
proof -
  let ?d = "Clean dir"
  obtain q w1 where r: "root_loop h [] roots w = (q, w1)" by (cases "root_loop h [] roots w")
  have d: "IsAbs dir" using assms by (cases "IsAbs dir") (simp_all add: ProtectModelFolder_def)
  obtain accepted where q: "q = Inr accepted" using assms d r by (cases q) (simp_all add: ProtectModelFolder_def)
  have u: "under h ?d accepted" using assms d r q by (cases "under h ?d accepted") (simp_all add: ProtectModelFolder_def)
  have m: "(case protectModels h ?d w1 of None \<Rightarrow> None
      | Some (Some err, w2) \<Rightarrow> Some (Some (Errorf [Err ErrNotModelFolder]), w2)
      | Some (None, w2) \<Rightarrow> Some (CheckModelFolder h ?d w2)) = Some (None, w')"
    using assms d r q u by (simp add: ProtectModelFolder_def Let_def)
  obtain w2 where p: "CheckModelFolder h ?d w2 = (None, w')"
    using m by (cases "protectModels h ?d w1") (auto split: option.splits prod.splits)
  have "\<exists>a \<in> set accepted. case underRoot h ?d a of (ok, err) \<Rightarrow> err = None \<and> ok"
    using u by (simp only: under_def list_ex_iff)
  then obtain a where a: "a \<in> set accepted" "case underRoot h ?d a of (ok, err) \<Rightarrow> err = None \<and> ok" by (rule bexE)
  then have o: "underRoot h ?d a = (True, None)" by (cases "underRoot h ?d a") simp
  have "list_all (sound_path h) accepted \<and> set accepted \<subseteq> set [] \<union> Clean ` set roots"
    by (rule root_loop_sound [OF r [unfolded q]]) simp
  then have "sound_path h a" "a \<in> Clean ` set roots" using a(1) by (auto simp: list_all_iff)
  then obtain r0 cs where "r0 \<in> set roots" "a = Clean r0" "a = abs_path cs" "sound_root h cs"
    unfolding sound_path_def by blast
  then have root: "\<exists>r \<in> set roots. \<exists>cs. Clean r = abs_path cs \<and> sound_root h cs \<and> underRoot h ?d (abs_path cs) = (True, None)"
    using o by metis
  have "checkModels h ?d w2 = (None, w')"
    using p IsAbs_Clean [OF d] Clean_idem_abs [OF d]
    by (cases "checkModels h ?d w2") (simp add: CheckModelFolder_def split: option.splits)
  then have "\<exists>t st. dwTick w' = Suc t \<and> dhLstat h t ?d = Inr st \<and> stMode st AND S_IFMT = S_IFDIR \<and>
       stUid st = dhGetuid h \<and> stMode st AND 0x12 = 0"
    by (auto simp: checkModels_def Let_def split: sum.splits if_splits)
  with root show ?thesis by blast
qed

subsection \<open>A folder to run the model on\<close>

text \<open>The folder /m/d of account 1000, with one file \<^verbatim>\<open>f\<close>, both open to everyone; /m is its root.\<close>

definition demo_stat :: "string \<Rightarrow> Stat_t" where
  "demo_stat name =
     (if name = ''f'' then \<lparr>stMode = 0x81B6, stUid = 1000, stNlink = 1, stDev = 1, stIno = 2\<rparr>
      else \<lparr>stMode = 0x41FF, stUid = 1000, stNlink = 2, stDev = 1, stIno = 1\<rparr>)"

definition demo_dir :: "string list \<Rightarrow> dir_host" where
  "demo_dir names =
     \<lparr>dhGetuid = 1000, dhInfo = (\<lambda>t p. Inr \<lparr>fiSymlink = False, fiIsDir = True, fiPerm = 0x1C0, fiOwner = Some 1000\<rparr>),
      dhMkdirAll = (\<lambda>t p. None), dhMkdir = (\<lambda>t p. None), dhChmod = (\<lambda>t p. None),
      dhLstat = (\<lambda>t p. Inr \<lparr>stMode = 0x41ED, stUid = 1000, stNlink = 2, stDev = 1, stIno = 1\<rparr>),
      dhFstatat = (\<lambda>t fd name. Inr (demo_stat name)),
      dhOpenat = (\<lambda>t fd name folder. Inr (if name = ''f'' then 4 else 3)),
      dhFstat = (\<lambda>t fd. Inr (demo_stat (if fd = 4 then ''f'' else ''d''))),
      dhReadDir = (\<lambda>t p. if p = ''/m/d'' then Inr names else Inl (Errno 20)),
      dhFchmod = (\<lambda>t fd mode. None), dhHome = Inl (New ''no home''),
      dhFiles = \<lparr>fhGetwd = Inr ''/'', fhStat = (\<lambda>p. if p = ''/m'' then Inr (Some (1, 7)) else Inr (Some (1, 1))), fhLstat = (\<lambda>p. None),
        fhEvalSymlinks = (\<lambda>p. Inr p)\<rparr>,
      dhLocal = (\<lambda>p. None)\<rparr>"

lemma demo_dir_sels [simp]:
  "dhGetuid (demo_dir ns) = 1000" "dhFstatat (demo_dir ns) t fd name = Inr (demo_stat name)"
  "dhOpenat (demo_dir ns) t fd name folder = Inr (if name = ''f'' then 4 else 3)"
  "dhFstat (demo_dir ns) t fd = Inr (demo_stat (if fd = 4 then ''f'' else ''d''))"
  "dhReadDir (demo_dir ns) t p = (if p = ''/m/d'' then Inr ns else Inl (Errno 20))"
  "dhFchmod (demo_dir ns) t fd mode = None" "dhLocal (demo_dir ns) p = None" "dhHome (demo_dir ns) = Inl (New ''no home'')"
  "dhInfo (demo_dir ns) t p = Inr \<lparr>fiSymlink = False, fiIsDir = True, fiPerm = 0x1C0, fiOwner = Some 1000\<rparr>"
  "dhLstat (demo_dir ns) t p = Inr \<lparr>stMode = 0x41ED, stUid = 1000, stNlink = 2, stDev = 1, stIno = 1\<rparr>"
  by (simp_all add: demo_dir_def)

lemma demo_paths:
  "abs_path [''m'', ''d''] = ''/m/d''" "abs_path [''m''] = ''/m''" "abs_path [''m'', ''d'', ''f''] = ''/m/d/f''"
  by (simp_all add: abs_path_def)

lemma demo_paths_clean:
  "filepath_Join ''/m/d'' ''f'' = ''/m/d/f''" "Clean ''/m/d'' = ''/m/d''" "Clean ''/m'' = ''/m''"
  "IsAbs ''/m/d''" "IsAbs ''/m''" "Dir ''/m'' = ''/''" "Dir ''/m/d'' = ''/m''"
  using Join_abs_path [of "[''m'', ''d'']" "[''f'']"] Clean_abs_path [of "[''m'', ''d'']"] Clean_abs_path [of "[''m'']"]
    Dir_abs_path [of "[]" "''m''"] Dir_abs_path [of "[''m'']" "''d''"]
  by (simp_all add: demo_paths name_ok_def IsAbs_iff abs_path_def [of "[]"])

lemmas demo_scan_defs = open_entry_def judge_def demo_stat_def S_IFMT_def S_IFLNK_def S_IFDIR_def S_IFREG_def
  asked_def did_def Let_def

lemma demo_protect:
  "protectModels (demo_dir [''f'']) ''/m/d'' \<lparr>dwTick = t, dwLog = []\<rparr> =
     Some (None, \<lparr>dwTick = t + 11, dwLog = [Opened 3 ''/m/d'', Opened 4 ''/m/d/f'', Fchmod 3 0x1ED, Fchmod 4 0x1A4, Shut 3, Shut 4]\<rparr>)"
proof -
  have n: "t + 3 = Suc (Suc (Suc t))" "t + 4 = Suc (Suc (Suc (Suc t)))" "t + 7 = Suc (Suc (Suc (Suc (Suc (Suc (Suc t))))))"
    by simp_all
  let ?h = "demo_dir [''f'']"
  let ?d = "\<lparr>hdPath = ''/m/d'', hdFd = 3, hdDir = True, hdMode = 0x1FF\<rparr>"
  let ?f = "\<lparr>hdPath = ''/m/d/f'', hdFd = 4, hdDir = False, hdMode = 0x1B6\<rparr>"
  let ?w = "\<lparr>dwTick = t + 7, dwLog = [Opened 3 ''/m/d'', Opened 4 ''/m/d/f'']\<rparr>"
  have top: "open_entry ?h AT_FDCWD ''/m/d'' ''/m/d'' [] \<lparr>dwTick = t, dwLog = []\<rparr> = (Inr ?d, [?d], \<lparr>dwTick = t + 3, dwLog = [Opened 3 ''/m/d'']\<rparr>)"
    by (simp add: demo_scan_defs n)
  have "open_children ?h ?d [''f''] [?d] \<lparr>dwTick = t + 4, dwLog = [Opened 3 ''/m/d'']\<rparr> = (None, [?d, ?f], ?w)"
    by (simp add: demo_scan_defs demo_paths_clean n)
  moreover have "scan_loop ?h 1 [?d, ?f] ?w = Some (None, [?d, ?f], ?w)"
    by (subst scan_loop.simps, simp, subst scan_loop.simps, simp)
  ultimately have "scan_loop ?h 0 [?d] \<lparr>dwTick = t + 3, dwLog = [Opened 3 ''/m/d'']\<rparr> = Some (None, [?d, ?f], ?w)"
    by (subst scan_loop.simps) (simp add: asked_def n)
  then show ?thesis by (simp add: protectModels_def scan_def top did_def)
qed


theorem ensured_private_witness:
  "\<exists>w'. Ensure (demo_dir []) ''/m/d'' \<lparr>dwTick = 0, dwLog = []\<rparr> = (None, w') \<and> dwLog w' = []"
proof -
  have e: "Ensure (demo_dir []) ''/m/d'' \<lparr>dwTick = 0, dwLog = []\<rparr> = (None, \<lparr>dwTick = 2, dwLog = []\<rparr>)"
    by (simp add: Ensure_def CheckDir_def check_private_def checkInfo_def demo_paths_clean asked_def)
  have "dwLog \<lparr>dwTick = 0, dwLog = []\<rparr> = []" "\<exists>info. dhInfo (demo_dir []) (dwTick \<lparr>dwTick = 0, dwLog = []\<rparr>) (Clean ''/m/d'') = Inr info"
    by simp_all
  with ensured_private [OF e] show ?thesis using e by blast
qed

lemma demo_root: "CheckModelsRoot (demo_dir ns) ''/m/d'' w = (None, (asked ^^ 5) w)"
proof -
  have "link_loop (demo_dir ns) ''/'' w' = (None, asked w')" for w'
    by (subst link_loop.simps) (simp add: S_IFMT_def S_IFLNK_def Dir_root [unfolded abs_path_def, simplified])
  then have "link_loop (demo_dir ns) ''/m'' w' = (None, asked (asked w'))" for w'
    by (subst link_loop.simps) (simp add: S_IFMT_def S_IFLNK_def demo_paths_clean)
  then have "link_loop (demo_dir ns) ''/m/d'' w' = (None, asked (asked (asked w')))" for w'
    by (subst link_loop.simps) (simp add: S_IFMT_def S_IFLNK_def demo_paths_clean)
  moreover have "fhEvalSymlinks (dhFiles (demo_dir ns)) p = Inr p" for p by (simp add: demo_dir_def)
  ultimately show ?thesis by (simp add: CheckModelsRoot_def demo_paths_clean checkRoot_def eval_nat_numeral)
qed

lemma demo_under: "underRoot (demo_dir ns) ''/m/d'' ''/m/d'' = (True, None)"
  by (simp add: underRoot_def SameFile_def fileKey_def demo_dir_def)

theorem protected_model_folder_witness:
  "\<exists>w'. ProtectModelFolder (demo_dir [''f'']) ''/m/d'' [''/m/d''] \<lparr>dwTick = 0, dwLog = []\<rparr> = Some (None, w') \<and>
     sound_root (demo_dir [''f'']) [''m'', ''d'']"
proof -
  let ?h = "demo_dir [''f'']"
  let ?w = "\<lparr>dwTick = 0, dwLog = []\<rparr>"
  have t: "(asked ^^ 5) (asked ?w) = \<lparr>dwTick = 6, dwLog = []\<rparr>" by (simp add: eval_nat_numeral asked_def)
  have r: "root_loop ?h [] [''/m/d''] ?w = (Inr [''/m/d''], \<lparr>dwTick = 6, dwLog = []\<rparr>)"
    by (simp add: demo_paths_clean demo_root t)
  have c: "CheckModelFolder ?h ''/m/d'' w = (None, asked w)" for w
    by (simp add: CheckModelFolder_def checkModels_def demo_paths_clean S_IFMT_def S_IFLNK_def S_IFDIR_def)
  obtain w' where p: "ProtectModelFolder ?h ''/m/d'' [''/m/d''] ?w = Some (None, w')"
    using demo_protect [of 6] by (simp add: ProtectModelFolder_def Let_def demo_paths_clean r under_def demo_under c del: root_loop.simps)
  from protected_model_folder [OF p] obtain cs where "abs_path cs = ''/m/d''" "sound_root ?h cs"
    by (auto simp: demo_paths_clean)
  moreover from this have "cs = [''m'', ''d'']"
    using abs_path_inject [of cs "[''m'', ''d'']"] by (simp add: sound_root_def demo_paths name_ok_def)
  ultimately show ?thesis using p by blast
qed

text \<open>
  A folder is listed by its path while its entries are judged and opened through the held descriptor.
  When the path comes to name another folder in between, entries of the held one are missed: the
  protection succeeds, writes the held folder's mode only, and a file in it stays open to everyone.
\<close>

theorem listing_misses_held_entries:
  "\<exists>w'. protectModels (demo_dir []) ''/m/d'' \<lparr>dwTick = 0, dwLog = []\<rparr> = Some (None, w') \<and>
     chmods (dwLog w') = [(3, 0x1ED)] \<and>
     (\<forall>t. dhFstatat (demo_dir []) t 3 ''f'' = Inr (demo_stat ''f'')) \<and> stMode (demo_stat ''f'') AND 0x12 \<noteq> 0"
proof -
  let ?d = "\<lparr>hdPath = ''/m/d'', hdFd = 3, hdDir = True, hdMode = 0x1FF\<rparr>"
  have top: "open_entry (demo_dir []) AT_FDCWD ''/m/d'' ''/m/d'' [] \<lparr>dwTick = 0, dwLog = []\<rparr> = (Inr ?d, [?d], \<lparr>dwTick = 3, dwLog = [Opened 3 ''/m/d'']\<rparr>)"
    by (simp add: demo_scan_defs)
  have "scan_loop (demo_dir []) 0 [?d] \<lparr>dwTick = 3, dwLog = [Opened 3 ''/m/d'']\<rparr> = Some (None, [?d], \<lparr>dwTick = 4, dwLog = [Opened 3 ''/m/d'']\<rparr>)"
    by (subst scan_loop.simps, simp add: asked_def, subst scan_loop.simps, simp)
  then show ?thesis by (simp add: protectModels_def scan_def top did_def demo_stat_def)
qed

end
