(* ===== verification/Impersonation.thy ===== *)
theory Impersonation
  imports Peers Net_Addr
begin

section \<open>Reading a pipe client's token (impersonate\_windows.go, integrity\_windows.go, account\_windows.go)\<close>

text \<open>
  The user of a named pipe's client comes from its access token, which a thread of the service
  can read only while it wears it. The thread is a state: whether it is locked to its goroutine,
  whether it wears the client's token, and the token handles open on it. Impersonating, opening
  the token and reverting are what the system answers; the function that reads the token may
  panic, which is \<open>None\<close>.
\<close>

definition errAnonymousClient :: go_error where
  "errAnonymousClient = New (''the client opened the pipe with SECURITY_ANONYMOUS, so the kernel gave the server '' @
     ''a token that identifies nobody'')"

definition ERROR_CANNOT_IMPERSONATE :: go_error where "ERROR_CANNOT_IMPERSONATE = Errno 1368"

record imp_env =
  ieImpersonate :: error
  ieThread :: "go_error + int"
  ieOpenToken :: "int \<Rightarrow> go_error + int"
  ieRevert :: error

record peer_thread =
  ptLocked :: bool
  ptClient :: bool
  ptTokens :: "int list"

definition locked_thread :: peer_thread where
  "locked_thread = \<lparr>ptLocked = True, ptClient = False, ptTokens = []\<rparr>"

text \<open>The inner function, on a thread that is the client: open the token, read it, close it; a panic is recovered.\<close>

definition as_client :: "imp_env \<Rightarrow> (int \<Rightarrow> (go_error + 'a) option) \<Rightarrow> peer_thread \<Rightarrow> (go_error + 'a) \<times> peer_thread" where
  "as_client env fn th =
     (case ieThread env of
        Inl err \<Rightarrow> (Inl (Errorf [err]), th)
      | Inr thread \<Rightarrow>
          (case ieOpenToken env thread of
             Inl err \<Rightarrow> (Inl (Errorf [err]), th)
           | Inr tok \<Rightarrow>
               (let th = th\<lparr>ptTokens := tok # ptTokens th\<rparr>;
                    r = (case fn tok of None \<Rightarrow> Inl (New ''identity: panic while impersonating'') | Some r \<Rightarrow> r)
                in (r, th\<lparr>ptTokens := remove1 tok (ptTokens th)\<rparr>))))"

definition withPeerToken :: "imp_env \<Rightarrow> (int \<Rightarrow> (go_error + 'a) option) \<Rightarrow> (go_error + 'a) \<times> peer_thread" where
  "withPeerToken env fn =
     (let th = locked_thread; unlock = (\<lambda>th. th\<lparr>ptLocked := False\<rparr>) in
      case ieImpersonate env of
        Some err \<Rightarrow> (Inl (if err = ERROR_CANNOT_IMPERSONATE then Err ErrMustReadFirst else Errorf [err]), unlock th)
      | None \<Rightarrow>
          (case as_client env fn (th\<lparr>ptClient := True\<rparr>) of
             (r, th) \<Rightarrow>
               (case ieRevert env of
                  Some rerr \<Rightarrow> (Inl (Errorf [Err ErrImpersonationStuck]), th)
                | None \<Rightarrow> (r, unlock (th\<lparr>ptClient := False\<rparr>)))))"

subsection \<open>The mandatory label\<close>

definition sidRevision :: byte where "sidRevision = 1"
definition sidSubAuthorityAt :: nat where "sidSubAuthorityAt = 8"
definition sidSubAuthoritySize :: nat where "sidSubAuthoritySize = 4"

definition lastSubAuthorityOf :: "bytes \<Rightarrow> 32 word option" where
  "lastSubAuthorityOf sid =
     (if length sid < sidSubAuthorityAt \<or> sid ! 0 \<noteq> sidRevision then None
      else (let n = unat (sid ! 1) in
            if n = 0 \<or> length sid < sidSubAuthorityAt + n * sidSubAuthoritySize then None
            else Some (uint32_le (drop (sidSubAuthorityAt + (n - 1) * sidSubAuthoritySize) sid))))"

text \<open>Where the label's SID lies: nowhere, or so many bytes after the buffer's start.\<close>

definition lastSubAuthority :: "bytes \<Rightarrow> nat option \<Rightarrow> 32 word option" where
  "lastSubAuthority buf sid =
     (case sid of None \<Rightarrow> None | Some at \<Rightarrow> if at \<ge> length buf then None else lastSubAuthorityOf (drop at buf))"

definition RID :: "nat \<Rightarrow> go_error + bytes \<times> nat option \<Rightarrow> 32 word option" where
  "RID n info =
     (if n = 0 then None
      else (case info of Inl err \<Rightarrow> None | Inr (buf, sid) \<Rightarrow> lastSubAuthority buf sid))"

definition integrityName :: "32 word \<Rightarrow> string" where
  "integrityName rid =
     (if rid \<ge> 0x4000 then ''system'' else if rid \<ge> 0x3000 then ''high'' else if rid \<ge> 0x2000 then ''medium''
      else if rid \<ge> 0x1000 then ''low'' else ''untrusted'')"

definition joinWhy :: "string \<Rightarrow> string \<Rightarrow> string" where
  "joinWhy a b = (if a = [] then b else if b = [] then a else a @ ''; '' @ b)"

record tokenLabel =
  tlIntegrity :: string
  tlRid :: "32 word"
  tlKnown :: bool
  tlRestricted :: bool
  tlWhy :: string

text \<open>What the system answers about a token.\<close>

record token_info =
  tkLevel :: "go_error + nat"
  tkUser :: "go_error + string"
  tkCopy :: error
  tkElevated :: bool
  tkLabelSize :: nat
  tkLabel :: "go_error + bytes \<times> nat option"
  tkRestricted :: "go_error + bool"

definition readTokenLabel :: "(go_error \<Rightarrow> string) \<Rightarrow> token_info \<Rightarrow> tokenLabel" where
  "readTokenLabel txt tok =
     (let label = \<lparr>tlIntegrity = ''unknown'', tlRid = 0, tlKnown = False, tlRestricted = False, tlWhy = []\<rparr>;
          label = (case RID (tkLabelSize tok) (tkLabel tok) of
                     Some rid \<Rightarrow> label\<lparr>tlIntegrity := integrityName rid, tlRid := rid, tlKnown := True\<rparr>
                   | None \<Rightarrow> label\<lparr>tlWhy := ''the token's integrity label could not be read''\<rparr>)
      in case tkRestricted tok of
           Inl err \<Rightarrow> label\<lparr>tlRestricted := True,
             tlWhy := joinWhy (tlWhy label) (''the token's restricted flag could not be read ('' @ txt err @ ''), so it is reported restricted'')\<rparr>
         | Inr restricted \<Rightarrow> label\<lparr>tlRestricted := restricted\<rparr>)"

subsection \<open>The user\<close>

definition SecurityAnonymous :: nat where "SecurityAnonymous = 0"
definition SecurityIdentification :: nat where "SecurityIdentification = 1"

text \<open>The function handed to \<^verbatim>\<open>withPeerToken\<close>: the level, the copied SID, the elevation and the label.\<close>

definition token_facts :: "(go_error \<Rightarrow> string) \<Rightarrow> token_info \<Rightarrow> go_error + nat \<times> string \<times> bool \<times> tokenLabel" where
  "token_facts txt tok =
     (case tkLevel tok of
        Inl err \<Rightarrow> Inl (Errorf [err])
      | Inr level \<Rightarrow>
          if level = SecurityAnonymous then Inl errAnonymousClient
          else (case tkUser tok of
                  Inl err \<Rightarrow> Inl (Errorf [err])
                | Inr sid \<Rightarrow>
                    (case tkCopy tok of
                       Some err \<Rightarrow> Inl (Errorf [err])
                     | None \<Rightarrow> Inr (level, sid, tkElevated tok, readTokenLabel txt tok))))"

definition windows_user :: "string \<Rightarrow> bool \<Rightarrow> tokenLabel \<Rightarrow> User" where
  "windows_user sid elevated label =
     zero_User\<lparr>uKind := ''windows'', uSID := sid, uElevated := elevated, uIntegrity := tlIntegrity label,
       uIntegrityRID := tlRid label, uRestricted := tlRestricted label, uUID := -1, uGID := -1\<rparr>"

text \<open>\<open>account\<close> is what \<^verbatim>\<open>accountName\<close> answers for a SID.\<close>

definition peerUser ::
  "imp_env \<Rightarrow> (int \<Rightarrow> token_info option) \<Rightarrow> (string \<Rightarrow> go_error + string \<times> string) \<Rightarrow> (go_error \<Rightarrow> string) \<Rightarrow>
   (go_error + User \<times> string) \<times> peer_thread" where
  "peerUser env token account txt =
     (case withPeerToken env (\<lambda>tok. map_option (token_facts txt) (token tok)) of
        (Inl err, th) \<Rightarrow> (Inl err, th)
      | (Inr (level, sid, elevated, label), th) \<Rightarrow>
          (let user = windows_user sid elevated label;
               (user, why) = (case account sid of
                  Inr (nm, domain) \<Rightarrow> (user\<lparr>uName := nm, uDomain := domain\<rparr>, tlWhy label)
                | Inl err \<Rightarrow> (user, joinWhy (tlWhy label)
                    (''the SID has no resolvable account name ('' @ txt err @ ''); the SID itself is unaffected'')));
               why = (if level = SecurityIdentification
                      then joinWhy why ''the client granted SECURITY_IDENTIFICATION, which is the level this identity is read at''
                      else why)
           in (Inr (user, why), th)))"

subsection \<open>Remembered account names\<close>

definition accountNameLifetime :: Duration where "accountNameLifetime = Minute"
definition accountNameLimit :: nat where "accountNameLimit = 64"

type_synonym account_names = "(string \<times> string \<times> string \<times> Time) list"

text \<open>
  The map of names keyed by the SID's text, as a list with one entry for each key; \<open>lookup\<close> is
  what the system answers now. Each of the two locked regions reads or writes the map once.
\<close>

definition refresh_name ::
  "(string \<Rightarrow> go_error + string \<times> string) \<Rightarrow> Time \<Rightarrow> string \<Rightarrow> account_names \<Rightarrow> (go_error + string \<times> string) \<times> account_names" where
  "refresh_name lookup now sid names =
     (case lookup sid of
        Inl err \<Rightarrow> (Inl err, names)
      | Inr (nm, domain) \<Rightarrow>
          (let kept = (if length names \<ge> accountNameLimit then [] else filter (\<lambda>e. fst e \<noteq> sid) names)
           in (Inr (nm, domain), (sid, nm, domain, now) # kept)))"

definition accountName ::
  "(string \<Rightarrow> go_error + string \<times> string) \<Rightarrow> Time \<Rightarrow> string \<Rightarrow> account_names \<Rightarrow> (go_error + string \<times> string) \<times> account_names" where
  "accountName lookup now sid names =
     (case map_of names sid of
        Some (nm, domain, at) \<Rightarrow>
          if now - at < accountNameLifetime \<and> \<not> now < at then (Inr (nm, domain), names)
          else refresh_name lookup now sid names
      | None \<Rightarrow> refresh_name lookup now sid names)"

subsection \<open>A thread never goes back wearing the token\<close>

lemma as_client_thread:
  "as_client env fn th = (r, th') \<Longrightarrow> th' = th"
  by (auto simp: as_client_def Let_def split: sum.splits)

lemma as_client_Inr:
  "as_client env fn th = (Inr x, th') \<Longrightarrow> \<exists>thread tok. ieThread env = Inr thread \<and> ieOpenToken env thread = Inr tok \<and> fn tok = Some (Inr x)"
  by (auto simp: as_client_def Let_def split: sum.splits option.splits)

lemma withPeerToken_Inr:
  "withPeerToken env fn = (Inr x, th) \<Longrightarrow> ieImpersonate env = None \<and> ieRevert env = None \<and>
     (\<exists>thread tok. ieThread env = Inr thread \<and> ieOpenToken env thread = Inr tok \<and> fn tok = Some (Inr x))"
  by (auto simp: withPeerToken_def Let_def split: option.splits prod.splits dest!: as_client_Inr)

text \<open>
  C26: no thread ever returns to the runtime's pool wearing a client's token, and no token handle
  is left open, on any path out of the impersonation: a refused impersonation, a token that
  cannot be opened, an error or a panic of the function that reads it. If the token cannot be
  dropped the thread stays locked to its goroutine, which is how the runtime comes to destroy it,
  and the caller gets \<^verbatim>\<open>ErrImpersonationStuck\<close> and never what was read; what a caller does get was
  read from the client's token, and the token was dropped.
\<close>

theorem token_never_leaks:
  "case withPeerToken env fn of (r, th) \<Rightarrow>
     ptTokens th = [] \<and> (ptClient th \<longrightarrow> ptLocked th \<and> r = Inl (Errorf [Err ErrImpersonationStuck])) \<and>
     (ieImpersonate env = None \<and> ieRevert env \<noteq> None \<longrightarrow> ptClient th) \<and>
     (\<forall>x. r = Inr x \<longrightarrow> ieImpersonate env = None \<and> ieRevert env = None \<and>
        (\<exists>thread tok. ieThread env = Inr thread \<and> ieOpenToken env thread = Inr tok \<and> fn tok = Some (Inr x)))"
proof -
  obtain r th where w: "withPeerToken env fn = (r, th)" by fastforce
  obtain r' th' where c: "as_client env fn (locked_thread\<lparr>ptClient := True\<rparr>) = (r', th')" by fastforce
  have th': "th' = locked_thread\<lparr>ptClient := True\<rparr>" by (rule as_client_thread [OF c])
  have "ptTokens th = [] \<and> (ptClient th \<longrightarrow> ptLocked th \<and> r = Inl (Errorf [Err ErrImpersonationStuck])) \<and>
      (ieImpersonate env = None \<and> ieRevert env \<noteq> None \<longrightarrow> ptClient th)"
    using w c th' by (cases "ieImpersonate env"; cases "ieRevert env") (auto simp: withPeerToken_def locked_thread_def)
  moreover have "ieImpersonate env = None \<and> ieRevert env = None \<and>
      (\<exists>thread tok. ieThread env = Inr thread \<and> ieOpenToken env thread = Inr tok \<and> fn tok = Some (Inr x))" if "r = Inr x" for x
    by (rule withPeerToken_Inr [OF w [unfolded that]])
  ultimately show ?thesis unfolding w prod.case by blast
qed

definition stuck_env :: imp_env where
  "stuck_env = \<lparr>ieImpersonate = None, ieThread = Inr 1, ieOpenToken = (\<lambda>t. Inr 8), ieRevert = Some (Errno 5)\<rparr>"

theorem token_never_leaks_witness:
  "ptClient (snd (withPeerToken stuck_env (\<lambda>tok. Some (Inr tok)))) \<and> ptLocked (snd (withPeerToken stuck_env (\<lambda>tok. Some (Inr tok)))) \<and>
   fst (withPeerToken stuck_env (\<lambda>tok. Some (Inr tok))) = Inl (Errorf [Err ErrImpersonationStuck]) \<and>
   fst (withPeerToken (stuck_env\<lparr>ieRevert := None\<rparr>) (\<lambda>tok. Some (Inr tok))) = Inr 8"
  using token_never_leaks [of stuck_env "\<lambda>tok. Some (Inr tok)"]
  by (auto simp: stuck_env_def withPeerToken_def as_client_def locked_thread_def split: prod.splits)

text \<open>A user that is read is the client's: its SID comes from the token the client's thread gave.\<close>

lemma peerUser_read:
  assumes "peerUser env token account txt = (Inr (user, why), th)"
  obtains tok info level where "token tok = Some info" "tkLevel info = Inr level" "level \<noteq> SecurityAnonymous" "tkUser info = Inr (uSID user)"
    "uRestricted user = tlRestricted (readTokenLabel txt info)" "uIntegrityRID user = tlRid (readTokenLabel txt info)"
proof -
  obtain r th' where w: "withPeerToken env (\<lambda>tok. map_option (token_facts txt) (token tok)) = (r, th')" by fastforce
  then obtain level sid elevated label where r: "r = Inr (level, sid, elevated, label)" and th': "th' = th"
    using assms by (cases r) (auto simp: peerUser_def Let_def split: prod.splits)
  obtain tok info where "token tok = Some info" "token_facts txt info = Inr (level, sid, elevated, label)"
    using withPeerToken_Inr [OF w [unfolded r]] by auto
  moreover have "uSID user = sid" "uRestricted user = tlRestricted label" "uIntegrityRID user = tlRid label"
    using assms w r by (auto simp: peerUser_def Let_def windows_user_def split: prod.splits sum.splits)
  ultimately show ?thesis
    using that by (auto simp: token_facts_def split: sum.splits option.splits if_splits)
qed

text \<open>A label that cannot be read is never reported as a level, and an unread restriction is reported.\<close>

lemma readTokenLabel_refuses:
  "(tlKnown (readTokenLabel txt tok) \<longleftrightarrow> RID (tkLabelSize tok) (tkLabel tok) \<noteq> None) \<and>
   (\<not> tlKnown (readTokenLabel txt tok) \<longrightarrow> tlIntegrity (readTokenLabel txt tok) = ''unknown'' \<and> tlRid (readTokenLabel txt tok) = 0) \<and>
   (tlRestricted (readTokenLabel txt tok) \<longleftrightarrow> tkRestricted tok \<noteq> Inr False)"
  by (auto simp: readTokenLabel_def Let_def split: option.splits sum.splits)

text \<open>The label of a well-formed SID is its last sub-authority; no SID makes the reader look outside it.\<close>

definition encode_sid :: "bytes \<Rightarrow> 32 word list \<Rightarrow> bytes" where
  "encode_sid authority subs = [sidRevision, of_nat (length subs)] @ authority @ concat (map put_le32 subs)"

theorem sid_label_read:
  assumes "length authority = 6" and "subs \<noteq> []" and "length subs < 256"
  shows "lastSubAuthorityOf (encode_sid authority subs @ slack) = Some (last subs)"
proof -
  obtain init x where s: "subs = init @ [x]" using assms(2) by (cases subs rule: rev_cases) auto
  have l: "length (concat (map put_le32 xs)) = length xs * 4" for xs by (induction xs) simp_all
  have n: "unat (of_nat (Suc (length init)) :: byte) = Suc (length init)"
    using assms(3) s unfolding unat_of_nat by (simp add: take_bit_nat_eq_self)
  let ?pre = "[sidRevision, of_nat (length subs)] @ authority @ concat (map put_le32 init)"
  have e: "encode_sid authority subs @ slack = ?pre @ put_le32 x @ slack" by (simp add: encode_sid_def s)
  have p: "length ?pre = 8 + length init * 4" using assms(1) l [of init] by simp
  have d: "drop (length pre) (pre @ rest) = rest" for pre rest :: bytes by simp
  have "drop (8 + (Suc (length init) - 1) * 4) (encode_sid authority subs @ slack) = put_le32 x @ slack"
    unfolding e diff_Suc_1 p [symmetric] by (rule d)
  moreover have "(encode_sid authority subs @ slack) ! 0 = sidRevision" "unat ((encode_sid authority subs @ slack) ! 1) = Suc (length init)"
    using n by (simp_all add: encode_sid_def s)
  moreover have "8 + Suc (length init) * 4 \<le> length (encode_sid authority subs @ slack)" unfolding e using p by simp
  ultimately show ?thesis
    by (simp only: lastSubAuthorityOf_def sidSubAuthorityAt_def sidSubAuthoritySize_def Let_def uint32_le_put s last_snoc) simp
qed

subsection \<open>Remembered names are recent\<close>

text \<open>One call after another; each call sees what the system answers then.\<close>

fun run_names ::
  "((string \<Rightarrow> go_error + string \<times> string) \<times> Time \<times> string) list \<Rightarrow> account_names \<Rightarrow>
   (Time \<times> string \<times> (go_error + string \<times> string)) list \<times> account_names" where
  "run_names [] names = ([], names)"
| "run_names ((lookup, now, sid) # calls) names =
     (case accountName lookup now sid names of
        (r, names) \<Rightarrow> (case run_names calls names of (rs, names) \<Rightarrow> ((now, sid, r) # rs, names)))"

definition names_ok :: "((string \<Rightarrow> go_error + string \<times> string) \<times> Time \<times> string) set \<Rightarrow> account_names \<Rightarrow> bool" where
  "names_ok calls names \<longleftrightarrow> distinct (map fst names) \<and> length names \<le> accountNameLimit \<and>
     (\<forall>(sid, nm, domain, at) \<in> set names. \<exists>lookup. (lookup, at, sid) \<in> calls \<and> lookup sid = Inr (nm, domain))"

definition recent :: "((string \<Rightarrow> go_error + string \<times> string) \<times> Time \<times> string) set \<Rightarrow> Time \<times> string \<times> (go_error + string \<times> string) \<Rightarrow> bool" where
  "recent calls = (\<lambda>(now, sid, r). \<forall>nm domain. r = Inr (nm, domain) \<longrightarrow>
     (\<exists>lookup at. (lookup, at, sid) \<in> calls \<and> lookup sid = Inr (nm, domain) \<and> at \<le> now \<and> now - at < accountNameLifetime))"

lemma refresh_step:
  assumes "names_ok calls names" "(lookup, now, sid) \<in> calls" "refresh_name lookup now sid names = (r, names')"
  shows "names_ok calls names' \<and> recent calls (now, sid, r)"
proof (cases "lookup sid")
  case (Inl err)
  then show ?thesis using assms by (auto simp: refresh_name_def recent_def)
next
  case (Inr nd)
  obtain nm domain where nd: "nd = (nm, domain)" by fastforce
  let ?kept = "if length names \<ge> accountNameLimit then [] else filter (\<lambda>e. fst e \<noteq> sid) names"
  have e: "r = Inr (nm, domain)" "names' = (sid, nm, domain, now) # ?kept" using assms(3) Inr nd by (simp_all add: refresh_name_def)
  have "length ?kept < accountNameLimit"
    using le_less_trans [OF length_filter_le, of names accountNameLimit] by (auto simp: accountNameLimit_def)
  then have "names_ok calls names'"
    using assms(1,2) Inr nd by (auto simp: e(2) names_ok_def distinct_map_filter)
  moreover have "recent calls (now, sid, r)"
    using assms(2) Inr nd by (auto simp: e(1) recent_def accountNameLifetime_def Minute_def Second_def intro!: exI [of _ lookup] exI [of _ now])
  ultimately show ?thesis ..
qed

lemma accountName_step:
  assumes "names_ok calls names" "(lookup, now, sid) \<in> calls" "accountName lookup now sid names = (r, names')"
  shows "names_ok calls names' \<and> recent calls (now, sid, r)"
proof (cases "\<exists>nm domain at. map_of names sid = Some (nm, domain, at) \<and> now - at < accountNameLifetime \<and> \<not> now < at")
  case True
  then obtain nm domain at where m: "map_of names sid = Some (nm, domain, at)" and t: "now - at < accountNameLifetime" "\<not> now < at" by blast
  from map_of_SomeD [OF m] obtain lk where "(lk, at, sid) \<in> calls" "lk sid = Inr (nm, domain)" using assms(1) by (auto simp: names_ok_def)
  then have "recent calls (now, sid, Inr (nm, domain))"
    using t by (auto simp: recent_def intro!: exI [of _ lk] exI [of _ at])
  then show ?thesis using assms m t by (auto simp: accountName_def)
next
  case False
  then have "accountName lookup now sid names = refresh_name lookup now sid names"
    by (auto simp: accountName_def split: option.splits)
  then show ?thesis using refresh_step [OF assms(1,2), of r names'] assms(3) by simp
qed

text \<open>
  Account names are remembered for at most a minute and at most 64 of them: whatever calls are
  made, every name given for a SID is one the system gave for that SID less than a minute before.
\<close>

theorem account_names_recent:
  assumes "run_names calls [] = (rs, names)"
  shows "length names \<le> accountNameLimit \<and> (\<forall>r \<in> set rs. recent (set calls) r)"
proof -
  have "names_ok C ns \<Longrightarrow> set calls \<subseteq> C \<Longrightarrow> run_names calls ns = (rs, names) \<Longrightarrow> names_ok C names \<and> (\<forall>r \<in> set rs. recent C r)" for C ns
  proof (induction calls arbitrary: ns rs)
    case (Cons c calls)
    obtain lookup now sid where c: "c = (lookup, now, sid)" by (cases c)
    obtain r ns' where a: "accountName lookup now sid ns = (r, ns')" by fastforce
    obtain rs' where run: "run_names calls ns' = (rs', names)" "rs = (now, sid, r) # rs'"
      using Cons.prems(3) c a by (auto split: prod.splits)
    have "names_ok C ns' \<and> recent C (now, sid, r)" using accountName_step [OF Cons.prems(1) _ a] Cons.prems(2) c by auto
    then show ?case using Cons.IH [of ns' rs'] Cons.prems(2) run by auto
  qed simp
  from this [of "set calls" "[]"] assms show ?thesis by (simp add: names_ok_def)
qed

end
