(* ===== verification/Authenticode.thy ===== *)
theory Authenticode
  imports Version_Resource Go_Strings "HOL-Library.Multiset"
begin

section \<open>Authenticode verification (authenticode\_windows.go)\<close>

text \<open>
  Whether Windows trusts the file a process runs. What the system answers are fields of an
  environment: the names of paths and handles, the verdict on a subject, the enumeration of
  catalogs, the signers, and the questions \<^verbatim>\<open>SameFile\<close> and \<^verbatim>\<open>Within\<close> answer. A number tells
  the questions asked at different moments apart: the one during the opening, one per catalog
  examined, and the one after the verification. Contexts, handles and trust states that must be
  given back are recorded as they are taken and released.
\<close>

datatype revocation_checks = WTD_REVOKE_NONE | WTD_REVOKE_WHOLECHAIN
datatype state_action = WTD_STATEACTION_VERIFY | WTD_STATEACTION_CLOSE
datatype prov_flags = WTD_CACHE_ONLY_URL_RETRIEVAL | WTD_REVOCATION_CHECK_CHAIN
datatype signed_content = PKCS7_SIGNED | PKCS7_SIGNED_EMBED

datatype subject =
    FileSubject string int
  | CatalogSubject string string string int bytes int

record WinTrustData =
  tdRevocationChecks :: revocation_checks
  tdSubject :: subject
  tdStateAction :: state_action
  tdProvFlags :: prov_flags

datatype trust_event = Got int | Released int | AdminGot int | AdminReleased int | Opened int | Closed int | Trust WinTrustData

record trust_env =
  teMaxLongPath :: nat
  teLongName :: "nat \<Rightarrow> string \<Rightarrow> go_error + nat \<times> string"
  teFinalName :: "nat \<Rightarrow> int \<Rightarrow> go_error + nat \<times> string"
  teOpen :: "string \<Rightarrow> go_error + int"
  teImagePath :: "go_error + string"
  teSameFile :: "nat \<Rightarrow> string \<Rightarrow> string \<Rightarrow> bool \<times> error"
  teWithin :: "string \<Rightarrow> string \<Rightarrow> bool \<times> error"
  teWindowsDirectory :: "go_error + string"
  teTrust :: "WinTrustData \<Rightarrow> error"
  teSigner :: "string \<Rightarrow> signed_content \<Rightarrow> go_error + string \<times> string"
  teAdmin :: "go_error + int"
  teHash :: "int \<Rightarrow> int \<Rightarrow> go_error + nat \<times> bytes"
  teEnum :: "bytes \<Rightarrow> nat \<Rightarrow> int"
  teCatalogPath :: "int \<Rightarrow> go_error + string"
  teText :: "go_error \<Rightarrow> string"
  teBefore :: read_file
  teAfter :: read_file

definition maxCatalogs :: nat where "maxCatalogs = 64"

subsection \<open>Verdicts\<close>

definition trustENoSignature :: nat where "trustENoSignature = 0x800B0100"
definition trustESubjectFormUnknown :: nat where "trustESubjectFormUnknown = 0x800B0003"
definition trustEProviderUnknown :: nat where "trustEProviderUnknown = 0x800B0001"
definition trustEBadDigest :: nat where "trustEBadDigest = 0x80096010"
definition certEUntrustedRoot :: nat where "certEUntrustedRoot = 0x800B0109"
definition certEExpired :: nat where "certEExpired = 0x800B0101"
definition certERevoked :: nat where "certERevoked = 0x800B010C"
definition certEChaining :: nat where "certEChaining = 0x800B010A"
definition certEUntrustedTestRoot :: nat where "certEUntrustedTestRoot = 0x800B010D"
definition cryptERevocationOffline :: nat where "cryptERevocationOffline = 0x80092013"
definition cryptENotFound :: nat where "cryptENotFound = 0x80092004"

definition trustVerdict :: "trust_env \<Rightarrow> go_error \<Rightarrow> string \<times> Proof" where
  "trustVerdict env err =
     (let code = (case err of Errno n \<Rightarrow> n | _ \<Rightarrow> 0) in
      if code = trustENoSignature \<or> code = cryptENotFound then (''no signature'', ProofUnsigned)
      else if code = trustESubjectFormUnknown then (''the file is not of a form Authenticode can sign'', ProofUnsigned)
      else if code = trustEProviderUnknown then (''no trust provider for this file type'', ProofUnsigned)
      else if code = trustEBadDigest then (''signed, but the file has been modified since it was signed'', ProofInvalid)
      else if code = certEUntrustedRoot \<or> code = certEUntrustedTestRoot
      then (''signed by a certificate chaining to a root this machine does not trust'', ProofInvalid)
      else if code = certEExpired then (''signed by an expired certificate'', ProofInvalid)
      else if code = certERevoked then (''signed by a revoked certificate'', ProofInvalid)
      else if code = certEChaining then (''signed, but the certificate chain could not be built'', ProofInvalid)
      else if code = cryptERevocationOffline then (''revocation status could not be checked'', ProofInvalid)
      else (''not trusted: '' @ teText env err, ProofInvalid))"

subsection \<open>Names\<close>

definition UTF16PtrFromString :: "string \<Rightarrow> error" where
  "UTF16PtrFromString s = (if CHR 0x00 \<in> set s then Some (New ''invalid argument'') else None)"

definition TrimPrefix :: "string \<Rightarrow> string \<Rightarrow> string" where
  "TrimPrefix s p = fst (CutPrefix s p)"

definition verbatim_prefix :: string where
  "verbatim_prefix = [CHR 0x5C, CHR 0x5C, CHR ''?'', CHR 0x5C]"

definition handleFinalPath :: "trust_env \<Rightarrow> nat \<Rightarrow> int \<Rightarrow> go_error + string" where
  "handleFinalPath env t file =
     (case teFinalName env t file of
        Inl err \<Rightarrow> Inl (Errorf [err])
      | Inr (n, name) \<Rightarrow>
          if n = 0 \<or> n \<ge> teMaxLongPath env then Inl (New ''the verified file path exceeds the buffer'')
          else Inr (TrimPrefix name verbatim_prefix))"

definition longImagePath :: "trust_env \<Rightarrow> nat \<Rightarrow> string \<Rightarrow> go_error + string" where
  "longImagePath env t path =
     (case UTF16PtrFromString path of
        Some err \<Rightarrow> Inl err
      | None \<Rightarrow>
          (case teLongName env t path of
             Inl err \<Rightarrow> Inl err
           | Inr (n, name) \<Rightarrow>
               if n = 0 \<or> n \<ge> teMaxLongPath env then Inl (New ''image path exceeds the buffer'')
               else Inr (TrimPrefix name verbatim_prefix)))"

definition samePath :: "trust_env \<Rightarrow> nat \<Rightarrow> string \<Rightarrow> string \<Rightarrow> bool" where
  "samePath env t a b = (case teSameFile env t a b of (same, err) \<Rightarrow> err = None \<and> same)"

definition sameFinalPath :: "trust_env \<Rightarrow> nat \<Rightarrow> string \<Rightarrow> string \<Rightarrow> error" where
  "sameFinalPath env t got want =
     (if \<not> samePath env t got want then Some (New ''the file that was verified is now elsewhere'') else None)"

definition stillSameFile :: "trust_env \<Rightarrow> nat \<Rightarrow> int \<Rightarrow> string \<Rightarrow> error" where
  "stillSameFile env t file want =
     (case handleFinalPath env t file of Inl err \<Rightarrow> Some err | Inr got \<Rightarrow> sameFinalPath env t got want)"

definition stillSameImage :: "trust_env \<Rightarrow> nat \<Rightarrow> int \<Rightarrow> string \<Rightarrow> error" where
  "stillSameImage env t file want =
     (case teImagePath env of
        Inl err \<Rightarrow> Some (Errorf [err])
      | Inr now \<Rightarrow>
          (case longImagePath env t now of
             Inl err \<Rightarrow> Some (Errorf [err])
           | Inr now \<Rightarrow>
               if \<not> samePath env t now want then Some (New ''the process image path changed during verification'')
               else stillSameFile env t file want))"

definition underDirectory :: "trust_env \<Rightarrow> string \<Rightarrow> string \<Rightarrow> bool" where
  "underDirectory env path dir = fst (teWithin env path dir)"

definition inWindowsDirectory :: "trust_env \<Rightarrow> int \<Rightarrow> bool" where
  "inWindowsDirectory env file =
     (case teWindowsDirectory env of
        Inl err \<Rightarrow> False
      | Inr dir \<Rightarrow> (case handleFinalPath env 0 file of Inl err \<Rightarrow> False | Inr final \<Rightarrow> underDirectory env final dir))"

subsection \<open>Catalogs\<close>

text \<open>The one policy: a verification, and its trust state closed whatever the verdict.\<close>

definition winTrust :: "trust_env \<Rightarrow> subject \<Rightarrow> bool \<Rightarrow> error \<times> trust_event list" where
  "winTrust env subj revocation =
     (let data = \<lparr>tdRevocationChecks = WTD_REVOKE_NONE, tdSubject = subj, tdStateAction = WTD_STATEACTION_VERIFY,
                  tdProvFlags = WTD_CACHE_ONLY_URL_RETRIEVAL\<rparr>;
          data = (if revocation then data\<lparr>tdRevocationChecks := WTD_REVOKE_WHOLECHAIN, tdProvFlags := WTD_REVOCATION_CHECK_CHAIN\<rparr>
                  else data)
      in (teTrust env data, [Trust data, Trust (data\<lparr>tdStateAction := WTD_STATEACTION_CLOSE\<rparr>)]))"

definition cryptCATAdminCalcHashFromFileHandle2 :: "trust_env \<Rightarrow> int \<Rightarrow> int \<Rightarrow> go_error + bytes" where
  "cryptCATAdminCalcHashFromFileHandle2 env admin file =
     (case teHash env admin file of
        Inl err \<Rightarrow> Inl err
      | Inr (n, hash) \<Rightarrow> if n = 0 \<or> n > 64 then Inl (New ''invalid argument'') else Inr (take n hash))"

definition hexDigit :: "nat \<Rightarrow> char" where
  "hexDigit n = ''0123456789ABCDEF'' ! n"

definition memberTag :: "bytes \<Rightarrow> string" where
  "memberTag hash = concat (map (\<lambda>b. [hexDigit (unat b div 16), hexDigit (unat b mod 16)]) hash)"

text \<open>
  The code when Windows accepts the member, its refusal, or why the catalog could not be read. The
  subject names the catalog's path, the tag, the member's path and handle, its hash and the
  administrator context.
\<close>

definition catalogMember ::
  "trust_env \<Rightarrow> nat \<Rightarrow> int \<Rightarrow> int \<Rightarrow> bytes \<Rightarrow> int \<Rightarrow> string \<Rightarrow> bool \<Rightarrow> (Code \<times> error \<times> error) \<times> trust_event list" where
  "catalogMember env t admin info hash file path revocation =
     (case teCatalogPath env info of
        Inl err \<Rightarrow> ((zero_Code, None, Some err), [])
      | Inr catalogPath \<Rightarrow>
          (case teOpen env catalogPath of
             Inl err \<Rightarrow> ((zero_Code, None, Some err), [])
           | Inr catalog \<Rightarrow>
               (case winTrust env (CatalogSubject catalogPath (memberTag hash) path file hash admin) revocation of
                  (verdict, asked) \<Rightarrow>
                    (let log = [Opened catalog] @ asked @ [Closed catalog] in
                     case verdict of
                       Some refusal \<Rightarrow> ((zero_Code, Some refusal, None), log)
                     | None \<Rightarrow>
                         (let code = zero_Code\<lparr>cTrusted := True, cCatalog := True, cStatus := ''valid, signed through a system catalog''\<rparr>;
                              code = (case teSigner env catalogPath PKCS7_SIGNED of
                                        Inr (subject, issuer) \<Rightarrow> code\<lparr>cSubject := subject, cIssuer := issuer\<rparr>
                                      | Inl err \<Rightarrow> code)
                          in case stillSameFile env t catalog catalogPath of
                               Some err \<Rightarrow> ((zero_Code, None, Some err), log)
                             | None \<Rightarrow> ((code, None, None), log))))))"

text \<open>
  The search. An enumeration takes back the context it returned before; the result is the accepted
  code, or the first refusal on a rung other than unsigned, with the context still held.
\<close>

fun catalog_loop ::
  "trust_env \<Rightarrow> (nat \<Rightarrow> int) \<Rightarrow> (nat \<Rightarrow> int \<Rightarrow> (Code \<times> error \<times> error) \<times> trust_event list) \<Rightarrow>
   nat \<Rightarrow> nat \<Rightarrow> int \<Rightarrow> error \<Rightarrow> (Code + error \<times> int) \<times> trust_event list" where
  "catalog_loop env enum examine i 0 prev refusal = (Inr (refusal, prev), [])"
| "catalog_loop env enum examine i (Suc left) prev refusal =
     (let info = enum i; back = (if prev = 0 then [] else [Released prev]) in
      if info = 0 then (Inr (refusal, 0), back)
      else (case examine i info of
              ((code, refused, err), opened) \<Rightarrow>
                if err = None \<and> refused = None then (Inl code, back @ [Got info] @ opened @ [Released info])
                else
                  (let refusal' = (case refused of
                                     Some r \<Rightarrow> if refusal = None \<and> snd (trustVerdict env r) \<noteq> ProofUnsigned then refused else refusal
                                   | None \<Rightarrow> refusal)
                   in case catalog_loop env enum examine (Suc i) left info refusal' of
                        (result, log) \<Rightarrow> (result, back @ [Got info] @ opened @ log))))"

definition verifyCatalog :: "trust_env \<Rightarrow> int \<Rightarrow> string \<Rightarrow> bool \<Rightarrow> (Code \<times> Proof \<times> bool) \<times> trust_event list" where
  "verifyCatalog env file path revocation =
     (case teAdmin env of
        Inl err \<Rightarrow> ((zero_Code, ProofUnsigned, False), [])
      | Inr admin \<Rightarrow>
          (let around = (\<lambda>log. [AdminGot admin] @ log @ [AdminReleased admin]) in
           case cryptCATAdminCalcHashFromFileHandle2 env admin file of
             Inl err \<Rightarrow> ((zero_Code, ProofUnsigned, False), around [])
           | Inr hash \<Rightarrow>
               (case catalog_loop env (teEnum env hash) (\<lambda>i info. catalogMember env i admin info hash file path revocation)
                       0 maxCatalogs 0 None of
                  (Inl code, log) \<Rightarrow> ((code, ProofBound, True), around log)
                | (Inr (refusal, prev), log) \<Rightarrow>
                    (let log = log @ (if prev \<noteq> 0 then [Released prev] else []) in
                     case refusal of
                       None \<Rightarrow> ((zero_Code, ProofUnsigned, False), around log)
                     | Some r \<Rightarrow>
                         (case trustVerdict env r of
                            (status, verdict) \<Rightarrow>
                              ((zero_Code\<lparr>cStatus := ''listed by a system catalog Windows refused: '' @ status, cCatalog := True\<rparr>,
                                verdict, True), around log))))))"

definition verifyTrust :: "trust_env \<Rightarrow> int \<Rightarrow> string \<Rightarrow> bool \<Rightarrow> (Code \<times> Proof) \<times> trust_event list" where
  "verifyTrust env file path revocation =
     (case winTrust env (FileSubject path file) revocation of
        (None, asked) \<Rightarrow> ((zero_Code\<lparr>cTrusted := True, cStatus := ''valid''\<rparr>, ProofBound), asked)
      | (Some err, asked) \<Rightarrow>
          (case trustVerdict env err of
             (status, verdict) \<Rightarrow>
               if verdict = ProofUnsigned \<and> inWindowsDirectory env file then
                 (case verifyCatalog env file path revocation of
                    ((code, verdict', listed), log) \<Rightarrow>
                      (if listed then (code, verdict') else (zero_Code\<lparr>cStatus := status\<rparr>, verdict), asked @ log))
               else ((zero_Code\<lparr>cStatus := status\<rparr>, verdict), asked)))"

definition withSigner :: "trust_env \<Rightarrow> string \<Rightarrow> Code \<Rightarrow> Code" where
  "withSigner env path code =
     (if \<not> cTrusted code \<or> cCatalog code then code
      else (case teSigner env path PKCS7_SIGNED_EMBED of
              Inr (subject, issuer) \<Rightarrow> code\<lparr>cSubject := subject, cIssuer := issuer\<rparr>
            | Inl err \<Rightarrow> code))"

text \<open>The whole verification, and what it took and gave back; \<open>None\<close> would be a panic of the reader of version resources.\<close>

definition verifyImage :: "trust_env \<Rightarrow> string \<Rightarrow> Options option \<Rightarrow> (go_error + Code \<times> Proof) option \<times> trust_event list" where
  "verifyImage env imagePath0 opts =
     (case longImagePath env 0 imagePath0 of
        Inl err \<Rightarrow> (Some (Inl err), [])
      | Inr imagePath \<Rightarrow>
          (case UTF16PtrFromString imagePath of
             Some err \<Rightarrow> (Some (Inl err), [])
           | None \<Rightarrow>
               (case teOpen env imagePath of
                  Inl err \<Rightarrow> (Some (Inl (Errorf [err])), [])
                | Inr file \<Rightarrow>
                    (case verifyTrust env file imagePath (checkRevocation opts) of
                       (trust, log) \<Rightarrow>
                         (case verifyHeld (teBefore env) trust (withSigner env imagePath) (teAfter env) of
                            None \<Rightarrow> None
                          | Some (code, verdict, Some err) \<Rightarrow> Some (Inl (Errorf [err]))
                          | Some (code, verdict, None) \<Rightarrow>
                              (case stillSameImage env (Suc maxCatalogs) file imagePath of
                                 Some err \<Rightarrow> Some (Inl (Errorf [err]))
                               | None \<Rightarrow> Some (Inr (code, verdict))),
                          [Opened file] @ log @ [Closed file])))))"

subsection \<open>What is trusted\<close>

lemma trustVerdict_rungs: "snd (trustVerdict env err) = ProofUnsigned \<or> snd (trustVerdict env err) = ProofInvalid"
  by (simp add: trustVerdict_def Let_def)

definition catalog_accepts :: "trust_env \<Rightarrow> nat \<Rightarrow> int \<Rightarrow> int \<Rightarrow> bytes \<Rightarrow> int \<Rightarrow> string \<Rightarrow> bool \<Rightarrow> bool" where
  "catalog_accepts env t admin info hash file path revocation \<longleftrightarrow>
     (\<exists>name catalog. teCatalogPath env info = Inr name \<and> teOpen env name = Inr catalog \<and> stillSameFile env t catalog name = None \<and>
        fst (winTrust env (CatalogSubject name (memberTag hash) path file hash admin) revocation) = None)"

lemma catalogMember_accepts:
  "catalogMember env t admin info hash file path revocation = ((code, None, None), log) \<Longrightarrow>
   catalog_accepts env t admin info hash file path revocation \<and> cTrusted code \<and> cCatalog code"
  by (auto simp: catalogMember_def catalog_accepts_def Let_def split: sum.splits option.splits prod.splits)

text \<open>The search finds a catalog that the examination accepts, and keeps only refusals that are not of the unsigned rung.\<close>

lemma catalog_loop_accepts:
  "catalog_loop env enum examine i left prev refusal = (Inl code, log) \<Longrightarrow>
   \<exists>j ev. i \<le> j \<and> j < i + left \<and> enum j \<noteq> 0 \<and> examine j (enum j) = ((code, None, None), ev)"
proof (induction left arbitrary: i prev refusal log)
  case (Suc left)
  obtain c r e ev where m: "examine i (enum i) = ((c, r, e), ev)" by (metis prod.exhaust)
  show ?case
  proof (cases "e = None \<and> r = None")
    case True
    then have "enum i \<noteq> 0 \<and> c = code" using Suc(2) m by (auto simp: Let_def split: if_splits)
    then show ?thesis using True m by (intro exI [of _ i]) auto
  next
    case False
    then obtain refusal' log' where l: "catalog_loop env enum examine (Suc i) left (enum i) refusal' = (Inl code, log')"
      using Suc(2) m by (auto simp: Let_def split: if_splits prod.splits)
    from Suc(1) [OF l] show ?thesis by (metis Suc_leD add_Suc add_Suc_right)
  qed
qed simp

lemma catalog_loop_refusal:
  "catalog_loop env enum examine i left prev refusal = (Inr (Some r, prev'), log) \<Longrightarrow>
   (\<And>r. refusal = Some r \<Longrightarrow> snd (trustVerdict env r) \<noteq> ProofUnsigned) \<Longrightarrow> snd (trustVerdict env r) \<noteq> ProofUnsigned"
proof (induction left arbitrary: i prev refusal log)
  case (Suc left)
  obtain c r' e ev where m: "examine i (enum i) = ((c, r', e), ev)" by (metis prod.exhaust)
  show ?case
  proof (cases "enum i = 0")
    case False
    let ?refusal = "case r' of Some q \<Rightarrow> if refusal = None \<and> snd (trustVerdict env q) \<noteq> ProofUnsigned then r' else refusal | None \<Rightarrow> refusal"
    from False Suc(2) m obtain log' where l: "catalog_loop env enum examine (Suc i) left (enum i) ?refusal = (Inr (Some r, prev'), log')"
      by (auto simp: Let_def split: if_splits prod.splits)
    show ?thesis by (rule Suc(1) [OF l]) (use Suc(3) in \<open>auto split: option.splits if_splits\<close>)
  qed (use Suc in \<open>auto simp: Let_def\<close>)
qed auto

definition listed_accepted :: "trust_env \<Rightarrow> int \<Rightarrow> string \<Rightarrow> bool \<Rightarrow> bool" where
  "listed_accepted env file path revocation \<longleftrightarrow>
     (\<exists>admin hash j. teAdmin env = Inr admin \<and> cryptCATAdminCalcHashFromFileHandle2 env admin file = Inr hash \<and>
        j < maxCatalogs \<and> teEnum env hash j \<noteq> 0 \<and> catalog_accepts env j admin (teEnum env hash j) hash file path revocation)"

lemma verifyCatalog_cases:
  assumes v: "verifyCatalog env file path revocation = ((code, verdict, listed), log)" and listed
  shows "cTrusted code \<and> verdict = ProofBound \<and> listed_accepted env file path revocation \<or> \<not> cTrusted code \<and> verdict = ProofInvalid"
proof -
  obtain admin where a: "teAdmin env = Inr admin" using assms by (cases "teAdmin env") (auto simp: verifyCatalog_def)
  obtain hash where h: "cryptCATAdminCalcHashFromFileHandle2 env admin file = Inr hash"
    using assms a by (cases "cryptCATAdminCalcHashFromFileHandle2 env admin file") (auto simp: verifyCatalog_def)
  let ?examine = "\<lambda>i info. catalogMember env i admin info hash file path revocation"
  let ?loop = "catalog_loop env (teEnum env hash) ?examine 0 maxCatalogs 0 None"
  obtain q l where l: "?loop = (q, l)" by (cases ?loop)
  show ?thesis
  proof (cases q)
    case (Inl c)
    then have "c = code" "verdict = ProofBound" using v a h l by (simp_all add: verifyCatalog_def)
    then show ?thesis
      using catalog_loop_accepts [of env _ ?examine 0 maxCatalogs 0 None code l] l Inl a h catalogMember_accepts
      by (auto simp: listed_accepted_def) blast+
  next
    case (Inr rp)
    obtain refusal prev where rp: "rp = (refusal, prev)" by (cases rp)
    then obtain r where r: "refusal = Some r"
      using assms a h l Inr by (cases refusal) (auto simp: verifyCatalog_def Let_def)
    have "snd (trustVerdict env r) \<noteq> ProofUnsigned"
      using catalog_loop_refusal [of env _ ?examine 0 maxCatalogs 0 None r prev l] l Inr rp r by simp
    then show ?thesis
      using v a h l Inr rp r trustVerdict_rungs [of env r]
      by (auto simp: verifyCatalog_def Let_def zero_Code_def split: prod.splits)
  qed
qed

definition windows_accepts :: "trust_env \<Rightarrow> int \<Rightarrow> string \<Rightarrow> bool \<Rightarrow> bool" where
  "windows_accepts env file path revocation \<longleftrightarrow> fst (winTrust env (FileSubject path file) revocation) = None \<or>
     inWindowsDirectory env file \<and> listed_accepted env file path revocation"

lemma verifyTrust_cases:
  assumes "verifyTrust env file path revocation = ((code, verdict), log)"
  shows "cTrusted code \<and> verdict = ProofBound \<and> windows_accepts env file path revocation \<or>
    \<not> cTrusted code \<and> (verdict = ProofUnsigned \<or> verdict = ProofInvalid)"
proof -
  obtain ans asked where w: "winTrust env (FileSubject path file) revocation = (ans, asked)" by fastforce
  show ?thesis
  proof (cases ans)
    case None
    then show ?thesis using assms w by (auto simp: verifyTrust_def windows_accepts_def)
  next
    case (Some err)
    obtain status rung where t: "trustVerdict env err = (status, rung)" by fastforce
    then have r: "rung = ProofUnsigned \<or> rung = ProofInvalid" using trustVerdict_rungs [of env err] by simp
    obtain c v li lg where vc: "verifyCatalog env file path revocation = ((c, v, li), lg)" by (metis prod.exhaust)
    show ?thesis
    proof (cases "rung = ProofUnsigned \<and> inWindowsDirectory env file \<and> li")
      case True
      then show ?thesis using assms w Some t vc verifyCatalog_cases [OF vc] by (auto simp: verifyTrust_def windows_accepts_def)
    next
      case False
      then have "code = zero_Code\<lparr>cStatus := status\<rparr> \<and> verdict = rung"
        using assms w Some t vc by (auto simp: verifyTrust_def split: if_splits)
      then show ?thesis using r by (auto simp: zero_Code_def)
    qed
  qed
qed

lemma verifyHeld_code:
  assumes "verifyHeld rf1 trust sign rf2 = Some (code, verdict, None)"
  shows "verdict = snd trust \<and> cTrusted code = cTrusted (sign (fst trust))"
  using assms by (auto simp: verifyHeld_def Let_def split: option.splits prod.splits if_splits)

lemma withSigner_trusted [simp]: "cTrusted (withSigner env path code) = cTrusted code"
  by (auto simp: withSigner_def split: sum.splits)

lemma verifyImage_answer:
  assumes "verifyImage env imagePath opts = (Some (Inr (code, verdict)), log)"
  obtains path f tr lg where "longImagePath env 0 imagePath = Inr path" "teOpen env path = Inr f"
    "verifyTrust env f path (checkRevocation opts) = (tr, lg)"
    "verifyHeld (teBefore env) tr (withSigner env path) (teAfter env) = Some (code, verdict, None)"
    "stillSameImage env (Suc maxCatalogs) f path = None"
  using assms by (auto simp: verifyImage_def split: sum.splits option.splits prod.splits)

lemma verifyImage_verdict:
  assumes "verifyImage env imagePath opts = (Some (Inr (code, verdict)), log)"
  shows "(cTrusted code \<longleftrightarrow> verdict = ProofBound) \<and> (\<not> cTrusted code \<longrightarrow> verdict = ProofUnsigned \<or> verdict = ProofInvalid) \<and>
    (\<forall>path f. longImagePath env 0 imagePath = Inr path \<longrightarrow> teOpen env path = Inr f \<longrightarrow> cTrusted code \<longrightarrow>
       windows_accepts env f path (checkRevocation opts))"
proof -
  from assms obtain path f tr lg where p: "longImagePath env 0 imagePath = Inr path" "teOpen env path = Inr f"
    and t: "verifyTrust env f path (checkRevocation opts) = (tr, lg)"
    and h: "verifyHeld (teBefore env) tr (withSigner env path) (teAfter env) = Some (code, verdict, None)"
    by (rule verifyImage_answer)
  obtain c v where tr: "tr = (c, v)" by fastforce
  have "verdict = v" "cTrusted code = cTrusted c" using verifyHeld_code [OF h] tr by simp_all
  moreover have "ProofBound \<noteq> ProofUnsigned" "ProofBound \<noteq> ProofInvalid" by (simp_all add: rung_defs)
  ultimately show ?thesis using verifyTrust_cases [OF t [unfolded tr]] p by auto
qed

text \<open>
  C28: a program is reported trusted only when Windows accepted the very file it runs. An answer
  without an error is trusted exactly when its verdict is \<^verbatim>\<open>ProofBound\<close>; then \<^verbatim>\<open>WinVerifyTrust\<close>
  accepted the file held open, or one of the first 64 catalogs that list its hash did, that
  catalog's handle still naming the catalog's path and the held file lying under the Windows
  directory. Every other answer is unsigned or invalid. And in every case the process then still
  runs from the verified path, and the held file is still the file at that path.
\<close>

theorem trusted_exact:
  assumes "verifyImage env imagePath opts = (Some (Inr (code, verdict)), log)"
  shows "\<exists>path f now long final. longImagePath env 0 imagePath = Inr path \<and> teOpen env path = Inr f \<and>
    (cTrusted code \<longleftrightarrow> verdict = ProofBound) \<and> (cTrusted code \<longrightarrow> windows_accepts env f path (checkRevocation opts)) \<and>
    (\<not> cTrusted code \<longrightarrow> verdict = ProofUnsigned \<or> verdict = ProofInvalid) \<and>
    teImagePath env = Inr now \<and> longImagePath env (Suc maxCatalogs) now = Inr long \<and> samePath env (Suc maxCatalogs) long path \<and>
    handleFinalPath env (Suc maxCatalogs) f = Inr final \<and> samePath env (Suc maxCatalogs) final path"
proof -
  from assms obtain path f where p: "longImagePath env 0 imagePath = Inr path" "teOpen env path = Inr f"
    and s: "stillSameImage env (Suc maxCatalogs) f path = None"
    by (rule verifyImage_answer)
  then obtain now long final where "teImagePath env = Inr now" "longImagePath env (Suc maxCatalogs) now = Inr long"
    "samePath env (Suc maxCatalogs) long path" "handleFinalPath env (Suc maxCatalogs) f = Inr final" "samePath env (Suc maxCatalogs) final path"
    by (auto simp: stillSameImage_def stillSameFile_def sameFinalPath_def split: sum.splits if_splits)
  then show ?thesis using p verifyImage_verdict [OF assms] by blast
qed

text \<open>An inbox program signed only through the second of two catalogs; the first is a stale index entry.\<close>

definition demo_trust :: trust_env where
  "demo_trust = \<lparr>teMaxLongPath = 32768,
     teLongName = (\<lambda>t p. Inr (length p, p)),
     teFinalName = (\<lambda>t h. Inr (2, verbatim_prefix @ (if h = 3 then ''ps'' else if h = 4 then ''c1'' else ''c2''))),
     teOpen = (\<lambda>p. Inr (if p = ''ps'' then 3 else if p = ''c1'' then 4 else 5)),
     teImagePath = Inr ''ps'',
     teSameFile = (\<lambda>t a b. (a = b, None)),
     teWithin = (\<lambda>a b. (True, None)),
     teWindowsDirectory = Inr ''win'',
     teTrust = (\<lambda>d. case tdSubject d of
        FileSubject p h \<Rightarrow> Some (Errno 0x800B0100)
      | CatalogSubject c tag p h hash adm \<Rightarrow> if c = ''c1'' \<or> tag \<noteq> ''AB'' then Some (Errno 0x80092004) else None),
     teSigner = (\<lambda>p k. Inr (''maker'', ''root'')),
     teAdmin = Inr 7,
     teHash = (\<lambda>a h. Inr (1, [0xAB])),
     teEnum = (\<lambda>hash i. if i = 0 then 11 else if i = 1 then 12 else 0),
     teCatalogPath = (\<lambda>c. Inr (if c = 11 then ''c1'' else ''c2'')),
     teText = (\<lambda>e. []),
     teBefore = demo_file,
     teAfter = demo_file\<rparr>"

lemma demo_trust_simps [simp]:
  "longImagePath demo_trust t ''ps'' = Inr ''ps''" "UTF16PtrFromString ''ps'' = None"
  "handleFinalPath demo_trust t h = Inr (if h = 3 then ''ps'' else if h = 4 then ''c1'' else ''c2'')"
  "samePath demo_trust t a b = (a = b)" "inWindowsDirectory demo_trust h"
  by (simp_all add: demo_trust_def longImagePath_def handleFinalPath_def samePath_def inWindowsDirectory_def underDirectory_def
      UTF16PtrFromString_def TrimPrefix_def CutPrefix_def HasPrefix_def verbatim_prefix_def)

lemma demo_hash: "cryptCATAdminCalcHashFromFileHandle2 demo_trust 7 3 = Inr [0xAB]"
  by (simp add: demo_trust_def cryptCATAdminCalcHashFromFileHandle2_def)

lemma demo_fields:
  "teCatalogPath demo_trust c = Inr (if c = 11 then ''c1'' else ''c2'')"
  "teOpen demo_trust p = Inr (if p = ''ps'' then 3 else if p = ''c1'' then 4 else 5)"
  "teSigner demo_trust p k = Inr (''maker'', ''root'')" "teAdmin demo_trust = Inr 7" "teImagePath demo_trust = Inr ''ps''"
  "teEnum demo_trust hash 0 = 11" "teEnum demo_trust hash (Suc 0) = 12"
  "teBefore demo_trust = demo_file" "teAfter demo_trust = demo_file"
  by (simp_all add: demo_trust_def)

lemma demo_verdicts:
  "fst (winTrust demo_trust (FileSubject p h) r) = Some (Errno 0x800B0100)"
  "fst (winTrust demo_trust (CatalogSubject ''c1'' tag p h hash adm) r) = Some (Errno 0x80092004)"
  "fst (winTrust demo_trust (CatalogSubject ''c2'' ''AB'' p h hash adm) r) = None"
  by (simp_all add: winTrust_def Let_def demo_trust_def)

lemma demo_members:
  "\<exists>log. catalogMember demo_trust t 7 11 [0xAB] 3 ''ps'' False = ((zero_Code, Some (Errno 0x80092004), None), log)"
  "\<exists>log. catalogMember demo_trust t 7 12 [0xAB] 3 ''ps'' False =
     ((zero_Code\<lparr>cTrusted := True, cCatalog := True, cStatus := ''valid, signed through a system catalog'',
       cSubject := ''maker'', cIssuer := ''root''\<rparr>, None, None), log)"
  using demo_verdicts(2) [of "''AB''" "''ps''" 3 "[0xAB]" 7 False] demo_verdicts(3) [of "''ps''" 3 "[0xAB]" 7 False]
  by (auto simp: catalogMember_def demo_fields memberTag_def hexDigit_def stillSameFile_def sameFinalPath_def Let_def split: prod.splits)

lemma maxCatalogs_Suc: "maxCatalogs = Suc (Suc 62)"
  by (simp add: maxCatalogs_def)

lemma demo_trusted:
  "\<exists>log. verifyImage demo_trust ''ps'' None = (Some (Inr (zero_Code\<lparr>cTrusted := True, cCatalog := True,
     cStatus := ''valid, signed through a system catalog'', cSubject := ''maker'', cIssuer := ''root'', cDescription := ''A''\<rparr>, ProofBound)), log)"
proof -
  let ?code = "zero_Code\<lparr>cTrusted := True, cCatalog := True, cStatus := ''valid, signed through a system catalog'',
    cSubject := ''maker'', cIssuer := ''root''\<rparr>"
  have r: "snd (trustVerdict demo_trust (Errno 0x80092004)) = ProofUnsigned"
    "trustVerdict demo_trust (Errno 0x800B0100) = (''no signature'', ProofUnsigned)"
    by (simp_all add: trustVerdict_def trustENoSignature_def cryptENotFound_def)
  let ?examine = "\<lambda>i info. catalogMember demo_trust i 7 info [0xAB] 3 ''ps'' False"
  obtain l1 l2 where m: "?examine 0 11 = ((zero_Code, Some (Errno 0x80092004), None), l1)" "?examine (Suc 0) 12 = ((?code, None, None), l2)"
    using demo_members by meson
  have "\<exists>log. catalog_loop demo_trust (teEnum demo_trust [0xAB]) ?examine 0 (Suc (Suc left)) 0 None = (Inl ?code, log)" for left
    by (simp add: Let_def demo_fields m r)
  then obtain l3 where l: "catalog_loop demo_trust (teEnum demo_trust [0xAB]) ?examine 0 maxCatalogs 0 None = (Inl ?code, l3)"
    unfolding maxCatalogs_Suc by blast
  obtain l4 where c: "verifyCatalog demo_trust 3 ''ps'' False = ((?code, ProofBound, True), l4)"
    by (simp add: verifyCatalog_def demo_fields demo_hash Let_def l)
  have "\<exists>log. verifyTrust demo_trust 3 ''ps'' False = ((?code, ProofBound), log)"
    using demo_verdicts(1) [of "''ps''" 3 False]
    by (cases "winTrust demo_trust (FileSubject ''ps'' 3) False") (simp add: verifyTrust_def c r)
  then show ?thesis
    by (auto simp: verifyImage_def demo_fields checkRevocation_def verifyHeld_def demo_version withSigner_def stillSameImage_def
        stillSameFile_def sameFinalPath_def zero_Code_def)
qed

theorem trusted_exact_witness:
  "\<exists>log. verifyImage demo_trust ''ps'' None = (Some (Inr (zero_Code\<lparr>cTrusted := True, cCatalog := True,
     cStatus := ''valid, signed through a system catalog'', cSubject := ''maker'', cIssuer := ''root'', cDescription := ''A''\<rparr>, ProofBound)), log) \<and>
   windows_accepts demo_trust 3 ''ps'' False"
proof -
  from demo_trusted obtain log where "verifyImage demo_trust ''ps'' None = (Some (Inr (zero_Code\<lparr>cTrusted := True, cCatalog := True,
     cStatus := ''valid, signed through a system catalog'', cSubject := ''maker'', cIssuer := ''root'', cDescription := ''A''\<rparr>, ProofBound)), log)" ..
  with trusted_exact [OF this] show ?thesis by (auto simp: zero_Code_def checkRevocation_def demo_fields)
qed

subsection \<open>Contexts, handles and trust states are given back\<close>

fun took :: "trust_event \<Rightarrow> trust_event list" where
  "took (Released c) = [Got c]"
| "took (AdminReleased c) = [AdminGot c]"
| "took (Closed h) = [Opened h]"
| "took (Trust d) = (if tdStateAction d = WTD_STATEACTION_CLOSE then [Trust (d\<lparr>tdStateAction := WTD_STATEACTION_VERIFY\<rparr>)] else [])"
| "took _ = []"

definition taken :: "trust_event list \<Rightarrow> trust_event multiset" where
  "taken log = mset (filter (\<lambda>ev. took ev = []) log)"

definition given_back :: "trust_event list \<Rightarrow> trust_event multiset" where
  "given_back log = mset (concat (map took log))"

lemma taken_simps [simp]:
  "taken [] = {#}" "taken (ev # log) = (if took ev = [] then {#ev#} else {#}) + taken log" "taken (a @ b) = taken a + taken b"
  "given_back [] = {#}" "given_back (ev # log) = mset (took ev) + given_back log" "given_back (a @ b) = given_back a + given_back b"
  by (simp_all add: taken_def given_back_def)

lemma winTrust_balanced: "winTrust env subj revocation = (r, log) \<Longrightarrow> taken log = given_back log"
  by (auto simp: winTrust_def Let_def)

lemma catalogMember_balanced:
  "catalogMember env t admin info hash file path revocation = (r, log) \<Longrightarrow> taken log = given_back log"
  by (auto simp: catalogMember_def Let_def split: sum.splits option.splits prod.splits dest!: winTrust_balanced)

definition held_context :: "int \<Rightarrow> trust_event multiset" where
  "held_context c = (if c = 0 then {#} else {#Got c#})"

lemma catalog_loop_balanced:
  assumes "\<And>i info r log. examine i info = (r, log) \<Longrightarrow> taken log = given_back log"
  shows "catalog_loop env enum examine i left prev refusal = (q, log) \<Longrightarrow>
   held_context prev + taken log = given_back log + (case q of Inl code \<Rightarrow> {#} | Inr (r, prev') \<Rightarrow> held_context prev')"
proof (induction left arbitrary: i prev refusal q log)
  case (Suc left)
  obtain c r e ev where m: "examine i (enum i) = ((c, r, e), ev)" by (metis prod.exhaust)
  let ?refusal = "case r of Some x \<Rightarrow> if refusal = None \<and> snd (trustVerdict env x) \<noteq> ProofUnsigned then r else refusal | None \<Rightarrow> refusal"
  obtain q' log' where l: "catalog_loop env enum examine (Suc i) left (enum i) ?refusal = (q', log')" by fastforce
  show ?case
    using Suc(2) m assms [OF m] l Suc(1) [OF l] by (auto simp: Let_def held_context_def split: if_splits)
qed auto

lemma verifyCatalog_balanced: "verifyCatalog env file path revocation = (r, log) \<Longrightarrow> taken log = given_back log"
proof (cases "teAdmin env")
  case (Inr admin)
  assume v: "verifyCatalog env file path revocation = (r, log)"
  show ?thesis
  proof (cases "cryptCATAdminCalcHashFromFileHandle2 env admin file")
    case Inl
    then show ?thesis using v Inr by (auto simp: verifyCatalog_def)
  next
    case hash: (Inr hash)
    let ?loop = "catalog_loop env (teEnum env hash) (\<lambda>i info. catalogMember env i admin info hash file path revocation) 0 maxCatalogs 0 None"
    obtain q l where l: "?loop = (q, l)" by fastforce
    from catalog_loop_balanced [OF catalogMember_balanced l] show ?thesis
      using v Inr hash l by (auto simp: verifyCatalog_def held_context_def Let_def split: sum.splits option.splits prod.splits if_splits)
  qed
qed (auto simp: verifyCatalog_def)

lemma verifyTrust_balanced: "verifyTrust env file path revocation = (r, log) \<Longrightarrow> taken log = given_back log"
  by (auto simp: verifyTrust_def split: option.splits prod.splits if_splits dest!: winTrust_balanced verifyCatalog_balanced)

text \<open>
  C32: a verification gives back all it takes. Whatever the system answers and on every way out,
  the file and catalog handles opened are those closed, the catalog contexts and the
  administrator context acquired are those released, each as often, and every trust state that a
  verification opened is closed over the same data.
\<close>

theorem verification_gives_back: "taken (snd (verifyImage env imagePath opts)) = given_back (snd (verifyImage env imagePath opts))"
proof (cases "longImagePath env 0 imagePath")
  case (Inr path)
  show ?thesis
  proof (cases "teOpen env path")
    case f: (Inr f)
    obtain tr lg where t: "verifyTrust env f path (checkRevocation opts) = (tr, lg)" by fastforce
    from verifyTrust_balanced [OF t] show ?thesis using Inr f t by (simp add: verifyImage_def split: option.splits)
  qed (use Inr in \<open>simp add: verifyImage_def split: option.splits\<close>)
qed (simp add: verifyImage_def)

end
