(* ===== verification/Windows_Identity.thy ===== *)
theory Windows_Identity
  imports Impersonation Bindings Authenticode Verdict_Cache
begin

section \<open>Windows named pipes (identity\_windows.go, bind\_windows.go, server\_windows.go)\<close>

text \<open>
  Identifying and binding the process at the other end of a named pipe. The pipe, the processes
  and their tokens answer the questions of a host record; a number tells the moments apart.
  \<open>whVerify\<close> is what \<^verbatim>\<open>verifyProcessImageAt\<close> answers, whose cache and verification have theories of
  their own. The handles the service holds open are a list that opening extends and closing
  shortens; a handle that a function both opens and closes (\<^verbatim>\<open>defer\<close>) does not appear.
\<close>

record win_host =
  whPipeServerEnd :: "nat \<Rightarrow> go_error + bool"
  whClientComputer :: "nat \<Rightarrow> go_error + string"
  whComputer :: "nat \<Rightarrow> go_error + string"
  whOrdinalEqual :: "string \<Rightarrow> string \<Rightarrow> bool"
  whImpersonate :: "nat \<Rightarrow> imp_env"
  whToken :: "nat \<Rightarrow> int \<Rightarrow> token_info option"
  whProcessToken :: "nat \<Rightarrow> int \<Rightarrow> go_error + token_info"
  whAccount :: "string \<Rightarrow> go_error + string \<times> string"
  whClientPid :: "nat \<Rightarrow> go_error + 32 word"
  whServerPid :: "nat \<Rightarrow> go_error + 32 word"
  whOpen :: "nat \<Rightarrow> 32 word \<Rightarrow> go_error + int"
  whStart :: "nat \<Rightarrow> int \<Rightarrow> go_error + Time"
  whImage :: "nat \<Rightarrow> int \<Rightarrow> go_error + string"
  whPackage :: "nat \<Rightarrow> int \<Rightarrow> go_error + string"
  whVerify :: "nat \<Rightarrow> int \<Rightarrow> codeVerdictKey \<Rightarrow> go_error + verdict"
  whExit :: "nat \<Rightarrow> int \<Rightarrow> go_error + 32 word"
  whClose :: "nat \<Rightarrow> int \<Rightarrow> error"
  whNow :: "nat \<Rightarrow> Time"
  whErrText :: "go_error \<Rightarrow> string"
  whShowTime :: "Time \<Rightarrow> string"

definition win_ceiling :: Limits where
  "win_ceiling =
     \<lparr>lPlatform = ''windows'',
      lBest = \<lparr>nUser = ProofKernel, nProcess = ProofKernel, nPath = ProofBound, nPackage = ProofSigned, nCode = ProofBound\<rparr>,
      lWhy = [''user'' \<mapsto> ''the token behind ImpersonateNamedPipeClient is the kernel's own record of the connecting thread's principal'',
        ''process'' \<mapsto> ''the kernel records the client's process id on the pipe instance when the client opens it'',
        ''path'' \<mapsto> ''the image path is read through a process handle whose creation time predates the connection, '' @
          ''which excludes pid reuse; it is still only a name the kernel keeps, not a statement about the code that is running'',
        ''package'' \<mapsto> ''an MSIX package full name encodes the publisher identity from the certificate Windows validated '' @
          ''when it installed the package, and no unpackaged process can be given one'',
        ''code'' \<mapsto> ''Authenticode verifies a file, and Windows exposes no way to verify the image mapping a running '' @
          ''process is actually executing; see CONTRACT.md''],
      lTransport = ''npipe'', lBindable = True,
      lBinding = ''an open process handle. The kernel writes the client's process id onto the pipe instance when the client '' @
        ''opens it, so it never follows a later writer; a Windows process cannot replace its own image, so the program behind '' @
        ''that id is fixed for its whole life; and while a handle to the process object is open the id cannot be reassigned. '' @
        ''Bind holds one from accept, which leaves no window'',
      lStronger = []\<rparr>"

definition ERROR_PIPE_LOCAL :: go_error where "ERROR_PIPE_LOCAL = Errno 229"

definition requireLocalPeer :: "win_host \<Rightarrow> nat \<Rightarrow> error" where
  "requireLocalPeer h t =
     (case whClientComputer h t of
        Inl err \<Rightarrow> if errors_is err ERROR_PIPE_LOCAL then None else Some (Errorf [Err ErrUnsupportedConn])
      | Inr client \<Rightarrow>
          (case whComputer h t of
             Inl err \<Rightarrow> Some (Errorf [Err ErrUnsupportedConn])
           | Inr local \<Rightarrow> if \<not> whOrdinalEqual h client local then Some (Errorf [Err ErrRemotePeer]) else None))"

subsection \<open>Resolving a peer\<close>

definition win_unresolved :: "Time \<Rightarrow> Peer" where
  "win_unresolved now =
     \<lparr>pPlatform = ''windows'', pTransport = ''npipe'', pObservedAt = now,
      pUser = unknown zero_User ''user'' ''not resolved'', pProcess = unknown zero_Process ''process'' ''not resolved'',
      pPath = unknown [] ''path'' ''not resolved'', pPackage = unknown [] ''package'' ''not resolved'',
      pCode = unknown zero_Code ''code'' ''not resolved'', pNotes = [], pEvidenceValidUntil = 0\<rparr>"

text \<open>Nothing is read out of the pid: path, package and code carry the reason.\<close>

definition nothing_read :: "string \<Rightarrow> Peer \<Rightarrow> Peer" where
  "nothing_read why p =
     p\<lparr>pPath := unknown [] ''path'' why, pPackage := unknown [] ''package'' why, pCode := unknown zero_Code ''code'' why\<rparr>"

definition verdict_key :: "32 word \<Rightarrow> Time \<Rightarrow> string \<Rightarrow> Options option \<Rightarrow> codeVerdictKey" where
  "verdict_key pid started img opts =
     \<lparr>ckPid = pid, ckStarted = started, ckImage = img, ckRevocation = checkRevocation opts\<rparr>"

definition whyAuthenticode :: string where
  "whyAuthenticode = ''Authenticode verified the file at the peer's image path, not the image the peer is executing''"

text \<open>Steps 6 to 8: the path, the package and the code, through the pinned handle.\<close>

definition win_path :: "win_host \<Rightarrow> nat \<Rightarrow> int \<Rightarrow> Peer \<Rightarrow> Peer" where
  "win_path h t proc p =
     (case whImage h t proc of
        Inl err \<Rightarrow> add_note (''path: '' @ whErrText h err)
          (p\<lparr>pPath := unknown [] ''path'' (''QueryFullProcessImageName failed: '' @ whErrText h err)\<rparr>)
      | Inr img \<Rightarrow> p\<lparr>pPath := attr ''path'' img ProofBound
          ''read through a process handle that cannot be a recycled pid; a path is not an identity - see CONTRACT.md''\<rparr>)"

definition win_package :: "win_host \<Rightarrow> nat \<Rightarrow> int \<Rightarrow> Peer \<Rightarrow> Peer" where
  "win_package h t proc p =
     (case whPackage h t proc of
        Inl err \<Rightarrow> p\<lparr>pPackage := unknown [] ''package'' (''GetPackageFullName failed: '' @ whErrText h err)\<rparr>
      | Inr nm \<Rightarrow>
          if nm = [] then p\<lparr>pPackage := unknown [] ''package''
            ''the peer is an ordinary executable, not an MSIX package; Windows has no package identity to give''\<rparr>
          else p\<lparr>pPackage := attr ''package'' nm ProofSigned
            (''an MSIX package full name; its publisher hash comes from the certificate Windows validated when the package '' @
             ''was installed'')\<rparr>)"

definition win_code :: "win_host \<Rightarrow> Options option \<Rightarrow> nat \<Rightarrow> int \<Rightarrow> 32 word \<Rightarrow> Time \<Rightarrow> Peer \<Rightarrow> Peer" where
  "win_code h opts t proc pid started p =
     (if skipCodeSignature opts then p\<lparr>pCode := unknown zero_Code ''code'' ''signature verification was skipped by the caller''\<rparr>
      else if \<not> Known (pPath p) then p\<lparr>pCode := unknown zero_Code ''code'' ''there is no image path to verify''\<rparr>
      else (case whVerify h t proc (verdict_key pid started (attr_value (pPath p)) opts) of
              Inl err \<Rightarrow> add_note (''code: '' @ whErrText h err)
                (p\<lparr>pCode := unknown zero_Code ''code'' (''verification could not be performed: '' @ whErrText h err)\<rparr>)
            | Inr (code, verdict, verifiedAt) \<Rightarrow>
                (recordCode p code verdict (whyAuthenticode @ ''; Windows cannot verify the latter''))
                  \<lparr>pEvidenceValidUntil := verifiedAt + codeVerdictLifetime\<rparr>))"

definition win_pinned :: "win_host \<Rightarrow> Options option \<Rightarrow> nat \<Rightarrow> int \<Rightarrow> 32 word \<Rightarrow> Time \<Rightarrow> Peer \<Rightarrow> Peer" where
  "win_pinned h opts t proc pid started p =
     (let p = p\<lparr>pProcess := attr ''process'' (zero_Process\<lparr>prPID := uint pid, prStartTime := started\<rparr>) ProofKernel
            (''the pid came from the kernel's record of this pipe instance; the start time predates the '' @
             ''connection, so it is not a recycled pid'')\<rparr>;
          p = win_path h t proc p;
          p = win_package h (t + 1) proc p
      in win_code h opts (t + 2) proc pid started p)"

text \<open>Steps 4 to 8; \<open>since\<close> is when the connection existed, \<open>p\<close> carries the user.\<close>

definition win_process :: "win_host \<Rightarrow> Options option \<Rightarrow> Time \<Rightarrow> nat \<Rightarrow> Peer \<Rightarrow> Peer" where
  "win_process h opts since t p =
     (case whClientPid h t of
        Inl err \<Rightarrow> add_note (''process: the kernel would not name the client process ('' @ whErrText h err @ '')'')
          (p\<lparr>pProcess := unknown zero_Process ''process'' (''GetNamedPipeClientProcessId failed: '' @ whErrText h err)\<rparr>)
      | Inr pid \<Rightarrow>
          (let proc0 = zero_Process\<lparr>prPID := uint pid\<rparr> in
           case whOpen h (t + 1) pid of
             Inl err \<Rightarrow>
               nothing_read ''the peer process was gone before it could be pinned''
                 (add_note (''process: pid '' @ itoa (uint pid) @ '' could not be opened ('' @ whErrText h err @
                    ''); path, package and code are unavailable'')
                   (p\<lparr>pProcess := attr ''process'' proc0 ProofKernel (''the process could not be opened ('' @ whErrText h err @
                     ''), so it could not be checked for pid reuse and nothing was read out of the pid'')\<rparr>))
           | Inr proc \<Rightarrow>
               (case whStart h (t + 2) proc of
                  Inl err \<Rightarrow>
                    nothing_read ''pid reuse could not be excluded''
                      (add_note (''process: could not read the start time of pid '' @ itoa (uint pid) @ '' ('' @ whErrText h err @
                         ''); path, package and code are unavailable'')
                        (p\<lparr>pProcess := attr ''process'' proc0 ProofKernel (''the process start time could not be read ('' @
                          whErrText h err @ ''), so pid reuse could not be excluded'')\<rparr>))
                | Inr started \<Rightarrow>
                    if since < started then
                      (let reused = ''pid '' @ itoa (uint pid) @ '' now belongs to a process created at '' @ whShowTime h started @
                             '', after this connection existed at '' @ whShowTime h since @ ''; it is not the peer''
                       in nothing_read reused (add_note (''process: '' @ reused)
                            (p\<lparr>pProcess := attr ''process'' (proc0\<lparr>prStartTime := started, prRecycled := True\<rparr>) ProofKernel reused\<rparr>)))
                    else win_pinned h opts (t + 3) proc pid started p)))"

definition win_ofHandle :: "win_host \<Rightarrow> Options option \<Rightarrow> nat \<Rightarrow> go_error + Peer" where
  "win_ofHandle h opts t =
     (let since = connectedAt opts (whNow h t); p = win_unresolved (whNow h t) in
      case whPipeServerEnd h t of
        Inl err \<Rightarrow> Inl (Errorf [Err ErrUnsupportedConn])
      | Inr server \<Rightarrow>
          if \<not> server then Inl (Err ErrNotServerEnd)
          else (case requireLocalPeer h (t + 1) of
                  Some err \<Rightarrow> Inl err
                | None \<Rightarrow>
                    (case fst (peerUser (whImpersonate h (t + 2)) (whToken h (t + 2)) (whAccount h) (whErrText h)) of
                       Inr (user, why) \<Rightarrow>
                         (let p = p\<lparr>pUser := attr ''user'' user ProofKernel why\<rparr>;
                              p = (if why \<noteq> [] then add_note (''user: '' @ why) p else p)
                          in Inr (win_process h opts since (t + 3) p))
                     | Inl err \<Rightarrow>
                         if errors_is err errAnonymousClient then
                           (let why = whErrText h errAnonymousClient in
                            Inr (win_process h opts since (t + 3) (add_note (''user: '' @ why) (p\<lparr>pUser := unknown zero_User ''user'' why\<rparr>))))
                         else Inl err)))"

subsection \<open>Binding the client\<close>

definition stillActive :: "32 word" where "stillActive = 259"

record windowsBinding =
  wbProc :: int
  wbPid :: "32 word"
  wbStarted :: Time

type_synonym win_handle = "windowsBinding \<times> int list"

definition win_release :: "win_host \<times> nat \<Rightarrow> win_handle \<Rightarrow> error \<times> win_handle" where
  "win_release = (\<lambda>(h, t) (b, hs).
     if wbProc b = 0 then (None, (b, hs))
     else (whClose h t (wbProc b), (b\<lparr>wbProc := 0\<rparr>, remove1 (wbProc b) hs)))"

definition win_alive :: "win_host \<times> nat \<Rightarrow> win_handle \<Rightarrow> go_error + bool" where
  "win_alive = (\<lambda>(h, t) (b, hs). case whExit h t (wbProc b) of Inl err \<Rightarrow> Inl err | Inr code \<Rightarrow> Inr (code = stillActive))"

text \<open>Only a contradiction refuses: another start time of the held process, where one can be read.\<close>

definition start_contradicted :: "win_host \<Rightarrow> nat \<Rightarrow> windowsBinding \<Rightarrow> error" where
  "start_contradicted h t b =
     (case whStart h t (wbProc b) of
        Inr started \<Rightarrow> if started \<noteq> wbStarted b then Some (Errorf [Err ErrPeerMoved]) else None
      | Inl err \<Rightarrow> None)"

definition win_recheck :: "win_host \<times> nat \<Rightarrow> win_handle \<Rightarrow> error" where
  "win_recheck = (\<lambda>(h, t) (b, hs).
     case whClientPid h t of
       Inr pid \<Rightarrow> if pid \<noteq> wbPid b then Some (Errorf [Err ErrPeerMoved]) else start_contradicted h (t + 1) b
     | Inl err \<Rightarrow> start_contradicted h (t + 1) b)"

definition win_binder :: "(win_host \<times> nat, win_handle) Binder" where
  "win_binder = \<lparr>recheck = win_recheck, alive = win_alive, release = win_release\<rparr>"

definition win_bindHandle :: "win_host \<Rightarrow> Options option \<Rightarrow> nat \<Rightarrow> int list \<Rightarrow> (go_error + windowsBinding \<times> Peer) \<times> int list" where
  "win_bindHandle h opts t hs =
     (case whPipeServerEnd h t of
        Inl err \<Rightarrow> (Inl (Errorf [Err ErrUnsupportedConn]), hs)
      | Inr server \<Rightarrow>
          if \<not> server then (Inl (Err ErrNotServerEnd), hs)
          else (case requireLocalPeer h (t + 1) of
                  Some err \<Rightarrow> (Inl err, hs)
                | None \<Rightarrow>
                    (case whClientPid h (t + 2) of
                       Inl err \<Rightarrow> (Inl (Errorf [Err ErrNoBinding]), hs)
                     | Inr pid \<Rightarrow>
                         (case whOpen h (t + 3) pid of
                            Inl err \<Rightarrow> (Inl (Errorf [Err ErrPeerGone]), hs)
                          | Inr proc \<Rightarrow>
                              (let hs1 = proc # hs; b = \<lparr>wbProc = proc, wbPid = pid, wbStarted = 0\<rparr>;
                                   fail = (\<lambda>err. (Inl err, snd (snd (win_release (h, t) (b, hs1)))))
                               in case whStart h (t + 4) proc of
                                    Inl err \<Rightarrow> fail (Errorf [Err ErrNoBinding])
                                  | Inr started \<Rightarrow>
                                      if connectedAt opts (whNow h (t + 4)) < started then fail (Errorf [Err ErrPeerMoved])
                                      else (case win_ofHandle h opts (t + 5) of
                                              Inl err \<Rightarrow> fail err
                                            | Inr peer \<Rightarrow> (Inr (b\<lparr>wbStarted := started\<rparr>, peer), hs1)))))))"

subsection \<open>Binding the server\<close>

record windowsServerBinding = windowsBinding +
  wsSid :: string

type_synonym win_server_handle = "windowsServerBinding \<times> int list"

definition serverPrincipal :: "win_host \<Rightarrow> nat \<Rightarrow> int \<Rightarrow> go_error + User" where
  "serverPrincipal h t proc =
     (case whProcessToken h t proc of
        Inl err \<Rightarrow> Inl err
      | Inr tok \<Rightarrow>
          (case tkUser tok of
             Inl err \<Rightarrow> Inl err
           | Inr sid \<Rightarrow> Inr (zero_User\<lparr>uKind := ''windows'', uSID := sid, uUID := -1, uGID := -1\<rparr>)))"

definition win_server_recheck :: "win_host \<times> nat \<Rightarrow> win_server_handle \<Rightarrow> error" where
  "win_server_recheck = (\<lambda>(h, t) (b, hs).
     case whServerPid h t of
       Inl err \<Rightarrow> Some (Errorf [Err ErrNoBinding])
     | Inr pid \<Rightarrow>
         if pid \<noteq> wbPid b then Some (Err ErrPeerMoved)
         else (case serverPrincipal h (t + 1) (wbProc b) of
                 Inl err \<Rightarrow> Some err
               | Inr u \<Rightarrow> if uSID u \<noteq> wsSid b then Some (Err ErrPeerMoved) else None))"

definition win_server_release :: "win_host \<times> nat \<Rightarrow> win_server_handle \<Rightarrow> error \<times> win_server_handle" where
  "win_server_release = (\<lambda>(h, t) (b, hs).
     if wbProc b = 0 then (None, (b, hs))
     else (whClose h t (wbProc b), (b\<lparr>wbProc := 0\<rparr>, remove1 (wbProc b) hs)))"

definition win_server_alive :: "win_host \<times> nat \<Rightarrow> win_server_handle \<Rightarrow> go_error + bool" where
  "win_server_alive = (\<lambda>(h, t) (b, hs). case whExit h t (wbProc b) of Inl err \<Rightarrow> Inl err | Inr code \<Rightarrow> Inr (code = stillActive))"

definition win_server_binder :: "(win_host \<times> nat, win_server_handle) Binder" where
  "win_server_binder = \<lparr>recheck = win_server_recheck, alive = win_server_alive, release = win_server_release\<rparr>"

definition win_server_peer :: "Time \<Rightarrow> User \<Rightarrow> 32 word \<Rightarrow> Time \<Rightarrow> string \<Rightarrow> Peer" where
  "win_server_peer now u pid started path =
     \<lparr>pPlatform = ''windows'', pTransport = ''npipe'', pObservedAt = now,
      pUser = attr ''user'' u ProofBound ''server process primary token read through retained process handle; rechecked before I/O'',
      pProcess = attr ''process'' (zero_Process\<lparr>prPID := uint pid, prStartTime := started\<rparr>) ProofKernel
        ''pipe server PID with retained process creation time'',
      pPath = attr ''path'' path ProofBound ''image path read through retained server process handle'',
      pPackage = unknown [] ''package'' ''not requested'', pCode = unknown zero_Code ''code'' ''not requested'',
      pNotes = [], pEvidenceValidUntil = 0\<rparr>"

definition win_bindServerHandle ::
  "win_host \<Rightarrow> Options option \<Rightarrow> nat \<Rightarrow> int list \<Rightarrow> (go_error + windowsServerBinding \<times> Peer) \<times> int list" where
  "win_bindServerHandle h opts t hs =
     (case whPipeServerEnd h t of
        Inl err \<Rightarrow> (Inl err, hs)
      | Inr server \<Rightarrow>
          if server then (Inl (Err ErrUnsupportedConn), hs)
          else (case whServerPid h (t + 1) of
                  Inl err \<Rightarrow> (Inl (Errorf [Err ErrNoBinding]), hs)
                | Inr pid \<Rightarrow>
                    (case whOpen h (t + 2) pid of
                       Inl err \<Rightarrow> (Inl (Errorf [Err ErrNoBinding]), hs)
                     | Inr proc \<Rightarrow>
                         (let hs1 = proc # hs; b = \<lparr>wbProc = proc, wbPid = pid, wbStarted = 0, wsSid = []\<rparr>;
                              fail = (\<lambda>err. (Inl err, snd (snd (win_server_release (h, t) (b, hs1)))))
                          in case whStart h (t + 3) proc of
                               Inl err \<Rightarrow> fail err
                             | Inr started \<Rightarrow>
                                 if connectedAt opts (whNow h (t + 3)) < started then fail (Err ErrPeerMoved)
                                 else (case serverPrincipal h (t + 4) proc of
                                         Inl err \<Rightarrow> fail err
                                       | Inr u \<Rightarrow>
                                           (case whImage h (t + 5) proc of
                                              Inl err \<Rightarrow> fail err
                                            | Inr path \<Rightarrow>
                                                (let b = b\<lparr>wbStarted := started, wsSid := uSID u\<rparr> in
                                                 case win_server_recheck (h, t + 6) (b, hs1) of
                                                   Some err \<Rightarrow> fail err
                                                 | None \<Rightarrow> (Inr (b, win_server_peer (whNow h (t + 8)) u pid started path), hs1))))))))"

subsection \<open>What a resolved peer can say\<close>

lemma nothing_read_sels [simp]:
  "pUser (nothing_read w p) = pUser p" "pProcess (nothing_read w p) = pProcess p"
  "attr_proof (pPath (nothing_read w p)) = ProofNone" "attr_proof (pPackage (nothing_read w p)) = ProofNone"
  "attr_proof (pCode (nothing_read w p)) = ProofNone"
  by (simp_all add: nothing_read_def)

lemma win_path_sels [simp]:
  "pUser (win_path h t q p) = pUser p" "pProcess (win_path h t q p) = pProcess p" "pPackage (win_path h t q p) = pPackage p"
  "pCode (win_path h t q p) = pCode p"
  by (auto simp: win_path_def split: sum.splits)

lemma win_package_sels [simp]:
  "pUser (win_package h t q p) = pUser p" "pProcess (win_package h t q p) = pProcess p" "pPath (win_package h t q p) = pPath p"
  "pCode (win_package h t q p) = pCode p"
  by (auto simp: win_package_def split: sum.splits)

lemma win_code_sels [simp]:
  "pUser (win_code h opts t q pid st p) = pUser p" "pProcess (win_code h opts t q pid st p) = pProcess p"
  "pPath (win_code h opts t q pid st p) = pPath p" "pPackage (win_code h opts t q pid st p) = pPackage p"
  by (auto simp: win_code_def split: sum.splits)

lemma win_path_rung:
  "attr_proof (pPath (win_path h t q p)) = (case whImage h t q of Inl _ \<Rightarrow> ProofNone | Inr _ \<Rightarrow> ProofBound)"
  by (auto simp: win_path_def split: sum.splits)

lemma win_package_rung: "attr_proof (pPackage (win_package h t q p)) = ProofNone \<or> attr_proof (pPackage (win_package h t q p)) = ProofSigned"
  by (auto simp: win_package_def split: sum.splits)

text \<open>What the verification promises of its verdicts: none above \<^verbatim>\<open>ProofBound\<close>.\<close>

definition verdicts_bounded :: "win_host \<Rightarrow> bool" where
  "verdicts_bounded h \<longleftrightarrow> (\<forall>t q key code verdict at. whVerify h t q key = Inr (code, verdict, at) \<longrightarrow> verdict \<le> ProofBound)"

lemma win_code_rung: "verdicts_bounded h \<Longrightarrow> attr_proof (pCode (win_code h opts t q pid st p)) \<le> ProofBound"
  by (auto simp: win_code_def verdicts_bounded_def ladder_simps split: sum.splits)

lemma win_pinned_sels [simp]:
  "pUser (win_pinned h opts t q pid st p) = pUser p"
  "attr_proof (pProcess (win_pinned h opts t q pid st p)) = ProofKernel"
  "attr_value (pProcess (win_pinned h opts t q pid st p)) = zero_Process\<lparr>prPID := uint pid, prStartTime := st\<rparr>"
  "pPath (win_pinned h opts t q pid st p) = pPath (win_path h t q p)"
  by (auto simp: win_pinned_def Let_def win_path_def split: sum.splits)

lemma win_pinned_rungs:
  "attr_proof (pPackage (win_pinned h opts t q pid st p)) \<le> ProofSigned"
  "verdicts_bounded h \<Longrightarrow> attr_proof (pCode (win_pinned h opts t q pid st p)) \<le> ProofBound"
proof -
  have "attr_proof (pPackage (win_package h t q p)) \<le> ProofSigned" for t q p
    using win_package_rung [of h t q p] by (auto simp: rung_defs)
  then show "attr_proof (pPackage (win_pinned h opts t q pid st p)) \<le> ProofSigned" by (simp add: win_pinned_def Let_def)
qed (simp add: win_pinned_def Let_def win_code_rung)

lemma win_process_rungs:
  assumes "verdicts_bounded h" "attr_proof (pPath p) = ProofNone" "attr_proof (pPackage p) = ProofNone" "attr_proof (pCode p) = ProofNone"
  shows "pUser (win_process h opts since t p) = pUser p" "attr_proof (pProcess (win_process h opts since t p)) \<le> ProofKernel"
    "attr_proof (pPath (win_process h opts since t p)) \<le> ProofBound" "attr_proof (pPackage (win_process h opts since t p)) \<le> ProofSigned"
    "attr_proof (pCode (win_process h opts since t p)) \<le> ProofBound"
  using assms win_pinned_rungs(1) win_pinned_rungs(2) [OF assms(1)]
  by (auto simp: win_process_def Let_def win_path_rung ladder_simps split: sum.splits)

lemma win_ofHandle_InrE:
  assumes "win_ofHandle h opts t = Inr p"
  obtains p0 where "p = win_process h opts (connectedAt opts (whNow h t)) (t + 3) p0" "attr_proof (pUser p0) \<le> ProofKernel"
    "attr_proof (pPath p0) = ProofNone" "attr_proof (pPackage p0) = ProofNone" "attr_proof (pCode p0) = ProofNone"
    "requireLocalPeer h (t + 1) = None" "whPipeServerEnd h t = Inr True"
  using assms
  by (fastforce simp: win_ofHandle_def Let_def win_unresolved_def ladder_simps split: sum.splits option.splits if_splits)

lemma win_ofHandle_within:
  assumes "verdicts_bounded h" "win_ofHandle h opts t = Inr p"
  shows "need_le (rungs p) (lBest win_ceiling)"
  using assms(2)
proof (rule win_ofHandle_InrE)
  fix p0
  assume "p = win_process h opts (connectedAt opts (whNow h t)) (t + 3) p0" "attr_proof (pUser p0) \<le> ProofKernel"
    "attr_proof (pPath p0) = ProofNone" "attr_proof (pPackage p0) = ProofNone" "attr_proof (pCode p0) = ProofNone"
  then show ?thesis
    using win_process_rungs [OF assms(1), of p0] by (simp add: need_le_def rungs_def win_ceiling_def)
qed

lemma win_bindHandle_InrE:
  assumes "win_bindHandle h opts t hs = (Inr (b, p), hs')"
  obtains "whClientPid h (t + 2) = Inr (wbPid b)" "whOpen h (t + 3) (wbPid b) = Inr (wbProc b)"
    "whStart h (t + 4) (wbProc b) = Inr (wbStarted b)" "wbStarted b \<le> connectedAt opts (whNow h (t + 4))"
    "win_ofHandle h opts (t + 5) = Inr p" "hs' = wbProc b # hs"
  using assms by (auto simp: win_bindHandle_def Let_def split: option.splits sum.splits if_splits)

interpretation win_bind: reliant_transport
  "\<lambda>(h, opts, t, hs). verdicts_bounded h" "\<lambda>_. win_ceiling"
  "\<lambda>(h, opts, t, hs). map_sum id snd (fst (win_bindHandle h opts t hs))"
proof unfold_locales
  fix a :: "win_host \<times> Options option \<times> nat \<times> int list" and p
  obtain h opts t hs where a: "a = (h, opts, t, hs)" by (cases a)
  assume r: "case a of (h, opts, t, hs) \<Rightarrow> verdicts_bounded h"
    and "(case a of (h, opts, t, hs) \<Rightarrow> map_sum id snd (fst (win_bindHandle h opts t hs))) = Inr p"
  then obtain b where "win_bindHandle h opts t hs = (Inr (b, p), snd (win_bindHandle h opts t hs))"
    by (cases "win_bindHandle h opts t hs"; cases "fst (win_bindHandle h opts t hs)") (auto simp: a)
  then show "need_le (rungs p) (lBest win_ceiling)"
    using r by (auto simp: a elim!: win_bindHandle_InrE intro: win_ofHandle_within)
qed

interpretation win_proc: handle_owner win_binder "\<lambda>(b, hs). wbProc b = 0"
  by unfold_locales (auto simp: win_binder_def win_release_def split: prod.splits)

interpretation win_server_proc: handle_owner win_server_binder "\<lambda>(b, hs). wbProc b = 0"
  by unfold_locales (auto simp: win_server_binder_def win_server_release_def split: prod.splits)

subsection \<open>The verdict cache keeps the promise\<close>

text \<open>
  A host whose verdicts are the answers of a verdict cache, all of whose verifications were
  Authenticode verifications of a program file.
\<close>

definition answers_of :: "verdict_world \<Rightarrow> win_host \<Rightarrow> bool" where
  "answers_of w h \<longleftrightarrow> (\<forall>t q key v. whVerify h t q key = Inr v \<longrightarrow> (\<exists>asked. (key, asked, Inr v) \<in> set (wsAnswers w)))"

definition by_verifyImage :: "verdict_world \<Rightarrow> bool" where
  "by_verifyImage w \<longleftrightarrow> (\<forall>(key, code, verdict, at) \<in> wsVerified w.
     \<exists>env opts log. checkRevocation opts = ckRevocation key \<and> verifyImage env (ckImage key) opts = (Some (Inr (code, verdict)), log))"

lemma answered_verdicts_bounded:
  assumes "verdict_step\<^sup>*\<^sup>* fresh_world w" "answers_of w h" "by_verifyImage w"
  shows "verdicts_bounded h"
  unfolding verdicts_bounded_def
proof (intro allI impI)
  fix t q key code verdict at
  assume "whVerify h t q key = Inr (code, verdict, at)"
  then obtain asked where "(key, asked, Inr (code, verdict, at)) \<in> set (wsAnswers w)" using assms(2) unfolding answers_of_def by blast
  then have "answer_ok (wsVerified w) (key, asked, Inr (code, verdict, at))"
    using verdict_reachable_ok [OF assms(1)] unfolding world_ok_def by blast
  then have "(key, code, verdict, at) \<in> wsVerified w" by (simp add: answer_ok_def)
  then obtain env opts log where "verifyImage env (ckImage key) opts = (Some (Inr (code, verdict)), log)"
    using assms(3) unfolding by_verifyImage_def by blast
  from verifyImage_verdict [OF this] show "verdict \<le> ProofBound" by (auto simp: rung_defs)
qed

text \<open>
  C24: on Windows a policy that \<^verbatim>\<open>CanEver\<close> refuses at start-up is refused for every peer \<^verbatim>\<open>Bind\<close>
  captures from a named pipe, whatever the system answers. Code verdicts come from the verdict
  cache, whatever callers use it and however they interleave, and its verdicts from Authenticode
  verifications.
\<close>

theorem windows_ceiling_sound:
  assumes "CanEver win_ceiling n = Some e" and "win_bindHandle h opts t hs = (Inr (b, p), hs')"
    and "verdict_step\<^sup>*\<^sup>* fresh_world w" and "answers_of w h" and "by_verifyImage w"
  shows "\<exists>e'. Check p n = Some e' \<and> errors_is e' (Err ErrNotProven)"
  using win_bind.impossible_policy_refuses_all [of "(h, opts, t, hs)" n e p] assms answered_verdicts_bounded [of w h] by simp

subsection \<open>The process that is described is the one that is held\<close>

lemma win_process_known:
  assumes "Known (pPath (win_process h opts since t p))" "attr_proof (pPath p) = ProofNone"
  obtains pid q st img where "whClientPid h t = Inr pid" "whOpen h (t + 1) pid = Inr q" "whStart h (t + 2) q = Inr st" "st \<le> since"
    "whImage h (t + 3) q = Inr img" "attr_value (pPath (win_process h opts since t p)) = img"
    "attr_proof (pProcess (win_process h opts since t p)) = ProofKernel"
    "attr_value (pProcess (win_process h opts since t p)) = zero_Process\<lparr>prPID := uint pid, prStartTime := st\<rparr>"
proof (cases "whClientPid h t")
  case (Inl err)
  then show ?thesis using assms by (simp add: win_process_def Known_def)
next
  case (Inr pid)
  show ?thesis
  proof (cases "whOpen h (t + 1) pid")
    case (Inl err)
    then show ?thesis using assms Inr by (simp add: win_process_def Known_def Let_def)
  next
    case q: (Inr q)
    show ?thesis
    proof (cases "whStart h (t + 2) q")
      case (Inl err)
      then show ?thesis using assms Inr q by (simp add: win_process_def Known_def Let_def)
    next
      case st: (Inr st)
      show ?thesis
      proof (cases "since < st")
        case True
        then show ?thesis using assms Inr q st by (simp add: win_process_def Known_def Let_def)
      next
        case False
        then have e: "win_process h opts since t p = win_pinned h opts (t + 3) q pid st p"
          using Inr q st by (simp add: win_process_def Let_def)
        then obtain img where "whImage h (t + 3) q = Inr img"
          using assms(1) by (cases "whImage h (t + 3) q") (simp_all add: Known_def win_path_rung)
        then show ?thesis using False Inr q st that [of pid q st img] by (simp add: e win_path_def)
      qed
    qed
  qed
qed

text \<open>
  The documented behaviour of Windows a pipe binding relies on: the process id the kernel wrote
  onto the pipe instance never changes, and while a handle to a process is open its id is not
  given to another, so opening the id again reaches a process with the same creation time.
\<close>

definition pid_recorded :: "win_host \<Rightarrow> bool" where
  "pid_recorded h \<longleftrightarrow> (\<forall>t t' x y. whClientPid h t = Inr x \<longrightarrow> whClientPid h t' = Inr y \<longrightarrow> x = y)"

definition held_pid_kept :: "win_host \<Rightarrow> nat \<Rightarrow> 32 word \<Rightarrow> int \<Rightarrow> bool" where
  "held_pid_kept h t pid held \<longleftrightarrow> (\<forall>t' q t1 t2 s1 s2. t < t' \<longrightarrow> whOpen h t' pid = Inr q \<longrightarrow>
     whStart h t1 q = Inr s1 \<longrightarrow> whStart h t2 held = Inr s2 \<longrightarrow> s1 = s2)"


lemma win_released [simp]: "wbProc b \<noteq> 0 \<Longrightarrow> snd (snd (win_release w (b, wbProc b # hs))) = hs"
  by (cases w) (simp add: win_release_def)

lemma win_server_released [simp]: "wbProc b \<noteq> 0 \<Longrightarrow> snd (snd (win_server_release w (b, wbProc b # hs))) = hs"
  by (cases w) (simp add: win_server_release_def)

text \<open>
  On Windows a bind keeps the process handle it hands out and no other. Opening a process never
  answers the null handle; then every refused bind of a pipe's client or server leaves the handles
  as they were, a successful one adds exactly the binding's, and closing that binding gives it
  back.
\<close>

theorem windows_bind_no_leak:
  assumes "\<And>t pid. whOpen h t pid \<noteq> Inr 0"
  shows "(case win_bindHandle h opts t hs of (Inl err, hs') \<Rightarrow> hs' = hs
      | (Inr (b, p), hs') \<Rightarrow> hs' = wbProc b # hs \<and> snd (snd (win_release w (b, hs'))) = hs) \<and>
    (case win_bindServerHandle h opts t hs of (Inl err, hs') \<Rightarrow> hs' = hs
      | (Inr (b, p), hs') \<Rightarrow> hs' = wbProc b # hs \<and> snd (snd (win_server_release w (b, hs'))) = hs)"
proof -
  have z: "whOpen h t pid = Inr q \<Longrightarrow> q \<noteq> 0" for t pid q using assms [of t pid] by auto
  have r: "q \<noteq> 0 \<Longrightarrow> snd (snd (win_release w (\<lparr>wbProc = q, wbPid = pid, wbStarted = s\<rparr>, q # hs))) = hs" for w q pid s
    by (cases w) (simp add: win_release_def)
  have rs: "q \<noteq> 0 \<Longrightarrow> snd (snd (win_server_release w (\<lparr>wbProc = q, wbPid = pid, wbStarted = s, wsSid = sid\<rparr>, q # hs))) = hs" for w q pid s sid
    by (cases w) (simp add: win_server_release_def)
  show ?thesis
    by (auto simp: win_bindHandle_def win_bindServerHandle_def Let_def r rs split: sum.splits option.splits dest!: z)
qed

text \<open>
  A user that could not be read safely is never reported: when the client's token cannot be
  dropped, resolving the peer fails with \<^verbatim>\<open>ErrImpersonationStuck\<close>.
\<close>

theorem stuck_reports_nobody:
  assumes "ieImpersonate (whImpersonate h (t + 2)) = None" "ieRevert (whImpersonate h (t + 2)) = Some err"
  shows "case win_ofHandle h opts t of Inr p \<Rightarrow> False | Inl e \<Rightarrow> whPipeServerEnd h t = Inr True \<longrightarrow> requireLocalPeer h (t + 1) = None \<longrightarrow>
    errors_is e (Err ErrImpersonationStuck)"
proof -
  have "fst (peerUser (whImpersonate h (t + 2)) token account tx) = Inl (Errorf [Err ErrImpersonationStuck])" for token account tx
    using assms by (auto simp: peerUser_def withPeerToken_def Let_def split: prod.splits)
  moreover have "\<not> errors_is (Errorf [Err ErrImpersonationStuck]) errAnonymousClient" by (simp add: errAnonymousClient_def)
  ultimately show ?thesis by (auto simp: win_ofHandle_def Let_def split: sum.splits option.splits if_splits)
qed

subsection \<open>A host to run the model on\<close>

text \<open>Process 42, created at instant 9, opened the pipe; it runs the program the catalog of the Authenticode example vouches for.\<close>

definition win_demo_key :: codeVerdictKey where
  "win_demo_key = \<lparr>ckPid = 42, ckStarted = 9, ckImage = ''ps'', ckRevocation = False\<rparr>"

definition win_demo_code :: Code where
  "win_demo_code = zero_Code\<lparr>cTrusted := True, cCatalog := True, cStatus := ''valid, signed through a system catalog'',
     cSubject := ''maker'', cIssuer := ''root'', cDescription := ''A''\<rparr>"

definition win_demo :: win_host where
  "win_demo =
     \<lparr>whPipeServerEnd = (\<lambda>t. Inr True), whClientComputer = (\<lambda>t. Inl (Errno 229)), whComputer = (\<lambda>t. Inr ''pc''),
      whOrdinalEqual = (=),
      whImpersonate = (\<lambda>t. \<lparr>ieImpersonate = None, ieThread = Inr 1, ieOpenToken = (\<lambda>th. Inr 8), ieRevert = None\<rparr>),
      whToken = (\<lambda>t tok. Some \<lparr>tkLevel = Inr 2, tkUser = Inr ''S-1-5-21'', tkCopy = None, tkElevated = False, tkLabelSize = 0,
        tkLabel = Inl (Errno 5), tkRestricted = Inr False\<rparr>),
      whProcessToken = (\<lambda>t q. Inl (Errno 5)), whAccount = (\<lambda>sid. Inr (''ann'', ''pc'')),
      whClientPid = (\<lambda>t. Inr 42), whServerPid = (\<lambda>t. Inr 42), whOpen = (\<lambda>t pid. Inr 9), whStart = (\<lambda>t q. Inr 9),
      whImage = (\<lambda>t q. Inr ''ps''), whPackage = (\<lambda>t q. Inr []),
      whVerify = (\<lambda>t q key. if key = win_demo_key then Inr (win_demo_code, ProofBound, 100) else Inl (Errno 5)),
      whExit = (\<lambda>t q. Inr 259), whClose = (\<lambda>t q. None), whNow = (\<lambda>t. 200), whErrText = (\<lambda>e. ''error''), whShowTime = itoa\<rparr>"

lemma win_demo_sels:
  "whPipeServerEnd win_demo t = Inr True" "requireLocalPeer win_demo t = None" "whClientPid win_demo t = Inr 42"
  "whOpen win_demo t pid = Inr 9" "whStart win_demo t q = Inr 9" "whImage win_demo t q = Inr ''ps''" "whNow win_demo t = 200"
  "whVerify win_demo t q key = (if key = win_demo_key then Inr (win_demo_code, ProofBound, 100) else Inl (Errno 5))"
  by (simp_all add: win_demo_def requireLocalPeer_def ERROR_PIPE_LOCAL_def)

lemma win_demo_user: "\<exists>user why th. peerUser (whImpersonate win_demo t) (whToken win_demo t) (whAccount win_demo) (whErrText win_demo) = (Inr (user, why), th)"
  by (simp add: win_demo_def peerUser_def withPeerToken_def as_client_def locked_thread_def token_facts_def SecurityAnonymous_def Let_def
      split: prod.splits)

lemma win_demo_ofHandle: "\<exists>p. win_ofHandle win_demo None t = Inr p \<and> Known (pPath p) \<and> attr_proof (pCode p) = ProofBound"
proof -
  obtain user why th where u: "peerUser (whImpersonate win_demo (t + 2)) (whToken win_demo (t + 2)) (whAccount win_demo) (whErrText win_demo) = (Inr (user, why), th)"
    using win_demo_user by blast
  have "\<exists>p. win_ofHandle win_demo None t = Inr (win_process win_demo None (connectedAt None 200) (t + 3) p)"
    using u by (auto simp: win_ofHandle_def Let_def win_demo_sels)
  moreover have "win_process win_demo None (connectedAt None 200) t p = win_pinned win_demo None (t + 3) 9 42 9 p" for t p
    by (simp add: win_process_def Let_def win_demo_sels connectedAt_def)
  moreover have "Known (pPath (win_pinned win_demo None t 9 42 9 p))" "attr_proof (pCode (win_pinned win_demo None t 9 42 9 p)) = ProofBound" for t p
    by (simp_all add: win_pinned_def Let_def win_code_def win_path_def win_demo_sels Known_def ladder_simps skipCodeSignature_def
        verdict_key_def win_demo_key_def checkRevocation_def)
  ultimately show ?thesis by auto
qed

lemma win_demo_bind:
  "\<exists>p. win_bindHandle win_demo None 0 [] = (Inr (\<lparr>wbProc = 9, wbPid = 42, wbStarted = 9\<rparr>, p), [9]) \<and> Known (pPath p) \<and>
     attr_proof (pCode p) = ProofBound"
  using win_demo_ofHandle [of 5] by (auto simp: win_bindHandle_def Let_def win_demo_sels connectedAt_def)

lemma win_demo_cache:
  "\<exists>w. verdict_step\<^sup>*\<^sup>* fresh_world w \<and> answers_of w win_demo \<and> by_verifyImage w \<and> wsVerified w = {(win_demo_key, win_demo_code, ProofBound, 100)}"
proof -
  obtain w where w: "verdict_step\<^sup>*\<^sup>* fresh_world w" "wsAnswers w = [(win_demo_key, Some 200, Inr (win_demo_code, ProofBound, 100))]"
    "wsVerified w = {(win_demo_key, win_demo_code, ProofBound, 100)}"
    using verdict_run [of win_demo_key "(win_demo_code, ProofBound, 100)"] by (auto simp: win_demo_key_def)
  have "answers_of w win_demo" using w(2) by (auto simp: answers_of_def win_demo_sels split: if_splits)
  moreover have "by_verifyImage w"
    using w(3) demo_trusted by (auto simp: by_verifyImage_def win_demo_key_def win_demo_code_def checkRevocation_def
        intro!: exI [of _ demo_trust] exI [of _ None])
  ultimately show ?thesis using w by blast
qed

theorem windows_ceiling_sound_witness:
  "\<exists>p. win_bindHandle win_demo None 0 [] = (Inr (\<lparr>wbProc = 9, wbPid = 42, wbStarted = 9\<rparr>, p), [9]) \<and> attr_proof (pCode p) = ProofBound \<and>
     (\<exists>e. Check p (zero_Need\<lparr>nCode := ProofSigned\<rparr>) = Some e)"
proof -
  obtain p where p: "win_bindHandle win_demo None 0 [] = (Inr (\<lparr>wbProc = 9, wbPid = 42, wbStarted = 9\<rparr>, p), [9])" "attr_proof (pCode p) = ProofBound"
    using win_demo_bind by blast
  have "CanEver win_ceiling (zero_Need\<lparr>nCode := ProofSigned\<rparr>) \<noteq> None"
    by (simp add: CanEver_None_iff need_le_def win_ceiling_def rung_defs)
  then obtain e where "CanEver win_ceiling (zero_Need\<lparr>nCode := ProofSigned\<rparr>) = Some e" by blast
  with windows_ceiling_sound [OF _ p(1)] win_demo_cache p show ?thesis by blast
qed


end
