(* ===== verification/Windows_Pinned.thy ===== *)
theory Windows_Pinned
  imports Windows_Identity Socket_Tables Loopback
begin

section \<open>Pinned Windows processes (unixserver\_windows.go, loopback\_windows.go)\<close>

text \<open>
  Two transports carry no token of the peer: a dialed \<^verbatim>\<open>AF_UNIX\<close> socket, whose server's process id the
  kernel tells, and a loopback TCP connection, whose client's creator the TCP owner table names.
  Both pin that process with a handle, ask again behind the pin, and read the peer through it.
\<close>

record pinned_host =
  phWin :: win_host
  phUnixPid :: "nat \<Rightarrow> go_error + 32 word"
  phTcpTable :: "nat \<Rightarrow> table_call"

subsection \<open>The peer behind a pinned handle\<close>

definition processUser :: "win_host \<Rightarrow> nat \<Rightarrow> int \<Rightarrow> go_error + User \<times> string" where
  "processUser h t proc =
     (case whProcessToken h t proc of
        Inl err \<Rightarrow> Inl err
      | Inr tok \<Rightarrow>
          (case tkUser tok of
             Inl err \<Rightarrow> Inl err
           | Inr sid \<Rightarrow>
               (case tkCopy tok of
                  Some err \<Rightarrow> Inl err
                | None \<Rightarrow>
                    (let label = readTokenLabel (whErrText h) tok; user = windows_user sid (tkElevated tok) label in
                     case whAccount h sid of
                       Inr (nm, domain) \<Rightarrow> Inr (user\<lparr>uName := nm, uDomain := domain\<rparr>, tlWhy label)
                     | Inl err \<Rightarrow> Inr (user, joinWhy (tlWhy label)
                         (''the SID has no resolvable account name ('' @ whErrText h err @ '')''))))))"

definition pinned_package :: "win_host \<Rightarrow> nat \<Rightarrow> int \<Rightarrow> string Attr" where
  "pinned_package h t proc =
     (case whPackage h t proc of
        Inr nm \<Rightarrow>
          if nm \<noteq> [] then attr ''package'' nm ProofSigned ''an MSIX package full name read through the pinned process handle''
          else unknown [] ''package'' ''the peer is an ordinary executable, not an MSIX package''
      | Inl err \<Rightarrow> unknown [] ''package'' ''the peer is an ordinary executable, not an MSIX package'')"

definition pinned_code :: "win_host \<Rightarrow> Options option \<Rightarrow> nat \<Rightarrow> int \<Rightarrow> 32 word \<Rightarrow> Time \<Rightarrow> string \<Rightarrow> Peer \<Rightarrow> Peer" where
  "pinned_code h opts t proc pid started img p =
     (if skipCodeSignature opts then p\<lparr>pCode := unknown zero_Code ''code'' ''signature verification was skipped by the caller''\<rparr>
      else (case whVerify h t proc (verdict_key pid started img opts) of
              Inl err \<Rightarrow> p\<lparr>pCode := unknown zero_Code ''code'' (''verification could not be performed: '' @ whErrText h err)\<rparr>
            | Inr (code, verdict, verifiedAt) \<Rightarrow>
                (recordCode p code verdict whyAuthenticode)\<lparr>pEvidenceValidUntil := verifiedAt + codeVerdictLifetime\<rparr>))"

definition pinnedProcessPeer ::
  "win_host \<Rightarrow> Options option \<Rightarrow> nat \<Rightarrow> windowsBinding \<Rightarrow> string \<Rightarrow> string \<Rightarrow> string \<Rightarrow> string \<Rightarrow> go_error + Peer" where
  "pinnedProcessPeer h opts t b transport userWhy processWhy remark =
     (case processUser h t (wbProc b) of
        Inl err \<Rightarrow> Inl (Errorf [Err ErrNoBinding])
      | Inr (user, why) \<Rightarrow>
          (case whImage h (t + 1) (wbProc b) of
             Inl err \<Rightarrow> Inl (Errorf [Err ErrNoBinding])
           | Inr img \<Rightarrow>
               (let p = (win_unresolved (whNow h t))\<lparr>pTransport := transport,
                      pUser := attr ''user'' user ProofBound (joinWhy userWhy why),
                      pProcess := attr ''process'' (zero_Process\<lparr>prPID := uint (wbPid b), prStartTime := wbStarted b\<rparr>) ProofBound processWhy,
                      pPath := attr ''path'' img ProofBound ''read through the pinned process handle; a path is not an identity - see CONTRACT.md'',
                      pPackage := pinned_package h (t + 2) (wbProc b)\<rparr>;
                    p = pinned_code h opts (t + 3) (wbProc b) (wbPid b) (wbStarted b) img p
                in Inr (add_note remark p))))"

text \<open>
  From a process id: open it, exclude one created after the connection, ask again, read the peer.
  \<open>gone\<close> is the refusal of a process that cannot be opened, \<open>again\<close> the binding's recheck, whose
  panic is \<open>None\<close>.
\<close>

definition pin_windows ::
  "win_host \<Rightarrow> Options option \<Rightarrow> nat \<Rightarrow> int list \<Rightarrow> 32 word \<Rightarrow> go_error \<Rightarrow> (nat \<Rightarrow> windowsBinding \<Rightarrow> error option) \<Rightarrow>
   (nat \<Rightarrow> windowsBinding \<Rightarrow> go_error + Peer) \<Rightarrow> ((go_error + windowsBinding \<times> Peer) \<times> int list) option" where
  "pin_windows h opts t hs pid gone again describe =
     (case whOpen h t pid of
        Inl err \<Rightarrow> Some (Inl gone, hs)
      | Inr proc \<Rightarrow>
          (let hs1 = proc # hs; b = \<lparr>wbProc = proc, wbPid = pid, wbStarted = 0\<rparr>;
               fail = (\<lambda>err. Some (Inl err, snd (snd (win_release (h, t) (b, hs1)))))
           in case whStart h (t + 1) proc of
                Inl err \<Rightarrow> fail (Errorf [Err ErrNoBinding])
              | Inr started \<Rightarrow>
                  if connectedAt opts (whNow h (t + 1)) < started then fail (Errorf [Err ErrPeerMoved])
                  else (let b = b\<lparr>wbStarted := started\<rparr> in
                        case again (t + 2) b of
                          None \<Rightarrow> None
                        | Some (Some err) \<Rightarrow> fail err
                        | Some None \<Rightarrow>
                            (case describe (t + 5) b of
                               Inl err \<Rightarrow> fail err
                             | Inr peer \<Rightarrow> Some (Inr (b, peer), hs1)))))"

subsection \<open>A dialed \<open>AF_UNIX\<close> socket\<close>

definition unixPeerPID :: "pinned_host \<Rightarrow> nat \<Rightarrow> go_error + 32 word" where
  "unixPeerPID h t =
     (case phUnixPid h t of
        Inl err \<Rightarrow> Inl err
      | Inr pid \<Rightarrow> if pid = 0 then Inl (New ''SIO_AF_UNIX_GETPEERPID named no process'') else Inr pid)"

text \<open>The errors of a socket that is closed or no longer connected.\<close>

definition disconnected :: "go_error \<Rightarrow> bool" where
  "disconnected err = list_ex (\<lambda>n. errors_is err (Errno n)) [10038, 10057, 10054, 10053, 10058]"

definition unix_server_recheck :: "pinned_host \<Rightarrow> nat \<Rightarrow> windowsBinding \<Rightarrow> error" where
  "unix_server_recheck h t b =
     (case unixPeerPID h t of
        Inl err \<Rightarrow> if disconnected err then None else Some (Errorf [Err ErrNoBinding])
      | Inr pid \<Rightarrow>
          if pid \<noteq> wbPid b then Some (Errorf [Err ErrPeerMoved]) else start_contradicted (phWin h) (t + 1) b)"

definition TransportUnix :: string where "TransportUnix = ''unix''"

definition bindUnixServer :: "pinned_host \<Rightarrow> Options option \<Rightarrow> nat \<Rightarrow> int list \<Rightarrow> ((go_error + windowsBinding \<times> Peer) \<times> int list) option" where
  "bindUnixServer h opts t hs =
     (case unixPeerPID h t of
        Inl err \<Rightarrow> Some (Inl (Errorf [Err ErrUnsupportedConn]), hs)
      | Inr pid \<Rightarrow>
          if pid = 0 then Some (Inl (Errorf [Err ErrNoBinding]), hs)
          else pin_windows (phWin h) opts (t + 1) hs pid (Errorf [Err ErrPeerGone]) (\<lambda>t b. Some (unix_server_recheck h t b))
            (\<lambda>t b. pinnedProcessPeer (phWin h) opts t b TransportUnix
              ''read from the access token of the socket server's process, through a handle that cannot be a recycled pid''
              (''SIO_AF_UNIX_GETPEERPID names the process the kernel recorded for the socket's server end; its handle is '' @
               ''pinned and its creation time predates the connection'')
              ''transport: a dialed AF_UNIX socket; the server's process id came from SIO_AF_UNIX_GETPEERPID''))"

definition unix_server_binder :: "(pinned_host \<times> nat, win_handle) Binder" where
  "unix_server_binder =
     \<lparr>recheck = (\<lambda>(h, t) (b, hs). unix_server_recheck h t b), alive = (\<lambda>(h, t). win_alive (phWin h, t)),
      release = (\<lambda>(h, t). win_release (phWin h, t))\<rparr>"

subsection \<open>The TCP owner table\<close>

definition mibTCPStateEstablished :: "32 word" where "mibTCPStateEstablished = 5"

record tcpOwner =
  toPid :: "32 word"
  toEstablished :: bool

text \<open>A row is six four-byte fields; addresses and ports are in network order.\<close>

definition tablePort :: "bytes \<Rightarrow> 16 word" where
  "tablePort field = of_nat (unat (field ! 0) * 256 + unat (field ! 1))"

definition row_local :: "bytes \<Rightarrow> AddrPort" where
  "row_local row = (Addr4 (take 4 (drop 4 row)), tablePort (drop 8 row))"

definition row_remote :: "bytes \<Rightarrow> AddrPort" where
  "row_remote row = (Addr4 (take 4 (drop 12 row)), tablePort (drop 16 row))"

fun owner_search :: "AddrPort \<Rightarrow> AddrPort \<Rightarrow> nat \<Rightarrow> bytes \<Rightarrow> tcpOwner option" where
  "owner_search client server 0 rows = None"
| "owner_search client server (Suc n) rows =
     (if row_local rows = client \<and> row_remote rows = server
      then Some \<lparr>toPid = uint32_le (drop 20 rows), toEstablished = (uint32_le rows = mibTCPStateEstablished)\<rparr>
      else owner_search client server n (drop 24 rows))"

text \<open>
  The table is asked for until the buffer is large enough, eight times at most. An empty buffer has
  no first byte, which is the panic \<open>None\<close>; a buffer of fewer than four bytes would be read past its
  end and is counted as one too.
\<close>

fun ownerOf_loop :: "table_call \<Rightarrow> AddrPort \<Rightarrow> AddrPort \<Rightarrow> nat \<Rightarrow> nat \<Rightarrow> 32 word \<Rightarrow> (go_error + tcpOwner option) option" where
  "ownerOf_loop call client server attempt 0 room = Some (Inl (New ''GetExtendedTcpTable: the table kept growing''))"
| "ownerOf_loop call client server attempt (Suc left) room =
     (if unat room < 4 then None
      else (case call attempt room of
              (r, room', content) \<Rightarrow>
                (let buf = take (unat room) (content @ replicate (unat room) 0) in
                 if r = errorInsufficientBuffer then ownerOf_loop call client server (Suc attempt) left (room' + 16384)
                 else if r \<noteq> 0 then Some (Inl (Errorf [Errno r]))
                 else (let n = unat (uint32_le buf) in
                       if n * 24 + 4 > length buf then Some (Inl (New ''GetExtendedTcpTable: table larger than its buffer''))
                       else Some (Inr (owner_search client server n (drop 4 buf)))))))"

definition ownerOf :: "pinned_host \<Rightarrow> nat \<Rightarrow> AddrPort \<Rightarrow> AddrPort \<Rightarrow> (go_error + tcpOwner option) option" where
  "ownerOf h t client server = ownerOf_loop (phTcpTable h t) client server 0 8 65536"

subsection \<open>A loopback connection\<close>

definition win_loopbackCeiling :: Limits where
  "win_loopbackCeiling =
     \<lparr>lPlatform = ''windows'',
      lBest = \<lparr>nUser = ProofBound, nProcess = ProofBound, nPath = ProofBound, nPackage = ProofSigned, nCode = ProofBound\<rparr>,
      lWhy = [''user'' \<mapsto> ''read from the access token of the pinned creator process; the connection carries no token of its own'',
        ''process'' \<mapsto> ''the TCP owner table's record of the process that created the client socket, pinned by a process handle '' @
          ''whose creation time predates the connection'',
        ''path'' \<mapsto> ''the image path is read through the pinned process handle; a path is a name, not an identity'',
        ''package'' \<mapsto> ''an MSIX package full name read through the pinned process handle'',
        ''code'' \<mapsto> ''Authenticode verifies a file, and Windows exposes no way to verify the image a running process executes''],
      lTransport = TransportLoopback, lBindable = True,
      lBinding = ''the TCP owner table: GetExtendedTcpTable names the process that created the client socket, an open process '' @
        ''handle whose creation time predates the connection pins it, and a creator that has exited while the connection is '' @
        ''still established is refused as moved'',
      lStronger = ''npipe: the kernel names the pipe's client process on the pipe instance itself, and the user comes from the '' @
        ''client's own impersonation token at kernel''\<rparr>"

text \<open>The recheck; a panic of the table reader is \<open>None\<close>.\<close>

definition win_loopback_recheck :: "pinned_host \<Rightarrow> AddrPort \<Rightarrow> AddrPort \<Rightarrow> nat \<Rightarrow> windowsBinding \<Rightarrow> error option" where
  "win_loopback_recheck h client server t b =
     (case ownerOf h t client server of
        None \<Rightarrow> None
      | Some (Inl err) \<Rightarrow> Some None
      | Some (Inr None) \<Rightarrow> Some None
      | Some (Inr (Some owner)) \<Rightarrow>
          if toPid owner \<noteq> wbPid b then Some (Some (Errorf [Err ErrPeerMoved]))
          else (case start_contradicted (phWin h) (t + 1) b of
                  Some err \<Rightarrow> Some (Some err)
                | None \<Rightarrow>
                    if win_alive (phWin h, t + 2) (b, []) = Inr False \<and> toEstablished owner
                    then Some (Some (Errorf [Err ErrPeerMoved])) else Some None))"

definition win_bindLoopback ::
  "pinned_host \<Rightarrow> AddrPort \<Rightarrow> AddrPort \<Rightarrow> Options option \<Rightarrow> nat \<Rightarrow> int list \<Rightarrow> ((go_error + windowsBinding \<times> Peer) \<times> int list) option" where
  "win_bindLoopback h client server opts t hs =
     (case ownerOf h t client server of
        None \<Rightarrow> None
      | Some (Inl err) \<Rightarrow> Some (Inl (Errorf [Err ErrNoBinding]), hs)
      | Some (Inr None) \<Rightarrow> Some (Inl (Errorf [Err ErrPeerGone]), hs)
      | Some (Inr (Some owner)) \<Rightarrow>
          if toPid owner = 0 then Some (Inl (Errorf [Err ErrNoBinding]), hs)
          else pin_windows (phWin h) opts (t + 1) hs (toPid owner)
            (if toEstablished owner then Errorf [Err ErrPeerMoved] else Errorf [Err ErrPeerGone])
            (win_loopback_recheck h client server)
            (\<lambda>t b. pinnedProcessPeer (phWin h) opts t b TransportLoopback
              (''read from the access token of the process that created the client socket, through a handle that cannot be a '' @
               ''recycled pid'')
              (''the TCP owner table names the process that created the client socket; its handle is pinned and its creation '' @
               ''time predates the connection'')
              ''transport: a loopback TCP connection carries no credentials; the process came from the TCP owner table''))"

subsection \<open>The owner table names the creator\<close>

definition names_row :: "AddrPort \<Rightarrow> AddrPort \<Rightarrow> bytes \<Rightarrow> nat \<Rightarrow> bool" where
  "names_row client server rows i \<longleftrightarrow> row_local (drop (24 * i) rows) = client \<and> row_remote (drop (24 * i) rows) = server"

lemma owner_search_first:
  "owner_search client server n rows = Some owner \<Longrightarrow> \<exists>i < n. names_row client server rows i \<and> (\<forall>j < i. \<not> names_row client server rows j) \<and>
     toPid owner = uint32_le (drop (24 * i + 20) rows) \<and> toEstablished owner = (uint32_le (drop (24 * i) rows) = mibTCPStateEstablished)"
proof (induction client server n rows rule: owner_search.induct)
  case (2 client server n rows)
  show ?case
  proof (cases "names_row client server rows 0")
    case True
    then show ?thesis using 2(2) by (intro exI [of _ 0]) (auto simp: names_row_def)
  next
    case False
    then obtain i where i: "i < n" "names_row client server (drop 24 rows) i" "\<forall>j < i. \<not> names_row client server (drop 24 rows) j"
      "toPid owner = uint32_le (drop (24 * i + 20) (drop 24 rows))"
      "toEstablished owner = (uint32_le (drop (24 * i) (drop 24 rows)) = mibTCPStateEstablished)"
      using 2 by (auto simp: names_row_def)
    have s: "names_row client server (drop 24 rows) k = names_row client server rows (Suc k)" for k
      by (simp add: names_row_def add.commute)
    have "\<not> names_row client server rows j" if "j < Suc i" for j
      using that False i(3) s by (cases j) auto
    then show ?thesis using i s by (intro exI [of _ "Suc i"]) (simp add: add.commute)
  qed
qed simp

lemma owner_search_none: "owner_search client server n rows = None \<longleftrightarrow> (\<forall>i < n. \<not> names_row client server rows i)"
proof (induction client server n rows rule: owner_search.induct)
  case (2 client server n rows)
  have s: "names_row client server (drop 24 rows) k = names_row client server rows (Suc k)" for k
    by (simp add: names_row_def add.commute)
  have z: "row_local rows = client \<and> row_remote rows = server \<longleftrightarrow> names_row client server rows 0" by (simp add: names_row_def)
  show ?case
    using 2 by (simp add: z s All_less_Suc2)
qed simp

text \<open>
  Reading the owner table always ends with an answer, when the sizes the system asks for leave room
  to grow: no read is outside a buffer.
\<close>

lemma ownerOf_returns:
  assumes "\<And>attempt room. unat (fst (snd (phTcpTable h t attempt room))) + 16384 < 2 ^ 32"
  shows "\<exists>r. ownerOf h t client server = Some r"
proof -
  have "4 \<le> unat room \<Longrightarrow> \<exists>r. ownerOf_loop (phTcpTable h t) client server attempt left room = Some r" for attempt left room
  proof (induction left arbitrary: attempt room)
    case (Suc left)
    obtain r room' content where c: "phTcpTable h t attempt room = (r, room', content)" by (metis prod.exhaust)
    have "unat (room' + 16384) = unat room' + 16384"
      using assms [of attempt room] c by (simp add: unat_word_ariths)
    then have "\<exists>r. ownerOf_loop (phTcpTable h t) client server (Suc attempt) left (room' + 16384) = Some r"
      by (intro Suc.IH) simp
    then show ?case using Suc.prems c by (auto simp: Let_def)
  qed simp
  then show ?thesis by (simp add: ownerOf_def)
qed

subsection \<open>What a pinned binding rests on\<close>

lemma pinned_code_sels [simp]:
  "pUser (pinned_code h opts t q pid st img p) = pUser p" "pProcess (pinned_code h opts t q pid st img p) = pProcess p"
  "pPath (pinned_code h opts t q pid st img p) = pPath p" "pPackage (pinned_code h opts t q pid st img p) = pPackage p"
  by (auto simp: pinned_code_def split: sum.splits)

lemma pinned_code_rung: "verdicts_bounded h \<Longrightarrow> attr_proof (pCode (pinned_code h opts t q pid st img p)) \<le> ProofBound"
  by (auto simp: pinned_code_def verdicts_bounded_def ladder_simps split: sum.splits)

lemma pinned_package_rung: "attr_proof (pinned_package h t q) \<le> ProofSigned"
  by (auto simp: pinned_package_def rung_defs split: sum.splits)

lemma pinnedProcessPeer_InrE:
  assumes "pinnedProcessPeer h opts t b transport userWhy processWhy remark = Inr p"
  obtains user why where "processUser h t (wbProc b) = Inr (user, why)" "whImage h (t + 1) (wbProc b) = Inr (attr_value (pPath p))"
    "attr_value (pUser p) = user" "attr_value (pProcess p) = zero_Process\<lparr>prPID := uint (wbPid b), prStartTime := wbStarted b\<rparr>"
    "attr_proof (pUser p) = ProofBound" "attr_proof (pProcess p) = ProofBound" "attr_proof (pPath p) = ProofBound"
    "attr_proof (pPackage p) \<le> ProofSigned" "verdicts_bounded h \<longrightarrow> attr_proof (pCode p) \<le> ProofBound"
  using assms by (auto simp: pinnedProcessPeer_def Let_def pinned_package_rung pinned_code_rung split: sum.splits)

lemma pin_windows_InrE:
  assumes "pin_windows h opts t hs pid gone again describe = Some (Inr (b, p), hs')"
  obtains "wbPid b = pid" "whOpen h t pid = Inr (wbProc b)" "whStart h (t + 1) (wbProc b) = Inr (wbStarted b)"
    "wbStarted b \<le> connectedAt opts (whNow h (t + 1))" "again (t + 2) b = Some None" "describe (t + 5) b = Inr p" "hs' = wbProc b # hs"
  using assms by (auto simp: pin_windows_def Let_def split: sum.splits option.splits if_splits)

lemma win_bindLoopback_InrE:
  assumes "win_bindLoopback h client server opts t hs = Some (Inr (b, p), hs')"
  obtains owner user why where "ownerOf h t client server = Some (Inr (Some owner))" "toPid owner = wbPid b" "wbPid b \<noteq> 0"
    "whOpen (phWin h) (t + 1) (wbPid b) = Inr (wbProc b)" "whStart (phWin h) (t + 2) (wbProc b) = Inr (wbStarted b)"
    "wbStarted b \<le> connectedAt opts (whNow (phWin h) (t + 2))" "win_loopback_recheck h client server (t + 3) b = Some None"
    "processUser (phWin h) (t + 6) (wbProc b) = Inr (user, why)" "attr_value (pUser p) = user"
    "whImage (phWin h) (t + 7) (wbProc b) = Inr (attr_value (pPath p))"
    "attr_value (pProcess p) = zero_Process\<lparr>prPID := uint (wbPid b), prStartTime := wbStarted b\<rparr>"
    "need_le (rungs p) \<lparr>nUser = ProofBound, nProcess = ProofBound, nPath = ProofBound, nPackage = ProofSigned, nCode = attr_proof (pCode p)\<rparr>"
    "verdicts_bounded (phWin h) \<longrightarrow> attr_proof (pCode p) \<le> ProofBound" "hs' = wbProc b # hs"
proof -
  obtain owner where o1: "ownerOf h t client server = Some (Inr (Some owner))" "toPid owner \<noteq> 0"
    using assms by (auto simp: win_bindLoopback_def split: option.splits sum.splits if_splits)
  have ticks: "t + 3 = Suc (Suc (Suc t))" "t + 6 = 6 + t" "t + 7 = 7 + t" by simp_all
  from o1 assms show ?thesis
    by (auto simp: ticks win_bindLoopback_def need_le_def rungs_def intro!: that elim!: pin_windows_InrE pinnedProcessPeer_InrE)
qed


interpretation win_loopback: reliant_transport
  "\<lambda>(h, client, server, opts, t, hs). verdicts_bounded (phWin h)" "\<lambda>_. win_loopbackCeiling"
  "\<lambda>(h, client, server, opts, t, hs). case win_bindLoopback h client server opts t hs of None \<Rightarrow> Inl (New []) | Some (r, hs') \<Rightarrow> map_sum id snd r"
proof unfold_locales
  fix a :: "pinned_host \<times> AddrPort \<times> AddrPort \<times> Options option \<times> nat \<times> int list" and p
  obtain h client server opts t hs where a: "a = (h, client, server, opts, t, hs)" by (cases a)
  assume r: "case a of (h, client, server, opts, t, hs) \<Rightarrow> verdicts_bounded (phWin h)"
    and "(case a of (h, client, server, opts, t, hs) \<Rightarrow>
        case win_bindLoopback h client server opts t hs of None \<Rightarrow> Inl (New []) | Some (r, hs') \<Rightarrow> map_sum id snd r) = Inr p"
  then obtain b hs' where "win_bindLoopback h client server opts t hs = Some (Inr (b, p), hs')"
    by (cases "win_bindLoopback h client server opts t hs") (auto simp: a map_sum_def split: prod.splits sum.splits)
  then show "need_le (rungs p) (lBest win_loopbackCeiling)"
    using r by (auto simp: a need_le_def rungs_def win_loopbackCeiling_def elim!: win_bindLoopback_InrE)
qed

interpretation unix_server: handle_owner unix_server_binder "\<lambda>(b, hs). wbProc b = 0"
  by unfold_locales (auto simp: unix_server_binder_def win_release_def split: prod.splits)

text \<open>The recheck refuses exactly a contradiction: another owner, another start time, or a creator gone from a live connection.\<close>

lemma win_loopback_recheck_iff:
  "win_loopback_recheck h client server t b = Some None \<longleftrightarrow>
     (case ownerOf h t client server of
        None \<Rightarrow> False | Some (Inl err) \<Rightarrow> True | Some (Inr None) \<Rightarrow> True
      | Some (Inr (Some owner)) \<Rightarrow> toPid owner = wbPid b \<and> (\<forall>st. whStart (phWin h) (t + 1) (wbProc b) = Inr st \<longrightarrow> st = wbStarted b) \<and>
          (toEstablished owner \<longrightarrow> whExit (phWin h) (t + 2) (wbProc b) = Inr stillActive \<or> (\<exists>err. whExit (phWin h) (t + 2) (wbProc b) = Inl err)))"
  by (auto simp: win_loopback_recheck_def start_contradicted_def win_alive_def split: option.splits sum.splits)


text \<open>What a bind may leave of the handles: all as they were, or the binding's own besides, which closing it gives back.\<close>

definition owns_handle :: "int list \<Rightarrow> ((go_error + windowsBinding \<times> Peer) \<times> int list) option \<Rightarrow> bool" where
  "owns_handle hs r =
     (case r of
        None \<Rightarrow> True
      | Some (Inl err, hs') \<Rightarrow> hs' = hs
      | Some (Inr (b, p), hs') \<Rightarrow> hs' = wbProc b # hs \<and> (\<forall>w. snd (snd (win_release w (b, hs'))) = hs))"

lemma owns_handle_simps [simp]: "owns_handle hs None" "owns_handle hs (Some (Inl err, hs))"
  by (simp_all add: owns_handle_def)

lemma pin_windows_owns:
  assumes "\<And>t pid. whOpen h t pid \<noteq> Inr 0"
  shows "owns_handle hs (pin_windows h opts t hs pid gone again describe)"
proof (cases "whOpen h t pid")
  case (Inr q)
  then have "q \<noteq> 0" using assms [of t pid] by auto
  then have "snd (snd (win_release w (\<lparr>wbProc = q, wbPid = pid, wbStarted = s\<rparr>, q # hs))) = hs" for w s
    by (cases w) (simp add: win_release_def)
  then show ?thesis using Inr by (simp add: pin_windows_def owns_handle_def Let_def split: sum.splits option.splits)
qed (simp add: pin_windows_def)

theorem windows_pinned_no_leak:
  assumes "\<And>t pid. whOpen (phWin h) t pid \<noteq> Inr 0"
  shows "owns_handle hs (bindUnixServer h opts t hs) \<and> owns_handle hs (win_bindLoopback h client server opts t hs)"
  using pin_windows_owns [OF assms]
  by (auto simp: bindUnixServer_def win_bindLoopback_def split: sum.split option.split)

subsection \<open>A table and a host to run the model on\<close>

text \<open>One established row, from port 80 of the loopback address to its port 443, created by process 42.\<close>

definition demo_table :: bytes where
  "demo_table = put_le32 1 @ put_le32 5 @ [127, 0, 0, 1] @ [0, 80, 0, 0] @ [127, 0, 0, 1] @ [1, 187, 0, 0] @ put_le32 42"

definition demo_client :: AddrPort where "demo_client = (Addr4 [127, 0, 0, 1], 80)"
definition demo_server :: AddrPort where "demo_server = (Addr4 [127, 0, 0, 1], 443)"

definition pinned_demo :: pinned_host where
  "pinned_demo =
     \<lparr>phWin = win_demo\<lparr>whProcessToken := (\<lambda>t q. Inr \<lparr>tkLevel = Inr 2, tkUser = Inr ''S-1-5-21'', tkCopy = None, tkElevated = False,
        tkLabelSize = 0, tkLabel = Inl (Errno 5), tkRestricted = Inr False\<rparr>)\<rparr>,
      phUnixPid = (\<lambda>t. Inr 42), phTcpTable = (\<lambda>t attempt room. (0, 28, demo_table))\<rparr>"

lemma demo_owner: "ownerOf pinned_demo t demo_client demo_server = Some (Inr (Some \<lparr>toPid = 42, toEstablished = True\<rparr>))"
proof -
  have len: "length demo_table = 28" by (simp add: demo_table_def)
  have buf: "take 65536 (demo_table @ replicate 65536 0) = demo_table @ replicate (65536 - 28) 0"
    by (simp add: len take_append)
  have count: "uint32_le (demo_table @ rest) = 1" for rest by (simp add: demo_table_def)
  have found: "owner_search demo_client demo_server (Suc 0) (drop 4 (demo_table @ rest)) = Some \<lparr>toPid = 42, toEstablished = True\<rparr>" for rest
    by (simp add: demo_table_def demo_client_def demo_server_def row_local_def row_remote_def tablePort_def mibTCPStateEstablished_def)
  have "phTcpTable pinned_demo t attempt room = (0, 28, demo_table)" for attempt room by (simp add: pinned_demo_def)
  then have "ownerOf_loop (phTcpTable pinned_demo t) demo_client demo_server 0 (Suc n) 65536 = Some (Inr (Some \<lparr>toPid = 42, toEstablished = True\<rparr>))" for n
    using buf found [of "replicate (65536 - 28) 0"] by (simp add: errorInsufficientBuffer_def Let_def len count del: owner_search.simps)
  from this [of 7] show ?thesis by (simp add: ownerOf_def)
qed

lemma pinned_demo_sels:
  "whOpen (phWin pinned_demo) t pid = Inr 9" "whStart (phWin pinned_demo) t q = Inr 9" "whNow (phWin pinned_demo) t = 200"
  "whImage (phWin pinned_demo) t q = Inr ''ps''" "whExit (phWin pinned_demo) t q = Inr 259" "verdicts_bounded (phWin pinned_demo)"
  "\<exists>user why. processUser (phWin pinned_demo) t q = Inr (user, why)"
  by (simp_all add: pinned_demo_def win_demo_def verdicts_bounded_def processUser_def Let_def)

lemma pinned_demo_peer: "\<exists>p. pinnedProcessPeer (phWin pinned_demo) opts t b transport a c d = Inr p"
proof -
  obtain user why where "processUser (phWin pinned_demo) t (wbProc b) = Inr (user, why)" using pinned_demo_sels(7) by blast
  then show ?thesis by (simp add: pinnedProcessPeer_def pinned_demo_sels Let_def)
qed

lemma pinned_demo_bind:
  "\<exists>p. win_bindLoopback pinned_demo demo_client demo_server None 0 [] = Some (Inr (\<lparr>wbProc = 9, wbPid = 42, wbStarted = 9\<rparr>, p), [9])"
proof -
  have "win_loopback_recheck pinned_demo demo_client demo_server t \<lparr>wbProc = 9, wbPid = 42, wbStarted = 9\<rparr> = Some None" for t
    by (simp add: win_loopback_recheck_iff demo_owner pinned_demo_sels stillActive_def)
  then show ?thesis
    using pinned_demo_peer by (simp add: win_bindLoopback_def demo_owner pin_windows_def pinned_demo_sels connectedAt_def Let_def split: sum.split) (metis sum.distinct(1))
qed


end
