(* ===== verification/Spec2Isabelle.thy ===== *)
theory Spec2Isabelle
  imports Session_Listener Frame_Client Framed_Call Json_Values Socket_Tables Loopback Admission Verdict_Cache Version_Resource Private_Dir Windows_Pinned
begin

text \<open>
  A model of the Go package \<^verbatim>\<open>identity\<close> (src/*.go), which tells a service who is at the other end of a
  local connection and how well that is proven, and of its subpackages \<^verbatim>\<open>listen\<close> (frames, sessions and
  their clients), \<^verbatim>\<open>privatedir\<close> and the record codec \<^verbatim>\<open>api\<close>.

  \<^bold>\<open>Parts and how they interact.\<close> A platform function resolves a connection to a \<^verbatim>\<open>Peer\<close>, five
  attributes each on a rung of the proof ladder, and binds it to a handle that pins the process.
  A service compares the peer with its policy (\<^verbatim>\<open>Check\<close>), asks the binding again before it relies
  on it, and at start-up asks whether the policy can ever be met (\<^verbatim>\<open>CanEver\<close>). The listen package
  reads a framed request only after that check, serves many requests over one session, and has a
  client that keeps sessions in a pool and repeats a request only when the server said that it did
  not run it. Code verdicts of Windows programs come from a cache in front of an Authenticode
  verification; paths are first shown to be local; model folders are made unwritable for others.

  \<^bold>\<open>Foundations.\<close> \<open>Prelude\<close>: type names, collections, words and lists. \<open>Go_Errors\<close>: error values with
  \<^verbatim>\<open>errors.Is\<close>, \<^verbatim>\<open>As\<close>, \<^verbatim>\<open>Join\<close>; an \<^verbatim>\<open>error\<close> result is an option, a pair with an error a sum. \<open>Go_Strings\<close>,
  \<open>Go_Numbers\<close>, \<open>File_Paths\<close>, \<open>Net_Addr\<close>, \<open>Stream_IO\<close>: what the sources use of Go's strings, strconv,
  path/filepath on Unix, net/netip and io. What a kernel or a system library answers is a field of
  a record that the definitions take as an argument, with a number that tells moments apart where
  the same question is asked twice. A panic is \<open>None\<close> where a definition can meet one.

  \<^bold>\<open>Identity.\<close> \<open>Proof_Ladder\<close> (proof.go) and \<open>Peers\<close> (peer.go): rungs, attributes, \<^verbatim>\<open>Check\<close> and
  \<^verbatim>\<open>CanEver\<close>, both shown to decide exactly a comparison of rungs; the locales \<open>reliant_transport\<close>
  and \<open>bounded_transport\<close> say what a start-up check is worth, and every platform interprets one.
  \<open>Bindings\<close> (bind.go, server.go, identity.go): the state under a binding's lock, its views, and the
  locales \<open>handle_owner\<close> and \<open>closing_handle\<close>; a closed binding refuses on every view, and its
  handle is released once in every sequence of calls. \<open>Linux_Identity\<close> (identity\_linux.go,
  procfs\_linux.go, bind\_linux.go), \<open>Loopback\<close> (loopback.go, loopback\_linux.go), \<open>Windows_Identity\<close>
  (identity\_windows.go, bind\_windows.go, server\_windows.go) and \<open>Windows_Pinned\<close>
  (unixserver\_windows.go, loopback\_windows.go): resolution, binding, recheck and release on each
  transport; what is reported at \<^verbatim>\<open>ProofBound\<close> or above is of the pinned process, no bind leaks a
  handle, and no peer exceeds the ceiling. \<open>Impersonation\<close> (impersonate\_windows.go,
  integrity\_windows.go, account\_windows.go): no thread goes back wearing a client's token.
  \<open>Socket_Tables\<close> (sockets.go, sockets\_windows.go): owner tables and the loopback-only check.

  \<^bold>\<open>Code on Windows.\<close> \<open>Version_Resource\<close> (version\_windows.go): the reader of version resources never
  panics and its names belong to the verified file. \<open>Authenticode\<close> (authenticode\_windows.go): what
  is trusted was accepted by the system and not moved meanwhile, and all handles, contexts and
  trust states are given back. \<open>Verdict_Cache\<close> (verdicts\_windows.go): the locked regions
  interleaved for any number of callers; no verdict is invented or stale.
  \<open>windows_ceiling_sound\<close> puts the three under \<^verbatim>\<open>Bind\<close>.

  \<^bold>\<open>Files.\<close> \<open>Mount_Table\<close> and \<open>Local_Path\<close> (localpath\_linux.go, localpath\_statfs.go): the mount table and
  which paths are local, with the probes bounded. \<open>Path_Identity\<close> (pathidentity.go,
  filekey\_unix.go) and \<open>Program_Path\<close> (program.go): when two paths are one file and two names one
  program. \<open>Private_Dir\<close> (go/privatedir): folders private to their owner, and the protection of model
  folders.

  \<^bold>\<open>Frames and sessions.\<close> \<open>Framing\<close> (listen/framed.go, proof\_refusal.go): frames on the wire; round
  trip, and a refusal that tells only the policy. \<open>Framed_Call\<close> (listen/framed.go, listen.go,
  message.go): no body is read before the caller is admitted. \<open>Session\<close>, \<open>Session_Call\<close>,
  \<open>Session_Listener\<close> (listen/session.go): a session as a step relation with its invariant, its calls,
  and the listener's slots. \<open>Frame_Pool\<close>, \<open>Frame_Client\<close> (listen/pool.go, framed.go): the pool and
  the client's attempts. \<open>Server_Trust\<close> (listen/server.go), \<open>Admission\<close> (listen/admission.go): which server
  a client talks to and which endpoints a process serves. This theory joins client and server: a
  repeated request was not run.

  \<^bold>\<open>Codec.\<close> \<open>Json_Text\<close>, \<open>Json_Values\<close>, \<open>Wire_Record\<close> (go/abstraction/identity/api/rec.go): strings,
  UTF-8, exact integers, containers, and the records with their round trip.

  \<^bold>\<open>Bounds and fuel.\<close> Loops are total functions with a termination proof, except two. Skipping a value
  of the codec takes fuel, and \<open>skipValue_terminates\<close> shows that twice the unread bytes are enough
  and that more changes nothing. The scan of a model folder is a partial function, because a file
  system without end would never be scanned; \<open>protectModels_returns\<close> shows that it returns when
  paths have bounded length. Attempts that the sources bound (eight table reads, 64 catalogs) are
  bounded by the same numbers.

  \<^bold>\<open>Not modelled.\<close> macOS (identity\_darwin.go, bind\_darwin.go, codesign\_darwin.go, xpc\_darwin.go and the
  message endpoint): Security framework and libxpc through cgo. Creation of sockets and pipes
  (listen\_unix.go, listen\_windows.go) and security descriptors (server\_admission\_windows.go,
  go/trustedpath, the Windows half of go/privatedir): system calls on unsafe memory. The readers of
  a certificate's names (\<^verbatim>\<open>signerName\<close>, \<^verbatim>\<open>certName\<close>) and the other wrappers of win32\_windows.go are
  answers of the environments. Windows path syntax and file keys (localpath\_windows.go,
  filekey\_windows.go, filecode\_windows.go). The TLS transport (remote/), whose guarantee is the TLS
  library's. The ports of codec and client to Python, Rust, C++ and JavaScript, and the commands,
  probes and tools. Goroutine scheduling appears only as the interleaving of locked regions, and
  calls of \<^verbatim>\<open>accountName\<close> are taken one after another.
\<close>

section \<open>The session client against the session server\<close>

text \<open>Answers and requests are self-delimiting, so a stream of them reads in one way.\<close>

definition delimited :: "bytes \<Rightarrow> bool" where
  "delimited a = (\<exists>len body. a = put_be32 (len OR sessionFlag) @ body \<and> len \<le> lengthMask \<and> length body = unat len)"

lemma complete_answer_delimited: "complete_answer r a \<Longrightarrow> delimited a"
proof (cases r)
  case (Pair h b)
  assume c: "complete_answer r a"
  show ?thesis
  proof (cases "h AND oneWayFlag = 0")
    case True
    then show ?thesis using c Pair by (auto simp: complete_answer_def delimited_def)
  next
    case False
    then have "a = put_be32 (0 OR sessionFlag) @ []" using c Pair by (simp add: complete_answer_def)
    then show ?thesis unfolding delimited_def by (intro exI [of _ 0] exI [of _ "[]"]) simp
  qed
qed

lemma complete_answers_delimited: "list_all2 complete_answer reqs answers \<Longrightarrow> list_all delimited answers"
  by (induction rule: list_all2_induct) (auto dest: complete_answer_delimited)

lemma put_be32_app_inject: "put_be32 v @ xs = put_be32 w @ ys \<longleftrightarrow> v = w \<and> xs = ys"
  by (metis append_eq_append_conv length_put_be32 put_be32_inject)

lemma delimited_not_closing: "delimited a \<Longrightarrow> a @ xs \<noteq> put_be32 sessionClosing @ ys"
proof
  assume "delimited a" and e: "a @ xs = put_be32 sessionClosing @ ys"
  then obtain len body where "a = put_be32 (len OR sessionFlag) @ body" "len \<le> lengthMask" by (auto simp: delimited_def)
  then have "len OR sessionFlag \<noteq> sessionClosing" "len OR sessionFlag = sessionClosing"
    using header_bits(4) [of len "len OR sessionFlag" True] e put_be32_app_inject by auto
  then show False by simp
qed

lemma delimited_unique:
  assumes "delimited a" "delimited b" "a @ xs = b @ ys" shows "a = b \<and> xs = ys"
proof -
  obtain l p m q where a: "a = put_be32 (l OR sessionFlag) @ p" "l \<le> lengthMask" "length p = unat l"
    and b: "b = put_be32 (m OR sessionFlag) @ q" "m \<le> lengthMask" "length q = unat m"
    using assms(1,2) by (auto simp: delimited_def)
  have "put_be32 (l OR sessionFlag) @ p @ xs = put_be32 (m OR sessionFlag) @ q @ ys"
    using assms(3) by (simp only: a(1) b(1) append_assoc)
  then have e: "l OR sessionFlag = m OR sessionFlag" "p @ xs = q @ ys" by (simp_all only: put_be32_app_inject)
  have "(l OR sessionFlag) AND lengthMask = l" "(m OR sessionFlag) AND lengthMask = m"
    using header_bits(2) [OF a(2), where keep = True] header_bits(2) [OF b(2), where keep = True] by simp_all
  then have lm: "l = m" by (metis e(1))
  then have "p = q \<and> xs = ys" using e(2) a(3) b(3) by (metis append_eq_append_conv)
  then show ?thesis using a(1) b(1) lm by (simp only: HOL.simp_thms)
qed

lemma answers_unique:
  "list_all delimited xs \<Longrightarrow> list_all delimited ys \<Longrightarrow>
   concat xs @ take k (put_be32 sessionClosing) = concat ys @ put_be32 sessionClosing @ zs \<Longrightarrow> xs = ys"
proof (induction xs arbitrary: ys)
  case Nil
  show ?case
  proof (cases ys)
    case (Cons y ys')
    obtain len body where y: "y = put_be32 (len OR sessionFlag) @ body" using Nil(2) Cons by (auto simp: delimited_def)
    have "length (take k (put_be32 sessionClosing)) = length (concat ys @ put_be32 sessionClosing @ zs)"
      using Nil(3) by simp
    then show ?thesis using Cons y by simp
  qed simp
next
  case (Cons x xs)
  show ?case
  proof (cases ys)
    case Nil
    then show ?thesis using Cons.prems delimited_not_closing [of x] by auto
  next
    case (Cons y ys')
    with Cons.prems delimited_unique [of x y] have "x = y"
      "concat xs @ take k (put_be32 sessionClosing) = concat ys' @ put_be32 sessionClosing @ zs"
      by auto
    then show ?thesis using Cons Cons.IH [of ys'] Cons.prems by simp
  qed
qed

lemma requests_unique:
  "list_all complete_request xs \<Longrightarrow> list_all complete_request ys \<Longrightarrow> length xs = length ys \<Longrightarrow>
   wire_requests xs @ p = wire_requests ys @ q \<Longrightarrow> xs = ys \<and> p = q"
proof (induction xs arbitrary: ys)
  case (Cons x xs)
  obtain y ys' where ys: "ys = y # ys'" using Cons.prems(3) by (cases ys) auto
  obtain h b h' b' where xy: "x = (h, b)" "y = (h', b')" by (cases x, cases y)
  have e: "put_be32 h @ b @ wire_requests xs @ p = put_be32 h' @ b' @ wire_requests ys' @ q"
    using Cons.prems(4) ys xy by (simp add: wire_requests_def)
  then have "h = h'" "b @ wire_requests xs @ p = b' @ wire_requests ys' @ q" by (auto simp: put_be32_app_inject)
  then have "b = b'" "wire_requests xs @ p = wire_requests ys' @ q"
    using Cons.prems(1,2) ys xy by (auto simp: complete_request_def)
  then show ?case using Cons.IH [of ys'] Cons.prems ys xy \<open>h = h'\<close> by simp
qed (simp add: wire_requests_def)

text \<open>
  C15: a client that repeats a request runs it once. Let a session server have received the requests
  a client sent over one connection, each complete and each answered completely, and then one more
  request; and let the client's attempt on that connection, whose unread bytes are all the server
  wrote after those answers, end in a repeat. Then, in every interleaving of the server's steps in which it wrote
  the marker, it has dispatched exactly the answered requests, and the whole of the request that the
  client will now send elsewhere is still unread.
\<close>

theorem repeated_request_not_run:
  assumes "writer_contract pc" and "sent pc = []"
    and "session_step\<^sup>*\<^sup>* (start_session header pc) s" and "sMarker s"
    and "list_all complete_request reqs" and "list_all2 complete_answer reqs answers"
    and "put_be32 header @ payload (inbox pc) =
           wire_requests reqs @ put_be32 (session_flags frame oneWay) @ frame @ later"
    and "sent (sConn s) = put_be32 sessionAccept @ concat answers @ coming (inbox c)"
    and "fst (pooled_attempt platform cx frame limit oneWay c) = Again"
  shows "sDispatched s = map fst reqs \<and>
    payload (inbox (sConn s)) = put_be32 (session_flags frame oneWay) @ frame @ later"
proof -
  have "session_inv header pc s"
    by (rule session_inv_reaches [OF assms(3) session_inv_start [OF assms(1)]])
  then obtain k where "at_point header pc (sDispatched s) [] (sConn s) (take k (put_be32 sessionClosing))"
    using assms(4) by (cases "sPhase s") (auto simp: session_inv_def)
  then obtain rs as where p: "put_be32 header @ payload (inbox pc) = wire_requests rs @ payload (inbox (sConn s))"
      "map fst rs = sDispatched s" "list_all complete_request rs" "list_all2 complete_answer rs as"
      "sent (sConn s) = put_be32 sessionAccept @ concat as @ take k (put_be32 sessionClosing)"
    unfolding at_point_def assms(2) append_Nil by blast
  obtain zs where z: "coming (inbox c) = put_be32 sessionClosing @ zs"
    using pooled_again [OF assms(9)] by (auto simp: starts_with_def)
  have d: "list_all delimited as" "list_all delimited answers"
    by (rule complete_answers_delimited, fact)+
  have "as = answers"
    using answers_unique [OF d, of k zs] p(5) assms(8) z by (simp add: put_be32_app_inject)
  then have "length rs = length reqs" using p(4) assms(6) by (metis list_all2_lengthD)
  then have "rs = reqs \<and> payload (inbox (sConn s)) = put_be32 (session_flags frame oneWay) @ frame @ later"
    by (rule requests_unique [OF p(3) assms(5)]) (simp only: p(1) [symmetric] assms(7))
  then show ?thesis using p(2) by simp
qed

theorem repeated_request_not_run_witness:
  "\<exists>s. session_step\<^sup>*\<^sup>* (start_session 0x80000001 demo_pc) s \<and> sDispatched s = [0x80000001] \<and>
     payload (inbox (sConn s)) = put_be32 (session_flags [] False)"
proof -
  obtain s where s: "session_step\<^sup>*\<^sup>* (start_session 0x80000001 demo_pc) s" "sMarker s"
      "sent (sConn s) = put_be32 sessionAccept @ [128, 0, 0, 1, 9] @ put_be32 sessionClosing"
    using demo_session by blast
  let ?c = "chunked (put_be32 sessionClosing)"
  have w: "writer_contract demo_pc" "sent demo_pc = []" by (simp_all add: writer_contract_def demo_pc_def)
  have r: "list_all complete_request [(0x80000001, [5])]" by (simp add: complete_request_def wire_defs)
  have f: "(0x80000001 :: 32 word) = 1 OR sessionFlag" by (simp add: wire_defs)
  have a: "list_all2 complete_answer [(0x80000001, [5])] [[128, 0, 0, 1, 9]]"
    by (auto simp: complete_answer_def wire_defs put_be32_def intro!: exI [of _ 1] exI [of _ "[9]"])
  have p: "put_be32 0x80000001 @ payload (inbox demo_pc) =
      wire_requests [(0x80000001, [5])] @ put_be32 (session_flags [] False) @ [] @ []"
    by (simp add: wire_requests_def demo_pc_def session_flags_def wire_defs put_be32_def)
  have o: "sent (sConn s) = put_be32 sessionAccept @ concat [[128, 0, 0, 1, 9]] @ coming (inbox ?c)" using s by simp
  have m: "fst (pooled_attempt (\<lambda>_. False) \<lparr>ctxErr = None, ctxDeadline = None\<rparr> [] 16 False ?c) = Again"
    using pooled_meets_marker [of ?c "[]" "\<lambda>_. False" "\<lparr>ctxErr = None, ctxDeadline = None\<rparr>" "[]" 16 False]
    by (auto simp: takes_all_chunked)
  from repeated_request_not_run [OF w s(1,2) r a p o m] show ?thesis using s(1) by auto
qed

end
